(* ===== verification/Prelude.thy ===== *)
theory Prelude
  imports Main "HOL-Library.Word" "HOL-Library.Signed_Division" "HOL-Library.Monad_Syntax"
begin

unbundle bit_operations_syntax

section \<open>Prelude: machine types, checked C++ arithmetic, shared lemmas\<close>

text \<open>
  What every theory of the development uses: names for the machine types, the C++ integer
  operations that can fail or wrap, the two collections \<open>cpp_simps\<close> (equations of the checked
  operations) and \<open>wf_intros\<close> (preservation of the component invariants), and generic lemmas on
  lists, folds and words.

  Conventions. An unsigned type of the code is a word of its width. The code's \<open>int\<close> is an
  Isabelle \<^typ>\<open>int\<close>, and \<open>i32\<close> marks every place where a value is converted to \<open>int\<close> or an
  \<open>int\<close> computation can leave the 32-bit range: it keeps the low 32 bits in two's complement, as
  the compilers the code is built with do. Behaviour that C++ leaves undefined and that no machine
  gives a meaning (division by zero, an access outside a vector, a failed \<open>assert\<close>) is
  \<^const>\<open>None\<close>; an exception is a value of \<open>cpp_error\<close>.
\<close>

named_theorems cpp_simps
named_theorems wf_intros

type_synonym u8 = "8 word"
type_synonym u16 = "16 word"
type_synonym u32 = "32 word"
type_synonym u64 = "64 word"

datatype cpp_error = Invalid_argument | Length_error | Undefined_behaviour

subsection \<open>The 32-bit \<open>int\<close>\<close>

definition i32 :: "int \<Rightarrow> int" where
  "i32 x = signed_take_bit 31 x"

abbreviation INT_MAX :: int where
  "INT_MAX \<equiv> 2147483647"

definition int_of_u64 :: "u64 \<Rightarrow> int" where
  "int_of_u64 w = i32 (uint w)"

lemma i32_id [simp]: "- 2147483648 \<le> x \<Longrightarrow> x \<le> 2147483647 \<Longrightarrow> i32 x = x"
  by (simp add: i32_def signed_take_bit_int_eq_self)

lemma i32_bounds: "- 2147483648 \<le> i32 x \<and> i32 x \<le> 2147483647"
  using signed_take_bit_int_greater_eq_minus_exp [of 31 x] signed_take_bit_int_less_exp [of 31 x]
  by (simp add: i32_def)

lemma int_of_u64_small: "unat w < 2147483648 \<Longrightarrow> int_of_u64 w = int (unat w)"
proof -
  assume "unat w < 2147483648"
  moreover have "uint w = int (unat w)" by simp
  ultimately have "i32 (uint w) = uint w"
    by (intro i32_id) linarith+
  then show ?thesis by (simp add: int_of_u64_def)
qed

lemma int_of_u64_eq: "unat w = n \<Longrightarrow> n < 2147483648 \<Longrightarrow> int_of_u64 w = int n"
  using int_of_u64_small by blast

subsection \<open>Checked division and loops\<close>

definition udiv :: "'a::len word \<Rightarrow> 'a word \<Rightarrow> 'a word option" where
  "udiv a b = (if b = 0 then None else Some (a div b))"

definition umod :: "'a::len word \<Rightarrow> 'a word \<Rightarrow> 'a word option" where
  "umod a b = (if b = 0 then None else Some (a mod b))"

definition idiv :: "int \<Rightarrow> int \<Rightarrow> int option" where
  "idiv a b = (if b = 0 then None else Some (i32 (a sdiv b)))"

text \<open>The values of \<open>off\<close> in \<open>for (int off = left; off <= right; off += 1)\<close>. With \<open>right\<close> at
  the largest \<open>int\<close> the increment overflows, which C++ does not define.\<close>

definition int_range :: "int \<Rightarrow> int \<Rightarrow> int list option" where
  "int_range left right =
     (if left \<le> right \<and> right = INT_MAX then None else Some [left..right])"

lemma udiv_Some [cpp_simps]: "b \<noteq> 0 \<Longrightarrow> udiv a b = Some (a div b)"
  by (simp add: udiv_def)

lemma umod_Some [cpp_simps]: "b \<noteq> 0 \<Longrightarrow> umod a b = Some (a mod b)"
  by (simp add: umod_def)

lemma udiv_0 [cpp_simps]: "udiv a 0 = None"
  by (simp add: udiv_def)

lemma umod_0 [cpp_simps]: "umod a 0 = None"
  by (simp add: umod_def)

lemma idiv_0 [cpp_simps]: "idiv a 0 = None"
  by (simp add: idiv_def)

lemma idiv_pos [cpp_simps]:
  assumes "0 \<le> a" and "a \<le> INT_MAX" and "0 < b"
  shows "idiv a b = Some (a div b)"
proof -
  have q: "a sdiv b = a div b"
    using assms by (simp add: signed_divide_int_def sgn_if)
  have "0 \<le> a div b" and "a div b \<le> a"
    using assms by (simp_all add: pos_imp_zdiv_nonneg_iff zdiv_mono2 [of a 1 b, simplified])
  then show ?thesis
    using assms q by (simp add: idiv_def)
qed

lemma int_range_Some [cpp_simps]: "right < INT_MAX \<Longrightarrow> int_range left right = Some [left..right]"
  by (simp add: int_range_def)

subsection \<open>Vectors\<close>

text \<open>\<open>std::vector::resize\<close>: truncates, or extends with value-initialised elements.\<close>

definition resize :: "nat \<Rightarrow> 'a \<Rightarrow> 'a list \<Rightarrow> 'a list" where
  "resize n d xs = take n xs @ replicate (n - length xs) d"

lemma length_resize [simp]: "length (resize n d xs) = n"
  by (simp add: resize_def)

lemma resize_Nil [simp]: "resize n d [] = replicate n d"
  by (simp add: resize_def)

text \<open>A checked read of \<open>v[i]\<close> with an \<open>int\<close> index.\<close>

definition vec_at :: "'a list \<Rightarrow> int \<Rightarrow> 'a option" where
  "vec_at xs i = (if 0 \<le> i \<and> i < int (length xs) then Some (xs ! nat i) else None)"

lemma vec_at_Some_iff [cpp_simps]:
  "vec_at xs i = Some x \<longleftrightarrow> 0 \<le> i \<and> i < int (length xs) \<and> xs ! nat i = x"
  by (auto simp: vec_at_def)

lemma vec_at_in [cpp_simps]: "0 \<le> i \<Longrightarrow> i < int (length xs) \<Longrightarrow> vec_at xs i = Some (xs ! nat i)"
  by (simp add: vec_at_def)

subsection \<open>Folds\<close>

text \<open>An invariant of the body is an invariant of the loop.\<close>

lemma fold_invariant:
  assumes "\<And>x s. x \<in> set xs \<Longrightarrow> P s \<Longrightarrow> P (f x s)" and "P s"
  shows "P (fold f xs s)"
  using assms by (induction xs arbitrary: s) auto

text \<open>A loop body that can fail.\<close>

fun fold_opt :: "('a \<Rightarrow> 's \<Rightarrow> 's option) \<Rightarrow> 'a list \<Rightarrow> 's \<Rightarrow> 's option" where
  "fold_opt f [] s = Some s"
| "fold_opt f (x # xs) s = Option.bind (f x s) (fold_opt f xs)"

lemma fold_opt_append: "fold_opt f (xs @ ys) s = Option.bind (fold_opt f xs s) (fold_opt f ys)"
  by (induction xs arbitrary: s) (auto split: bind_splits)

lemma fold_opt_Some:
  assumes "\<And>x s. x \<in> set xs \<Longrightarrow> P s \<Longrightarrow> \<exists>s'. f x s = Some s' \<and> P s'" and "P s"
  shows "\<exists>s'. fold_opt f xs s = Some s' \<and> P s'"
  using assms
proof (induction xs arbitrary: s)
  case Nil
  then show ?case by simp
next
  case (Cons x xs)
  from Cons.prems obtain s' where s': "f x s = Some s'" "P s'"
    by (meson list.set_intros(1))
  then show ?case
    using Cons.IH [of s'] Cons.prems(1) by simp
qed

lemma fold_opt_invariant:
  assumes "fold_opt f xs s = Some s'" and "P s"
    and "\<And>x s s'. x \<in> set xs \<Longrightarrow> P s \<Longrightarrow> f x s = Some s' \<Longrightarrow> P s'"
  shows "P s'"
  using assms
proof (induction xs arbitrary: s)
  case Nil
  then show ?case by simp
next
  case (Cons x xs)
  then show ?case by (auto simp: bind_eq_Some_conv)
qed

lemma count_list_pos: "x \<in> set xs \<Longrightarrow> 1 \<le> count_list xs x"
  using count_list_0_iff [of xs x] by (cases "count_list xs x") auto

lemma sum_list_15:
  fixes f :: "'a \<Rightarrow> int"
  assumes "\<And>x. x \<in> set xs \<Longrightarrow> 0 \<le> f x \<and> f x \<le> 15"
  shows "0 \<le> sum_list (map f xs) \<and> sum_list (map f xs) \<le> 15 * int (length xs)"
  using assms
proof (induction xs)
  case (Cons x xs)
  then have "0 \<le> f x \<and> f x \<le> 15"
    and "0 \<le> sum_list (map f xs) \<and> sum_list (map f xs) \<le> 15 * int (length xs)" by simp_all
  then show ?case by simp
qed simp

subsection \<open>Words\<close>

lemma unat_lt: "unat (w :: 'a::len word) < 2 ^ LENGTH('a)"
  by (rule unsigned_less)

lemma unat_u32_lt: "unat (w :: u32) < 4294967296"
  using unat_lt [of w] by simp

lemma unat_u64_lt: "unat (w :: u64) < 18446744073709551616"
  using unat_lt [of w] by simp

lemma unat_ucast_u32_u64 [simp]: "unat (ucast (d :: u32) :: u64) = unat d"
  using unat_u32_lt [of d] by (simp add: unsigned_ucast_eq take_bit_nat_eq_self)

lemma unat_2_power: "n < LENGTH('a) \<Longrightarrow> unat (2 ^ n :: 'a::len word) = 2 ^ n"
proof -
  assume n: "n < LENGTH('a)"
  have "(2 ^ n :: 'a word) = push_bit n 1" by simp
  then show ?thesis
    using n by (simp add: unsigned_push_bit_eq take_bit_push_bit del: push_bit_of_1)
qed

lemma word_nonzero_bit: "(w :: 'a::len word) \<noteq> 0 \<Longrightarrow> \<exists>n. bit w n"
proof (rule ccontr)
  assume "w \<noteq> 0" and "\<nexists>n. bit w n"
  then show False using bit_word_eqI [of w 0] by simp
qed

lemma unat_div_mod: "unat (a div b) = unat a div unat b" "unat (a mod b) = unat a mod unat b"
  by (simp_all add: unat_div_distrib unat_mod_distrib)

lemma odd_mult_inj:
  fixes a b c d :: "'a::len word"
  assumes "c * d = 1" and "a * c = b * c"
  shows "a = b"
proof -
  have "a = a * c * d" using assms(1) by (simp add: mult.assoc)
  also have "\<dots> = b * c * d" using assms(2) by simp
  also have "\<dots> = b" using assms(1) by (simp add: mult.assoc)
  finally show ?thesis .
qed

text \<open>The xor-shift \<open>x ^= x >> s\<close> loses nothing.\<close>

lemma xor_drop_bit_inj:
  fixes a b :: "'a::len word"
  assumes "0 < s" and "a XOR drop_bit s a = b XOR drop_bit s b"
  shows "a = b"
proof -
  define z where "z = a XOR b"
  have step: "z = drop_bit s z"
  proof -
    have "(a XOR b) XOR (drop_bit s a XOR drop_bit s b)
            = (a XOR drop_bit s a) XOR (b XOR drop_bit s b)"
      by (simp add: xor.assoc xor.left_commute)
    also have "\<dots> = 0" using assms(2) by simp
    finally have "z XOR drop_bit s z = 0"
      by (simp add: z_def drop_bit_xor)
    then show ?thesis
      by (metis xor.right_neutral xor.assoc xor_self_eq)
  qed
  have "z = drop_bit (n * s) z" for n
  proof (induction n)
    case (Suc n)
    have "drop_bit (Suc n * s) z = drop_bit s (drop_bit (n * s) z)" by simp
    then show ?case using Suc step by simp
  qed simp
  then have "z = drop_bit (LENGTH('a) * s) z" .
  also have "\<dots> = 0"
    using assms(1) by (intro bit_word_eqI) (auto simp: bit_simps dest: bit_imp_le_length)
  finally have "a XOR b = 0" by (simp add: z_def)
  then show ?thesis
    by (metis xor.right_neutral xor.assoc xor_self_eq xor.left_neutral)
qed

end
