(* ===== verification/Detail.thy ===== *)
theory Detail
  imports Prelude
begin

section \<open>Bit utilities of the sketches (\<open>benchmark/structures/detail.hpp\<close>)\<close>

text \<open>
  The namespace \<open>sketchdetail\<close>: Bob Jenkins' one-at-a-time hash over the bytes of two values,
  the population count, the rounding to a power of two, and the two dyadic helpers \<open>lowbit\<close> and
  \<open>next_range\<close>. The byte view of a value is little-endian and \<open>char\<close> is signed, as on the x86-64
  machines the project targets.
\<close>

subsection \<open>Definitions\<close>

text \<open>The object representation of a value, read through \<open>const char*\<close>.\<close>

definition le_bytes :: "nat \<Rightarrow> 'a::len word \<Rightarrow> u8 list" where
  "le_bytes n w = map (\<lambda>i. ucast (drop_bit (8 * i) w)) [0..<n]"

text \<open>The body of both loops of \<open>hash\<close>; adding a \<open>char\<close> sign-extends it.\<close>

definition oaat_byte :: "u32 \<Rightarrow> u8 \<Rightarrow> u32" where
  "oaat_byte hash c =
     (let hash = hash + scast c;
          hash = hash + push_bit 10 hash
      in hash XOR drop_bit 6 hash)"

definition oaat_final :: "u32 \<Rightarrow> u32" where
  "oaat_final hash =
     (let hash = hash + push_bit 3 hash;
          hash = hash XOR drop_bit 11 hash
      in hash + push_bit 15 hash)"

text \<open>\<open>hash(t, flow_id)\<close>: the bytes of \<open>flow_id\<close> first, then those of \<open>t\<close>.\<close>

definition sketch_hash :: "u8 list \<Rightarrow> u64 \<Rightarrow> u32" where
  "sketch_hash t flow_id =
     oaat_final (foldl oaat_byte (foldl oaat_byte 0 (le_bytes 8 flow_id)) t)"

definition popcount :: "'a::len word \<Rightarrow> nat" where
  "popcount x = length (filter (bit x) [0..<LENGTH('a)])"

definition nearest_power_of_two :: "u32 \<Rightarrow> u32" where
  "nearest_power_of_two x =
     (let x = x - 1;
          x = x OR drop_bit 1 x;
          x = x OR drop_bit 2 x;
          x = x OR drop_bit 4 x;
          x = x OR drop_bit 8 x;
          x = x OR drop_bit 16 x
      in x + 1)"

definition lowbit :: "'a::len word \<Rightarrow> 'a word" where
  "lowbit num = num AND - num"

text \<open>The instance \<open>T = uint64_t\<close>: \<open>diff\<close> is narrowed to the \<open>uint32_t\<close> parameter.\<close>

definition next_range :: "u64 \<Rightarrow> u64 \<Rightarrow> u64" where
  "next_range left right =
     (let diff = right - left;
          lb = lowbit left
      in if lb \<le> diff then left + lb
         else left + ucast (nearest_power_of_two (ucast diff) div 2))"

subsection \<open>The hash mixes injectively\<close>

lemma oaat_byte_inj_hash: "oaat_byte h c = oaat_byte h' c \<Longrightarrow> h = h'"
proof -
  have mul: "x + push_bit 10 x = x * 1025" for x :: u32
    by (simp add: push_bit_eq_mult)
  assume "oaat_byte h c = oaat_byte h' c"
  then have "(h + scast c) * 1025 XOR drop_bit 6 ((h + scast c) * 1025)
               = (h' + scast c) * 1025 XOR drop_bit 6 ((h' + scast c) * 1025)"
    by (simp only: oaat_byte_def Let_def mul)
  then have "(h + scast c) * 1025 = (h' + scast c) * 1025"
    by (rule xor_drop_bit_inj [rotated]) simp
  then have "h + scast c = h' + scast c"
    by (rule odd_mult_inj [of _ 3222273025, rotated]) simp
  then show "h = h'" by simp
qed

lemma scast_u8_u32_inj: "(scast (c :: u8) :: u32) = scast d \<Longrightarrow> c = d"
proof -
  assume "(scast c :: u32) = scast d"
  then have "ucast (scast c :: u32) = (ucast (scast d :: u32) :: u8)" by simp
  moreover have "ucast (scast x :: u32) = x" for x :: u8
    by (rule bit_word_eqI) (auto simp: bit_simps)
  ultimately show "c = d" by simp
qed

lemma oaat_byte_inj_char: "oaat_byte h c = oaat_byte h d \<Longrightarrow> c = d"
proof -
  have *: "oaat_byte h c = oaat_byte (h + scast c - scast d) d"
    by (simp add: oaat_byte_def)
  assume "oaat_byte h c = oaat_byte h d"
  with * have "h + scast c - scast d = h"
    by (metis oaat_byte_inj_hash)
  then have "(scast c :: u32) = scast d" by (simp add: algebra_simps)
  then show "c = d" by (rule scast_u8_u32_inj)
qed

lemma oaat_final_inj: "oaat_final h = oaat_final h' \<Longrightarrow> h = h'"
proof -
  have mul3: "x + push_bit 3 x = x * 9" and mul15: "x + push_bit 15 x = x * 32769" for x :: u32
    by (simp_all add: push_bit_eq_mult)
  assume "oaat_final h = oaat_final h'"
  then have "(h * 9 XOR drop_bit 11 (h * 9)) * 32769 = (h' * 9 XOR drop_bit 11 (h' * 9)) * 32769"
    by (simp add: oaat_final_def Let_def mul3 mul15)
  then have "h * 9 XOR drop_bit 11 (h * 9) = h' * 9 XOR drop_bit 11 (h' * 9)"
    by (rule odd_mult_inj [of _ 1073709057, rotated]) simp
  then have "h * 9 = h' * 9"
    by (rule xor_drop_bit_inj [rotated]) simp
  then show "h = h'"
    by (rule odd_mult_inj [of _ 954437177, rotated]) simp
qed

lemma oaat_bytes_inj_hash: "foldl oaat_byte h cs = foldl oaat_byte h' cs \<Longrightarrow> h = h'"
  by (induction cs arbitrary: h h') (auto dest: oaat_byte_inj_hash)

lemma oaat_one_byte:
  "foldl oaat_byte h (xs @ c # ys) = foldl oaat_byte h (xs @ d # ys) \<Longrightarrow> c = d"
  by (auto dest!: oaat_bytes_inj_hash oaat_byte_inj_char)

lemma le_bytes_8:
  "le_bytes 8 (w :: u64) = ucast w # map (\<lambda>i. ucast (drop_bit (8 * i) (drop_bit 8 w))) [0..<7]"
proof -
  have "[0..<8] = 0 # map Suc [0..<7]"
    by (simp add: map_Suc_upt upt_rec)
  then show ?thesis
    by (simp add: le_bytes_def o_def ac_simps)
qed

lemma u64_low_byte_eqI:
  fixes f g :: u64
  assumes "drop_bit 8 f = drop_bit 8 g" and "(ucast f :: u8) = ucast g"
  shows "f = g"
proof (rule bit_word_eqI)
  fix n assume "n < LENGTH(64)"
  show "bit f n = bit g n"
  proof (cases "n < 8")
    case True
    have "bit (ucast f :: u8) n = bit (ucast g :: u8) n" using assms(2) by simp
    then show ?thesis using True by (simp add: bit_simps)
  next
    case False
    have "bit (drop_bit 8 f) (n - 8) = bit (drop_bit 8 g) (n - 8)" using assms(1) by simp
    then show ?thesis using False by (simp add: bit_simps)
  qed
qed

lemma sketch_hash_low_byte_inj:
  assumes "drop_bit 8 f = drop_bit 8 g" and "sketch_hash t f = sketch_hash t g"
  shows "f = g"
proof -
  have "foldl oaat_byte 0 (le_bytes 8 f) = foldl oaat_byte 0 (le_bytes 8 g)"
    using assms(2) by (auto simp: sketch_hash_def dest!: oaat_final_inj oaat_bytes_inj_hash)
  then have "(ucast f :: u8) = ucast g"
    unfolding le_bytes_8 assms(1) by (rule oaat_one_byte [of 0 "[]", simplified append_Nil])
  with assms(1) show ?thesis by (rule u64_low_byte_eqI)
qed

subsection \<open>Rounding to a power of two\<close>

text \<open>After the step with shift \<open>s\<close>, bit \<open>n\<close> tells whether one of the \<open>2 * s\<close> bits from \<open>n\<close>
  upwards was set at the start.\<close>

definition smeared :: "nat \<Rightarrow> u32 \<Rightarrow> u32 \<Rightarrow> bool" where
  "smeared s x w \<longleftrightarrow> (\<forall>n. bit w n = (\<exists>m < s. bit x (n + m)))"

lemma smeared_step: "smeared s x w \<Longrightarrow> smeared (2 * s) x (w OR drop_bit s w)"
proof -
  assume a: "smeared s x w"
  have split: "(\<exists>m<2 * s. P m) \<longleftrightarrow> (\<exists>m < s. P m) \<or> (\<exists>m < s. P (s + m))" for P :: "nat \<Rightarrow> bool"
    by (metis (no_types, lifting) add_diff_inverse_nat add_less_cancel_left linorder_not_less
        mult_2 trans_less_add1)
  show ?thesis
    using a unfolding smeared_def split
    by (simp add: bit_simps ac_simps)
qed

lemma smear_all:
  fixes x :: u32
  shows "(let x = x OR drop_bit 1 x; x = x OR drop_bit 2 x; x = x OR drop_bit 4 x;
        x = x OR drop_bit 8 x in x OR drop_bit 16 x)
     = (if x = 0 then 0 else mask (Suc (Max {n. bit x n})))" (is "?w = _")
proof -
  have "smeared 1 x x" by (simp add: smeared_def)
  from smeared_step [OF smeared_step [OF smeared_step [OF smeared_step [OF smeared_step [OF this]]]]]
  have "smeared 32 x ?w" by (simp add: Let_def)
  then have w32: "bit ?w n \<longleftrightarrow> (\<exists>m<32. bit x (n + m))" for n
    by (simp add: smeared_def)
  have w: "bit ?w n \<longleftrightarrow> (\<exists>m\<ge>n. bit x m)" for n
  proof
    assume "\<exists>m\<ge>n. bit x m"
    then obtain m where m: "n \<le> m" "bit x m" by blast
    then have "m < 32" using bit_imp_le_length [of x m] by simp
    with m show "bit ?w n"
      unfolding w32 by (intro exI [of _ "m - n"]) simp
  next
    assume "bit ?w n"
    then show "\<exists>m\<ge>n. bit x m"
      unfolding w32 by (metis le_add1)
  qed
  have fin: "finite {n. bit x n}"
    by (rule finite_subset [of _ "{..<32}"]) (auto dest: bit_imp_le_length)
  show ?thesis
  proof (cases "x = 0")
    case True
    then show ?thesis by (simp add: Let_def)
  next
    case False
    then have ne: "{n. bit x n} \<noteq> {}" by (auto intro: bit_word_eqI)
    have "(\<exists>m\<ge>n. bit x m) \<longleftrightarrow> n < Suc (Max {n. bit x n})" for n
      using Max_in [OF fin ne] Max_ge [OF fin]
      by (auto intro: exI [of _ "Max {n. bit x n}"] simp: less_Suc_eq_le order_trans)
    with False w show ?thesis
      by (intro bit_word_eqI) (simp add: bit_simps)
  qed
qed

lemma ex_pow2_bounds:
  assumes "(w :: u32) \<noteq> 0"
  shows "2 ^ Max {n. bit w n} \<le> unat w \<and> unat w < 2 ^ Suc (Max {n. bit w n})"
proof -
  let ?k = "Max {n. bit w n}"
  have fin: "finite {n. bit w n}"
    by (rule finite_subset [of _ "{..<32}"]) (auto dest: bit_imp_le_length)
  have ne: "{n. bit w n} \<noteq> {}" using assms by (auto intro: bit_word_eqI)
  have top: "bit w ?k" using Max_in [OF fin ne] by simp
  have "take_bit (Suc ?k) w = w"
    using Max_ge [OF fin] by (intro bit_word_eqI) (auto simp: bit_simps less_Suc_eq_le)
  then have "take_bit (Suc ?k) (unat w) = unat w"
    by (metis unsigned_take_bit_eq)
  then have up: "unat w < 2 ^ Suc ?k" by (simp only: take_bit_nat_eq_self_iff)
  have "bit (unat w) ?k" using top by (simp add: bit_unsigned_iff)
  then have "odd (unat w div 2 ^ ?k)" by (simp add: bit_iff_odd)
  then have "unat w div 2 ^ ?k \<noteq> 0" by (intro notI) simp
  then have "2 ^ ?k \<le> unat w" by (meson div_less linorder_not_le)
  with up show ?thesis by simp
qed

lemma nearest_power_of_two_0: "nearest_power_of_two 0 = 0"
  by (simp add: nearest_power_of_two_def)

lemma nearest_power_of_two_mask:
  "nearest_power_of_two x =
     (if x = 1 then 1 else mask (Suc (Max {n. bit (x - 1) n})) + 1)"
  using smear_all [of "x - 1"] by (simp add: nearest_power_of_two_def Let_def)

lemma mask_plus_1_u32: "n \<le> 32 \<Longrightarrow> mask n + 1 = (if n = 32 then 0 else 2 ^ n :: u32)"
  by (auto simp: mask_eq_exp_minus_1)

text \<open>The least power of two that is not below \<open>x\<close>.\<close>

lemma nearest_power_of_two_least:
  assumes "1 \<le> unat x" and "unat x \<le> 2 ^ 31"
  obtains k where "k \<le> 31" and "nearest_power_of_two x = 2 ^ k" and "unat x \<le> 2 ^ k"
    and "\<And>j. unat x \<le> 2 ^ j \<Longrightarrow> k \<le> j"
proof (cases "x = 1")
  case True
  then show ?thesis
    by (intro that [of 0]) (simp_all add: nearest_power_of_two_mask)
next
  case False
  let ?m = "Max {n. bit (x - 1) n}"
  have x: "unat (x - 1) = unat x - 1" using assms(1)
    by (metis One_nat_def unat_1 unat_sub word_le_nat_alt)
  from False have "x - 1 \<noteq> 0" by simp
  from ex_pow2_bounds [OF this] x
  have lo: "2 ^ ?m \<le> unat x - 1" and hi: "unat x - 1 < 2 ^ Suc ?m" by simp_all
  have m: "?m < 31"
  proof (rule ccontr)
    assume "\<not> ?m < 31"
    then have "(2 :: nat) ^ 31 \<le> 2 ^ ?m" by (intro power_increasing) auto
    with lo assms show False by simp
  qed
  show ?thesis
  proof (rule that [of "Suc ?m"])
    show "nearest_power_of_two x = 2 ^ Suc ?m"
      using False m by (simp add: nearest_power_of_two_mask mask_plus_1_u32 del: power_Suc)
    show "unat x \<le> 2 ^ Suc ?m" using hi by simp
    fix j assume "unat x \<le> 2 ^ j"
    with lo assms(1) have "2 ^ ?m < (2 :: nat) ^ j" by linarith
    then show "Suc ?m \<le> j" by (simp add: Suc_leI)
  qed (use m in simp)
qed

text \<open>A capacity, as the sketches' constructors convert it.\<close>

lemma capacity_pow2:
  assumes "0 < n" and "n \<le> INT_MAX"
  obtains k where "k \<le> 31" and "unat (nearest_power_of_two (word_of_int n)) = 2 ^ k"
    and "n \<le> 2 ^ k" and "\<And>j. n \<le> 2 ^ j \<Longrightarrow> k \<le> j"
proof -
  have u: "unat (word_of_int n :: u32) = nat n"
    using assms by (simp add: unsigned_of_int take_bit_int_eq_self)
  have le: "nat n \<le> 2 ^ j \<longleftrightarrow> n \<le> 2 ^ j" for j
    using assms(1) by (simp add: nat_le_iff)
  have "1 \<le> unat (word_of_int n :: u32)" and "unat (word_of_int n :: u32) \<le> 2 ^ 31"
    using assms by (simp_all add: u nat_le_iff Suc_le_eq)
  then obtain k where "k \<le> 31" "nearest_power_of_two (word_of_int n) = 2 ^ k" "nat n \<le> 2 ^ k"
      "\<And>j. nat n \<le> 2 ^ j \<Longrightarrow> k \<le> j"
    using nearest_power_of_two_least u by metis
  then show ?thesis
    using le by (intro that [of k]) (simp_all add: unat_2_power)
qed

lemma nearest_power_of_two_big:
  assumes "2 ^ 31 < unat x"
  shows "nearest_power_of_two x = 0"
proof -
  let ?m = "Max {n. bit (x - 1) n}"
  have x1: "x \<noteq> 1" using assms by auto
  have x: "unat (x - 1) = unat x - 1" using assms
    by (metis One_nat_def unat_1 unat_sub word_le_nat_alt less_imp_le_nat one_le_power
        one_le_numeral order_trans)
  from x1 have ne: "x - 1 \<noteq> 0" by simp
  from ex_pow2_bounds [OF ne] x have hi: "unat x - 1 < 2 ^ Suc ?m" by simp
  have "31 < Suc ?m"
  proof (rule ccontr)
    assume "\<not> 31 < Suc ?m"
    then have "(2 :: nat) ^ Suc ?m \<le> 2 ^ 31" by (intro power_increasing) auto
    with hi assms show False by linarith
  qed
  moreover have "?m < 32"
  proof -
    have "2 ^ ?m \<le> unat (x - 1)" using ex_pow2_bounds [OF ne] by simp
    also have "\<dots> < 4294967296" by (rule unat_u32_lt)
    finally show ?thesis
      by (intro power_less_imp_less_exp [of "2 :: nat" ?m 32]) simp_all
  qed
  ultimately have "Suc ?m = 32" by simp
  then show ?thesis
    using x1 by (simp only: nearest_power_of_two_mask if_False mask_plus_1_u32) simp
qed

lemma nearest_power_of_two_bounds:
  assumes "1 \<le> unat x" and "unat x \<le> 2 ^ 31"
  shows "unat x \<le> unat (nearest_power_of_two x) \<and> unat (nearest_power_of_two x) < 2 * unat x"
proof -
  obtain k where k: "k \<le> 31" "nearest_power_of_two x = 2 ^ k" "unat x \<le> 2 ^ k"
      and least: "\<And>j. unat x \<le> 2 ^ j \<Longrightarrow> k \<le> j"
    using nearest_power_of_two_least [OF assms] by blast
  have u: "unat (2 ^ k :: u32) = 2 ^ k" using k(1) by (simp add: unat_2_power)
  have "(2 :: nat) ^ k < 2 * unat x"
  proof (cases k)
    case 0
    then show ?thesis using assms(1) by simp
  next
    case (Suc j)
    then have "\<not> unat x \<le> 2 ^ j" using least [of j] by auto
    then show ?thesis using Suc by simp
  qed
  then show ?thesis using k u by simp
qed

subsection \<open>Lowest set bit and dyadic ranges\<close>

lemma odd_and_neg: "odd (y :: 'a::len word) \<Longrightarrow> y AND - y = 1"
proof (rule bit_word_eqI)
  fix n assume o: "odd y" and n: "n < LENGTH('a)"
  have "(y AND NOT 1) + 1 = (y AND NOT 1) OR 1"
    by (rule disjunctive_add) (auto simp: bit_simps)
  also have "\<dots> = y"
  proof (rule bit_word_eqI)
    fix m assume "m < LENGTH('a)"
    then show "bit ((y AND NOT 1) OR 1) m = bit y m"
      using o by (cases m) (auto simp: bit_simps bit_0 even_or_iff)
  qed
  finally have pred: "y - 1 = y AND NOT 1" by (simp add: algebra_simps)
  show "bit (y AND - y) n = bit 1 n"
    using o n by (auto simp: bit_simps pred bit_minus_iff bit_0)
qed

lemma lowbit_push: "k < LENGTH('a) \<Longrightarrow> odd y \<Longrightarrow> lowbit (push_bit k (y :: 'a::len word)) = 2 ^ k"
proof -
  assume "odd y"
  have "push_bit k y AND - push_bit k y = push_bit k (y AND - y)"
    by (simp add: push_bit_minus push_bit_and)
  also have "\<dots> = 2 ^ k" using \<open>odd y\<close> by (simp add: odd_and_neg)
  finally show ?thesis by (simp add: lowbit_def)
qed

lemma lowbit_least_bit:
  assumes "(x :: u64) \<noteq> 0"
  obtains k where "k < 64" and "lowbit x = 2 ^ k" and "bit x k" and "\<And>m. m < k \<Longrightarrow> \<not> bit x m"
proof -
  from assms obtain n where n: "bit x n" using word_nonzero_bit by blast
  define k where "k = (LEAST n. bit x n)"
  have k: "bit x k" unfolding k_def using n by (rule LeastI)
  have low: "\<not> bit x m" if "m < k" for m using that unfolding k_def by (rule not_less_Least)
  have k64: "k < 64" using k bit_imp_le_length [of x k] by simp
  have "k \<le> n" if "bit x n" for n using low that by (meson not_le)
  then have "x = push_bit k (drop_bit k x)"
    by (intro bit_word_eqI) (auto simp: bit_simps)
  moreover have "odd (drop_bit k x)"
    using k by (metis add_0 bit_0 bit_drop_bit_eq comp_apply add.right_neutral)
  ultimately have "lowbit x = 2 ^ k"
    using lowbit_push [of k "drop_bit k x"] k64 by simp
  then show ?thesis using that [of k] k low k64 by simp
qed

lemma lowbit_le: "(x :: u64) \<noteq> 0 \<Longrightarrow> lowbit x \<noteq> 0 \<and> lowbit x \<le> x"
proof -
  assume "x \<noteq> 0"
  then obtain k where k: "k < 64" "lowbit x = 2 ^ k" by (rule lowbit_least_bit)
  have "lowbit x \<le> x" by (simp add: lowbit_def word_and_le2)
  moreover have "(2 ^ k :: u64) \<noteq> 0" using k(1) by simp
  ultimately show ?thesis using k by simp
qed

lemma lowbit_0 [simp]: "lowbit 0 = 0"
  by (simp add: lowbit_def)

lemma lowbit_unat_le: "unat (lowbit (x :: u64)) \<le> unat x"
  using lowbit_le [of x] by (cases "x = 0") (auto simp: word_le_nat_alt)

lemma half_npow2_le: "unat (nearest_power_of_two d div 2) \<le> unat d"
proof (cases "1 \<le> unat d \<and> unat d \<le> 2 ^ 31")
  case True
  then show ?thesis
    using nearest_power_of_two_bounds [of d] by (simp add: unat_div_mod) arith
next
  case False
  then consider "d = 0" | "2 ^ 31 < unat d"
    by (metis not_less not_less_eq_eq One_nat_def le_zero_eq unat_eq_0)
  then show ?thesis
    by cases (simp_all add: nearest_power_of_two_0 nearest_power_of_two_big)
qed

lemma unat_ucast_le: "unat (ucast (d :: u64) :: u32) \<le> unat d"
  by (simp add: unsigned_ucast_eq take_bit_nat_less_eq_self)

text \<open>The step never leaves the range.\<close>

lemma next_range_bounds:
  assumes "left \<le> right"
  shows "left \<le> next_range left right \<and> next_range left right \<le> right"
proof -
  let ?d = "right - left"
  have sum: "left \<le> left + s \<and> left + s \<le> right" if "s \<le> ?d" for s
    using that assms unat_u64_lt [of right]
    by (auto simp: word_le_nat_alt unat_word_ariths(1) unat_sub)
  have half: "ucast (nearest_power_of_two (ucast ?d) div 2) \<le> ?d"
    using order_trans [OF half_npow2_le unat_ucast_le [of ?d]]
    by (simp add: word_le_nat_alt)
  show ?thesis
    using sum [OF half] sum by (auto simp: next_range_def Let_def)
qed

lemma foldl_oaat_last: "foldl oaat_byte h xs = foldl oaat_byte h' xs \<longleftrightarrow> h = h'"
  by (auto dest: oaat_bytes_inj_hash)

lemma list_one_position:
  assumes "length xs = length ys" and "i < length xs" and "\<And>j. j < length xs \<Longrightarrow> j \<noteq> i \<Longrightarrow> xs ! j = ys ! j"
  shows "xs = take i xs @ xs ! i # drop (Suc i) xs \<and> ys = take i xs @ ys ! i # drop (Suc i) xs"
proof
  show "xs = take i xs @ xs ! i # drop (Suc i) xs" using assms(2) by (rule id_take_nth_drop)
  have "take i ys = take i xs" and "drop (Suc i) ys = drop (Suc i) xs"
    using assms by (auto intro!: nth_equalityI)
  then show "ys = take i xs @ ys ! i # drop (Suc i) xs"
    using assms(1,2) id_take_nth_drop [of i ys] by simp
qed

lemma oaat_one_position:
  assumes "foldl oaat_byte h xs = foldl oaat_byte h ys" and "length xs = length ys" and "i < length xs"
    and "\<And>j. j < length xs \<Longrightarrow> j \<noteq> i \<Longrightarrow> xs ! j = ys ! j"
  shows "xs = ys"
proof -
  have x: "xs = take i xs @ xs ! i # drop (Suc i) xs"
    and y: "ys = take i xs @ ys ! i # drop (Suc i) xs"
    using list_one_position [OF assms(2,3,4)] by blast+
  have "foldl oaat_byte h (take i xs @ xs ! i # drop (Suc i) xs)
      = foldl oaat_byte h (take i xs @ ys ! i # drop (Suc i) xs)"
    unfolding x [symmetric] y [symmetric] by (rule assms(1))
  then have "xs ! i = ys ! i" by (rule oaat_one_byte)
  with x y show ?thesis by simp
qed

lemma next_range_stuck_iff:
  "next_range left right = left \<longleftrightarrow>
     lowbit left \<le> right - left \<and> left = 0 \<or>
     right - left < lowbit left \<and> nearest_power_of_two (ucast (right - left)) div 2 = 0"
proof -
  have u: "(ucast (d :: u32) :: u64) = 0 \<longleftrightarrow> d = 0" for d
    by (simp add: unat_eq_0 [symmetric])
  have l: "lowbit left = 0 \<longleftrightarrow> left = 0"
    using lowbit_le [of left] by (cases "left = 0") auto
  show ?thesis
    by (auto simp: next_range_def Let_def u l not_le)
qed

lemma half_word_0_iff: "(w :: u32) div 2 = 0 \<longleftrightarrow> unat w < 2"
  by (simp add: unat_eq_0 [symmetric] unat_div_mod div_eq_0_iff)

lemma half_npow2_0_iff:
  "nearest_power_of_two d div 2 = 0 \<longleftrightarrow> unat d \<le> 1 \<or> 2 ^ 31 < unat d"
proof -
  consider "unat d = 0" | "unat d = 1" | "2 \<le> unat d" "unat d \<le> 2 ^ 31" | "2 ^ 31 < unat d"
    by linarith
  then show ?thesis
  proof cases
    case 1
    then show ?thesis by (simp add: unat_eq_0 nearest_power_of_two_0)
  next
    case 2
    then have "d = 1" by (simp add: word_unat_eq_iff)
    then show ?thesis by (simp add: nearest_power_of_two_mask half_word_0_iff)
  next
    case 3
    then show ?thesis
      using nearest_power_of_two_bounds [of d] by (simp add: half_word_0_iff)
  next
    case 4
    then show ?thesis by (simp add: nearest_power_of_two_big)
  qed
qed

subsection \<open>Properties\<close>

text \<open>\<open>nearest_power_of_two\<close> on the whole 32-bit range: from 1 to \<open>2 ^ 31\<close> the result is a power
  of two (one bit set), not below the argument and below its double; at 0 and above \<open>2 ^ 31\<close>
  the increment wraps and the result is 0.\<close>

theorem nearest_power_of_two_spec:
  "if 1 \<le> unat x \<and> unat x \<le> 2 ^ 31
   then popcount (nearest_power_of_two x) = 1 \<and> unat x \<le> unat (nearest_power_of_two x) \<and>
        unat (nearest_power_of_two x) < 2 * unat x
   else nearest_power_of_two x = 0"
proof (cases "1 \<le> unat x \<and> unat x \<le> 2 ^ 31")
  case True
  then obtain k where k: "k \<le> 31" "nearest_power_of_two x = 2 ^ k"
    using nearest_power_of_two_least by blast
  have "filter (bit (2 ^ k :: u32)) [0..<32] = filter ((=) k) [0..<32]"
    using k(1) by (intro filter_cong) (auto simp: bit_exp_iff)
  moreover have "set (filter ((=) k) [0..<32]) = {k}" using k(1) by auto
  then have "length (filter ((=) k) [0..<32]) = card {k}"
    using distinct_card [of "filter ((=) k) [0..<32]"] by (simp del: set_filter)
  ultimately have "popcount (nearest_power_of_two x) = 1" by (simp add: popcount_def k(2))
  then show ?thesis using True nearest_power_of_two_bounds [of x] by simp
next
  case False
  then consider "x = 0" | "2 ^ 31 < unat x" by (force simp: unat_eq_0 [symmetric])
  then show ?thesis
    using False by cases (simp_all add: nearest_power_of_two_0 nearest_power_of_two_big)
qed

text \<open>The hash separates neighbours: two flow ids (or two 64-bit values hashed with one flow id) whose
  object representations differ in exactly one byte never have the same hash, whatever the other
  argument is.\<close>

theorem sketch_hash_one_byte:
  assumes "i < 8" and "\<And>j. j < 8 \<Longrightarrow> j \<noteq> i \<Longrightarrow> le_bytes 8 f ! j = le_bytes 8 f' ! j"
    and "le_bytes 8 f ! i \<noteq> le_bytes 8 f' ! i"
  shows "sketch_hash t f \<noteq> sketch_hash t f' \<and>
         sketch_hash (le_bytes 8 (f :: u64)) g \<noteq> sketch_hash (le_bytes 8 (f' :: u64)) g"
proof -
  have len: "length (le_bytes 8 f) = 8" "length (le_bytes 8 f') = 8" by (simp_all add: le_bytes_def)
  have ne: "foldl oaat_byte h (le_bytes 8 f) \<noteq> foldl oaat_byte h (le_bytes 8 f')" for h
    using oaat_one_position [of h "le_bytes 8 f" "le_bytes 8 f'" i] assms len by auto
  show ?thesis
    using ne by (auto simp: sketch_hash_def foldl_oaat_last dest!: oaat_final_inj)
qed

theorem sketch_hash_one_byte_witness:
  "sketch_hash [] 7 \<noteq> sketch_hash [] 263 \<and>
   sketch_hash (le_bytes 8 (7 :: u64)) 3 \<noteq> sketch_hash (le_bytes 8 (263 :: u64)) 3"
proof (rule sketch_hash_one_byte [of 1])
  have "\<forall>j\<in>set [0..<8]. j \<noteq> 1 \<longrightarrow> le_bytes 8 (7 :: u64) ! j = le_bytes 8 (263 :: u64) ! j"
    by code_simp
  then show "j < 8 \<Longrightarrow> j \<noteq> 1 \<Longrightarrow> le_bytes 8 (7 :: u64) ! j = le_bytes 8 (263 :: u64) ! j" for j
    by simp
  show "le_bytes 8 (7 :: u64) ! 1 \<noteq> le_bytes 8 (263 :: u64) ! 1" by code_simp
qed simp

text \<open>\<open>next_range\<close> stays inside the range, and it fails to advance exactly when the lower end is
  0 or, the lowest set bit being too large a step, the distance to the upper end, read as a 32-bit
  number, is at most 1 or above \<open>2 ^ 31\<close>: a walk over such a range does not end.\<close>

theorem next_range_progress:
  assumes "left \<le> right"
  shows "left \<le> next_range left right \<and> next_range left right \<le> right \<and>
    (next_range left right = left \<longleftrightarrow>
       left = 0 \<or> right - left < lowbit left \<and>
         (unat (ucast (right - left) :: u32) \<le> 1 \<or> 2 ^ 31 < unat (ucast (right - left) :: u32)))"
  using next_range_bounds [OF assms] next_range_stuck_iff [of left right]
  by (auto simp: half_npow2_0_iff)

theorem next_range_progress_witness:
  "6 \<le> next_range 6 7 \<and> next_range 6 7 \<le> 7 \<and>
    (next_range 6 7 = 6 \<longleftrightarrow>
       (6 :: u64) = 0 \<or> 7 - 6 < lowbit (6 :: u64) \<and>
         (unat (ucast (7 - 6 :: u64) :: u32) \<le> 1 \<or> 2 ^ 31 < unat (ucast (7 - 6 :: u64) :: u32)))"
  by (rule next_range_progress) simp

end
