(* ===== verification/Counter_Block.thy ===== *)
theory Counter_Block
  imports Detail
begin

section \<open>Packed 4-bit counters and the count-min contract\<close>

text \<open>
  Every sketch of \<open>benchmark/structures/\<close> keeps its counters sixteen to a 64-bit block and reads,
  increments and halves them with the same shifts and masks. The first half of this theory is the
  arithmetic of such blocks: \<open>nibble w off\<close> is the counter at bit offset \<open>off\<close>, an increment never
  carries into a neighbour, and the masked shift of \<open>reset\<close> halves all sixteen counters at once.

  The second half is the contract the sketches rely on. The locale \<open>cell_store\<close> names a store of
  saturating cells (\<open>get\<close>, \<open>inc\<close>, \<open>halve\<close>) and the cells an item is hashed to; \<open>count_min\<close> adds
  the laws of hashing. The count-min guarantees (no underestimation, exactness without collisions,
  halving) are proved once, in the locale, and each sketch interprets it on its own definitions.
\<close>

subsection \<open>One counter of a block\<close>

definition nibble :: "u64 \<Rightarrow> nat \<Rightarrow> nat" where
  "nibble w off = unat (drop_bit off w AND 15)"

lemma nibble_nat: "nibble w off = unat w div 2 ^ off mod 16"
proof -
  have "drop_bit off w AND 15 = take_bit 4 (drop_bit off w)"
    by (simp add: take_bit_eq_mask mask_eq_exp_minus_1)
  then have "nibble w off = take_bit 4 (drop_bit off (unat w))"
    by (simp only: nibble_def unsigned_take_bit_eq) (simp only: unat_drop_bit_eq)
  then show ?thesis
    by (simp add: take_bit_eq_mod drop_bit_eq_div)
qed

lemma nibble_le: "nibble w off \<le> 15"
  by (simp add: nibble_nat)

lemma nibble_0 [simp]: "nibble 0 off = 0"
  by (simp add: nibble_def)

lemma int_of_u64_nibble: "int_of_u64 (drop_bit off w AND 15) = int (nibble w off)"
  using nibble_le [of w off] by (simp add: nibble_def int_of_u64_small)

lemma bit_nibble: "bit (nibble w off) n \<longleftrightarrow> n < 4 \<and> bit w (off + n)"
proof -
  have "nibble w off = take_bit 4 (drop_bit off (unat w))"
    by (simp add: nibble_nat take_bit_eq_mod drop_bit_eq_div)
  then show ?thesis by (auto simp: bit_simps dest: bit_imp_le_length)
qed

subsection \<open>Increment without carry\<close>

lemma two_pow_split: "a \<le> b \<Longrightarrow> (2 :: nat) ^ b = 2 ^ a * 2 ^ (b - a)"
  by (simp flip: power_add)

text \<open>The three positions of another counter relative to the incremented one.\<close>

lemma field_add_same: "(W + 2 ^ a) div 2 ^ a mod 16 = (W div 2 ^ a + 1) mod (16 :: nat)"
  using div_plus_div_distrib_dvd_right [of "2 ^ a" "2 ^ a" W] by simp

lemma field_add_low:
  assumes "a + 4 \<le> b"
  shows "(W + 2 ^ b) div 2 ^ a mod 16 = W div 2 ^ a mod (16 :: nat)"
proof -
  have "(2 :: nat) ^ b = 2 ^ (b - a - 4) * 16 * 2 ^ a"
    using assms two_pow_split [of "a + 4" b] by (simp add: power_add ac_simps)
  then have "(W + 2 ^ b) div 2 ^ a = W div 2 ^ a + 2 ^ (b - a - 4) * 16" by simp
  then show ?thesis by simp
qed

lemma field_add_high:
  assumes "b + 4 \<le> a" and "W div 2 ^ b mod 16 < (15 :: nat)"
  shows "(W + 2 ^ b) div 2 ^ a = W div 2 ^ a"
proof -
  have a: "(2 :: nat) ^ a = 2 ^ b * (16 * 2 ^ (a - b - 4))"
    using assms(1) two_pow_split [of "b + 4" a] by (simp add: power_add ac_simps)
  have "(W div 2 ^ b + 1) div 16 = W div 2 ^ b div 16"
    using assms(2) by (simp add: div_Suc mod_Suc)
  then have "(W + 2 ^ b) div 2 ^ b div 16 = W div 2 ^ b div 16"
    using div_plus_div_distrib_dvd_right [of "2 ^ b" "2 ^ b" W] by simp
  then show ?thesis
    unfolding a div_mult2_eq by simp
qed

lemma unat_add_unit:
  assumes "nibble w (4 * j) < 15" and "j < 16"
  shows "unat (w + 2 ^ (4 * j)) = unat w + 2 ^ (4 * j)"
proof -
  have f: "unat w div 2 ^ (4 * j) mod 16 < 15" using assms(1) by (simp add: nibble_nat)
  have "4 * j + 4 \<le> 64" using assms(2) by simp
  from field_add_high [OF this f] have "(unat w + 2 ^ (4 * j)) div 2 ^ 64 = 0"
    using unat_lt [of w] by simp
  then have "unat w + 2 ^ (4 * j) < 2 ^ 64"
    by (simp add: div_eq_0_iff)
  moreover have "unat (2 ^ (4 * j) :: u64) = 2 ^ (4 * j)"
    using assms(2) by (simp add: unat_2_power)
  ultimately show ?thesis
    by (simp add: unat_word_ariths(1))
qed

lemma nibble_add_unit:
  assumes "nibble w (4 * j) < 15" and "j < 16"
  shows "nibble (w + 2 ^ (4 * j)) (4 * i) =
           (if i = j then Suc (nibble w (4 * j)) else nibble w (4 * i))"
proof -
  have f: "unat w div 2 ^ (4 * j) mod 16 < 15" using assms(1) by (simp add: nibble_nat)
  consider "i = j" | "4 * i + 4 \<le> 4 * j" | "4 * j + 4 \<le> 4 * i" by linarith
  then show ?thesis
  proof cases
    case 1
    then show ?thesis
      using f by (simp add: nibble_nat unat_add_unit [OF assms] field_add_same mod_Suc)
  next
    case 2
    then show ?thesis
      using field_add_low [OF 2, of "unat w"] by (auto simp: nibble_nat unat_add_unit [OF assms])
  next
    case 3
    then show ?thesis
      using field_add_high [OF 3 f] by (auto simp: nibble_nat unat_add_unit [OF assms])
  qed
qed

subsection \<open>Saturation, the full test and the halving of a block\<close>

lemma bit_15_int [simp]: "bit (15 :: int) n \<longleftrightarrow> n < 4"
proof -
  have "(15 :: int) = mask 4" by (simp add: mask_eq_exp_minus_1)
  then show ?thesis by (simp only: bit_mask_iff) auto
qed

lemma bit_15_nat [simp]: "bit (15 :: nat) n \<longleftrightarrow> n < 4"
proof -
  have "(15 :: nat) = mask 4" by (simp add: mask_eq_exp_minus_1)
  then show ?thesis by (simp only: bit_mask_iff) auto
qed

lemma nibble_eqI: "(\<And>n. n < 4 \<Longrightarrow> bit v (a + n) = bit w (b + n)) \<Longrightarrow> nibble v a = nibble w b"
  by (rule bit_eqI) (auto simp: bit_nibble)

lemma nibble_saturate:
  assumes "j < 16"
  shows "nibble (w OR push_bit (4 * j) 15) (4 * i) = (if i = j then 15 else nibble w (4 * i))"
proof (cases "i = j")
  case True
  have "nibble (w OR push_bit (4 * j) 15) (4 * j) = nibble 15 0"
    using assms by (intro nibble_eqI) (simp add: bit_simps)
  then show ?thesis using True by (simp add: nibble_nat)
next
  case False
  then show ?thesis
    by simp (intro nibble_eqI, auto simp: bit_simps)
qed

lemma word_nibbles_eqI:
  assumes "\<And>i. i < 16 \<Longrightarrow> nibble v (4 * i) = nibble w (4 * i)"
  shows "v = w"
proof (rule bit_word_eqI)
  fix n assume "n < LENGTH(64)"
  then have "n div 4 < 16" by simp
  then have "bit (nibble v (4 * (n div 4))) (n mod 4) = bit (nibble w (4 * (n div 4))) (n mod 4)"
    using assms by simp
  then show "bit v n = bit w n" by (simp add: bit_nibble)
qed

lemma saturate_eq_add:
  assumes "nibble w (4 * j) = 14" and "j < 16"
  shows "w OR push_bit (4 * j) 15 = w + 2 ^ (4 * j)"
  using nibble_add_unit [of w j] assms by (intro word_nibbles_eqI) (simp add: nibble_saturate)

lemma block_full_iff:
  assumes "j < 16"
  shows "w AND push_bit (4 * j) 15 = push_bit (4 * j) 15 \<longleftrightarrow> nibble w (4 * j) = 15"
proof -
  have "nibble w (4 * j) = 15 \<longleftrightarrow> (\<forall>n<4. bit w (4 * j + n))"
  proof
    assume "nibble w (4 * j) = 15"
    then have "bit (nibble w (4 * j)) n \<longleftrightarrow> n < 4" for n
      by (simp only: bit_15_nat)
    then show "\<forall>n<4. bit w (4 * j + n)" by (simp add: bit_nibble) blast
  next
    assume "\<forall>n<4. bit w (4 * j + n)"
    then have "nibble w (4 * j) = nibble 15 0" by (intro nibble_eqI) simp
    then show "nibble w (4 * j) = 15" by (simp add: nibble_nat)
  qed
  also have "\<dots> \<longleftrightarrow> w AND push_bit (4 * j) 15 = push_bit (4 * j) 15" (is "_ \<longleftrightarrow> w AND ?p = ?p")
  proof
    assume a: "\<forall>n<4. bit w (4 * j + n)"
    show "w AND ?p = ?p"
    proof (rule bit_word_eqI)
      fix n assume "n < LENGTH(64)"
      then show "bit (w AND ?p) n = bit ?p n"
        using a [rule_format, of "n - 4 * j"] by (auto simp: bit_simps)
    qed
  next
    assume a: "w AND ?p = ?p"
    show "\<forall>n<4. bit w (4 * j + n)"
    proof (intro allI impI)
      fix n :: nat assume "n < 4"
      then have "bit ?p (4 * j + n)" using assms by (simp add: bit_simps)
      then have "bit (w AND ?p) (4 * j + n)" using a by simp
      then show "bit w (4 * j + n)" by (simp add: bit_simps)
    qed
  qed
  finally show ?thesis by simp
qed

abbreviation RESET_MASK :: u64 where
  "RESET_MASK \<equiv> 0x7777777777777777"

lemma bit_RESET_MASK: "j < 16 \<Longrightarrow> n < 4 \<Longrightarrow> bit RESET_MASK (4 * j + n) \<longleftrightarrow> n < 3"
proof -
  have "\<forall>j\<in>set [0..<16]. \<forall>n\<in>set [0..<4]. bit RESET_MASK (4 * j + n) \<longleftrightarrow> n < 3"
    by code_simp
  then show "j < 16 \<Longrightarrow> n < 4 \<Longrightarrow> bit RESET_MASK (4 * j + n) \<longleftrightarrow> n < 3" by simp
qed

lemma nibble_halve:
  assumes "j < 16"
  shows "nibble (drop_bit 1 w AND RESET_MASK) (4 * j) = nibble w (4 * j) div 2"
proof (rule bit_eqI)
  fix n
  show "bit (nibble (drop_bit 1 w AND RESET_MASK) (4 * j)) n = bit (nibble w (4 * j) div 2) n"
    using assms bit_RESET_MASK [OF assms, of n]
    by (auto simp: bit_nibble bit_simps simp flip: bit_Suc)
qed

subsection \<open>The contract of a store of saturating cells\<close>

text \<open>
  \<open>get s k\<close> is the value of cell \<open>k\<close>, \<open>inc k s\<close> the store after one increment of it, \<open>halve\<close> the
  aging step, and \<open>cells s x\<close> the cells item \<open>x\<close> is hashed to. An item's estimate is the least of
  its cells and one occurrence increments each of them: \<open>est\<close> and \<open>hit\<close>.
\<close>

locale cell_store =
  fixes get :: "'s \<Rightarrow> 'k \<Rightarrow> nat"
    and inc :: "'k \<Rightarrow> 's \<Rightarrow> 's"
    and invar :: "'s \<Rightarrow> bool"
    and cells :: "'s \<Rightarrow> 'x \<Rightarrow> 'k list"
  assumes get_inc: "invar s \<Longrightarrow> k \<in> set (cells s x) \<Longrightarrow>
      get (inc k s) k' = (if k' = k then min 15 (Suc (get s k)) else get s k')"
    and get_le: "get s k \<le> 15"
    and invar_inc: "invar s \<Longrightarrow> k \<in> set (cells s x) \<Longrightarrow> invar (inc k s)"
    and cells_inc: "cells (inc k s) x = cells s x"
    and distinct_cells: "invar s \<Longrightarrow> distinct (cells s x)"
    and cells_nonempty: "cells s x \<noteq> []"
begin

definition hit :: "'x \<Rightarrow> 's \<Rightarrow> 's" where
  "hit x s = fold inc (cells s x) s"

definition est :: "'s \<Rightarrow> 'x \<Rightarrow> nat" where
  "est s x = Min (get s ` set (cells s x))"

lemma cells_fold_inc: "cells (fold inc ks s) x = cells s x"
  by (induction ks arbitrary: s) (simp_all add: cells_inc)

lemma cells_hit: "cells (hit y s) x = cells s x"
  by (simp add: hit_def cells_fold_inc)

lemma cells_hits: "cells (fold hit ys s) x = cells s x"
  by (induction ys arbitrary: s) (simp_all add: cells_hit)

lemma fold_inc:
  assumes "invar s" and "set ks \<subseteq> set (cells s x)" and "distinct ks"
  shows "invar (fold inc ks s) \<and>
         get (fold inc ks s) k = (if k \<in> set ks then min 15 (Suc (get s k)) else get s k)"
  using assms
proof (induction ks arbitrary: s)
  case (Cons a ks)
  then have a: "a \<in> set (cells s x)" by simp
  then have "invar (inc a s)" and "set ks \<subseteq> set (cells (inc a s) x)"
    using Cons.prems by (auto simp: invar_inc cells_inc)
  with Cons.IH [of "inc a s"] Cons.prems show ?case
    using get_inc [OF Cons.prems(1) a, of k] by auto
qed simp

lemma invar_hit: "invar s \<Longrightarrow> invar (hit x s)"
  using fold_inc [of s "cells s x" x] by (simp add: hit_def distinct_cells)

lemma invar_hits: "invar s \<Longrightarrow> invar (fold hit xs s)"
  by (induction xs arbitrary: s) (simp_all add: invar_hit)

lemma get_hit:
  "invar s \<Longrightarrow>
     get (hit x s) k = (if k \<in> set (cells s x) then min 15 (Suc (get s k)) else get s k)"
  using fold_inc [of s "cells s x" x k] by (simp add: hit_def distinct_cells)

lemma est_le: "est s x \<le> 15"
proof -
  have "est s x \<le> get s (hd (cells s x))"
    unfolding est_def by (rule Min_le) (simp_all add: cells_nonempty)
  then show ?thesis using get_le order_trans by blast
qed

lemma est_ge_iff: "n \<le> est s x \<longleftrightarrow> (\<forall>k\<in>set (cells s x). n \<le> get s k)"
  by (simp add: est_def cells_nonempty)

lemma est_hit_ge: "invar s \<Longrightarrow> est s y \<le> est (hit x s) y"
proof -
  assume "invar s"
  moreover have "\<forall>k\<in>set (cells s y). est s y \<le> get s k"
    using est_ge_iff by blast
  ultimately show ?thesis
    using est_le [of s y] by (auto simp: est_ge_iff cells_hit get_hit intro: le_SucI)
qed

lemma est_hit_same: "invar s \<Longrightarrow> est (hit x s) x = min 15 (Suc (est s x))"
proof -
  assume s: "invar s"
  let ?f = "\<lambda>n. min 15 (Suc n)"
  have "get (hit x s) ` set (cells s x) = ?f ` get s ` set (cells s x)"
    by (auto simp: get_hit [OF s] image_image)
  moreover have "mono ?f" by (rule monoI) auto
  then have "Min (?f ` get s ` set (cells s x)) = ?f (Min (get s ` set (cells s x)))"
    by (rule mono_Min_commute [symmetric]) (simp_all add: cells_nonempty)
  ultimately show ?thesis by (simp add: est_def cells_hit)
qed

text \<open>No underestimation, whatever else is recorded in between.\<close>

lemma est_hits_ge:
  "invar s \<Longrightarrow> min 15 (est s x + count_list xs x) \<le> est (fold hit xs s) x"
proof (induction xs arbitrary: s)
  case Nil
  then show ?case by simp
next
  case (Cons y xs)
  have "est s x + count_list (y # xs) x \<le> est (hit y s) x + count_list xs x
          \<or> 15 \<le> est (hit y s) x"
    using est_hit_ge [OF Cons.prems, of x y] est_hit_same [OF Cons.prems, of x] by auto
  then have "min 15 (est s x + count_list (y # xs) x) \<le> min 15 (est (hit y s) x + count_list xs x)"
    by auto
  also have "\<dots> \<le> est (fold hit xs (hit y s)) x"
    by (rule Cons.IH) (rule invar_hit [OF Cons.prems])
  finally show ?case by simp
qed

text \<open>Exact when no other recorded item shares a cell with \<open>x\<close>.\<close>

lemma est_hit_disjoint:
  "invar s \<Longrightarrow> set (cells s x) \<inter> set (cells s y) = {} \<Longrightarrow> est (hit y s) x = est s x"
proof -
  assume "invar s" and "set (cells s x) \<inter> set (cells s y) = {}"
  then have "get (hit y s) ` set (cells s x) = get s ` set (cells s x)"
    by (intro image_cong) (auto simp: get_hit)
  then show ?thesis by (simp add: est_def cells_hit)
qed

lemma est_hits_exact:
  assumes "invar s" and "\<And>y. y \<in> set xs \<Longrightarrow> y \<noteq> x \<Longrightarrow> set (cells s x) \<inter> set (cells s y) = {}"
  shows "est (fold hit xs s) x = min 15 (est s x + count_list xs x)"
  using assms
proof (induction xs arbitrary: s)
  case Nil
  then show ?case using est_le [of s x] by simp
next
  case (Cons y xs)
  have "est (fold hit xs (hit y s)) x = min 15 (est (hit y s) x + count_list xs x)"
    using Cons.prems by (intro Cons.IH) (auto simp: invar_hit cells_hit)
  then show ?case
    using Cons.prems(1) Cons.prems(2) [of y] est_hit_same [OF Cons.prems(1), of x]
      est_hit_disjoint [OF Cons.prems(1), of x y]
    by (cases "y = x") auto
qed

end

text \<open>Stores that can also age: every cell is halved.\<close>

locale aging_store = cell_store +
  fixes halve :: "'a \<Rightarrow> 'a"
  assumes get_halve: "invar s \<Longrightarrow> k \<in> set (cells s x) \<Longrightarrow> get (halve s) k = get s k div 2"
    and invar_halve: "invar s \<Longrightarrow> invar (halve s)"
    and cells_halve: "cells (halve s) x = cells s x"
begin

lemma est_halve: "invar s \<Longrightarrow> est (halve s) x = est s x div 2"
proof -
  assume s: "invar s"
  have "get (halve s) ` set (cells s x) = (\<lambda>n. n div 2) ` get s ` set (cells s x)"
    by (auto simp: get_halve [OF s] image_image)
  moreover have "mono (\<lambda>n::nat. n div 2)" by (rule monoI) (rule div_le_mono)
  then have "Min ((\<lambda>n. n div 2) ` get s ` set (cells s x)) = Min (get s ` set (cells s x)) div 2"
    by (rule mono_Min_commute [symmetric]) (simp_all add: cells_nonempty)
  ultimately show ?thesis by (simp add: est_def cells_halve)
qed

end

end
