(* ===== verification/Block_Table.thy ===== *)
theory Block_Table
  imports Counter_Block
begin

section \<open>Hashed tables of counter blocks\<close>

text \<open>
  The private members that \<open>count_min_sketch\<close>, \<open>hierarchical_frequency_sketch\<close> and
  \<open>range_frequency_sketch\<close> repeat word for word, over the vector \<open>table_\<close> they work on:
  \<open>table_index\<close>, \<open>counter_offset\<close>, \<open>get_count\<close>, \<open>can_increment_counter_at\<close>, the increment and the
  loop of \<open>reset\<close>. The locale \<open>hashed_table\<close> states what a class's addressing has to satisfy and
  is a sublocale of \<open>aging_store\<close>, so that a class gets the count-min laws from its addressing
  alone.
\<close>

subsection \<open>Addressing\<close>

definition seeds :: "u64 list" where
  "seeds = [0xc3a5c85c97cb3127, 0xb492b66fbe98f273, 0x9ae16a3b2f90404f, 0xcbf29ce484222325]"

text \<open>The index is computed in 64 bits and returned as an \<open>int\<close>.\<close>

definition table_index :: "u64 list \<Rightarrow> u32 \<Rightarrow> nat \<Rightarrow> int" where
  "table_index table hash counter_index =
     (let h = seeds ! counter_index * ucast hash;
          h = h + drop_bit 32 h
      in int_of_u64 (h AND (of_nat (length table) - 1)))"

definition offset_multiplier :: "u32 \<Rightarrow> nat" where
  "offset_multiplier hash = unat (push_bit 2 (hash AND 3))"

definition counter_offset :: "u32 \<Rightarrow> nat \<Rightarrow> nat" where
  "counter_offset hash counter_index = push_bit 2 (offset_multiplier hash + counter_index)"

subsection \<open>Reading and writing a counter\<close>

definition get_count :: "u64 list \<Rightarrow> u32 \<Rightarrow> nat \<Rightarrow> int" where
  "get_count table hash counter_index =
     (let index = table_index table hash counter_index;
          offset = counter_offset hash counter_index
      in int_of_u64 (drop_bit offset (table ! nat index) AND 15))"

definition can_increment_counter_at :: "u64 list \<Rightarrow> int \<Rightarrow> nat \<Rightarrow> bool" where
  "can_increment_counter_at table index offset =
     (let mask = push_bit offset 15 in table ! nat index AND mask \<noteq> mask)"

text \<open>The statement \<open>table_[index] += 1L << offset\<close>.\<close>

definition add_unit :: "u64 list \<Rightarrow> int \<Rightarrow> nat \<Rightarrow> u64 list" where
  "add_unit table index offset =
     table[nat index := table ! nat index + push_bit offset 1]"

definition reset_table :: "u64 list \<Rightarrow> u64 list" where
  "reset_table table = map (\<lambda>counters. drop_bit 1 counters AND RESET_MASK) table"

subsection \<open>Tables whose size is a power of two\<close>

definition table_ok :: "u64 list \<Rightarrow> bool" where
  "table_ok table \<longleftrightarrow> (\<exists>k\<le>31. length table = 2 ^ k)"

lemma table_ok_length: "length t = length t' \<Longrightarrow> table_ok t = table_ok t'"
  by (simp add: table_ok_def)

lemma index_mask:
  assumes "k \<le> 31"
  shows "int_of_u64 (h AND (of_nat (2 ^ k) - 1)) = int (unat h mod 2 ^ k)"
proof -
  have m: "of_nat (2 ^ k) - 1 = (mask k :: u64)" by (simp add: mask_eq_exp_minus_1)
  have "unat (take_bit k h) = unat h mod 2 ^ k"
    by (simp add: unsigned_take_bit_eq flip: take_bit_eq_mod)
  moreover have "unat h mod 2 ^ k < 2 ^ 31"
    using assms by (meson le_less_trans less_le_trans mod_less_divisor one_le_numeral
        power_increasing zero_less_numeral zero_less_power)
  ultimately show ?thesis
    unfolding m take_bit_eq_mask [symmetric] by (simp add: int_of_u64_small)
qed

lemma table_index_range:
  assumes "table_ok t"
  shows "0 \<le> table_index t hash i \<and> table_index t hash i < int (length t)"
proof -
  obtain k where k: "k \<le> 31" "length t = 2 ^ k" using assms by (auto simp: table_ok_def)
  show ?thesis
    unfolding table_index_def Let_def k(2) index_mask [OF k(1)] by simp
qed

lemma offset_multiplier_nat: "offset_multiplier hash = 4 * (unat hash mod 4)"
proof -
  have "hash AND 3 = take_bit 2 hash" by (simp add: take_bit_eq_mask mask_eq_exp_minus_1)
  moreover have "unat (take_bit 2 hash) = unat hash mod 4"
    by (simp only: unsigned_take_bit_eq) (simp add: take_bit_eq_mod)
  ultimately have u: "unat (hash AND 3) = unat hash mod 4" by simp
  have "unat (push_bit 2 (hash AND 3)) = take_bit 32 (push_bit 2 (unat hash mod 4))"
    by (simp only: unsigned_push_bit_eq u) simp
  also have "\<dots> = 4 * (unat hash mod 4)"
    by (simp add: take_bit_nat_eq_self push_bit_eq_mult)
  finally show ?thesis by (simp add: offset_multiplier_def)
qed

lemma counter_offset_nat: "counter_offset hash i = 4 * (4 * (unat hash mod 4) + i)"
  by (simp add: counter_offset_def offset_multiplier_nat push_bit_eq_mult)

subsection \<open>Cells of a table\<close>

type_synonym cell_addr = "nat \<times> nat"

definition cell :: "u64 list \<Rightarrow> cell_addr \<Rightarrow> nat" where
  "cell t k = nibble (t ! fst k) (4 * snd k)"

definition bump :: "cell_addr \<Rightarrow> u64 list \<Rightarrow> u64 list" where
  "bump k t = (if cell t k = 15 then t else t[fst k := t ! fst k + 2 ^ (4 * snd k)])"

lemma cell_le: "cell t k \<le> 15"
  by (simp add: cell_def nibble_le)

lemma length_bump [simp]: "length (bump k t) = length t"
  by (simp add: bump_def)

lemma cell_bump:
  assumes "fst k < length t" and "snd k < 16"
  shows "cell (bump k t) k' = (if k' = k then min 15 (Suc (cell t k)) else cell t k')"
proof (cases "cell t k = 15")
  case True
  then show ?thesis by (simp add: bump_def)
next
  case False
  then have lt: "nibble (t ! fst k) (4 * snd k) < 15"
    using cell_le [of t k] by (simp add: cell_def)
  show ?thesis
    using False nibble_add_unit [OF lt assms(2), of "snd k'"] assms(1) lt
    by (cases "fst k' = fst k") (auto simp: bump_def cell_def prod_eq_iff)
qed

lemma length_reset_table [simp]: "length (reset_table t) = length t"
  by (simp add: reset_table_def)

lemma cell_reset_table:
  "fst k < length t \<Longrightarrow> snd k < 16 \<Longrightarrow> cell (reset_table t) k = cell t k div 2"
  using nibble_halve [of "snd k" "t ! fst k"] by (simp add: cell_def reset_table_def)

text \<open>The code's guarded increment is \<^const>\<open>bump\<close>.\<close>

lemma add_unit_bump:
  assumes "j < 16"
  shows "(if can_increment_counter_at t index (4 * j) then add_unit t index (4 * j) else t)
           = bump (nat index, j) t"
  using block_full_iff [OF assms, of "t ! nat index"]
  by (simp add: bump_def can_increment_counter_at_def add_unit_def cell_def Let_def)

subsection \<open>The four cells of a hash value\<close>

definition hash_addr :: "nat \<Rightarrow> u32 \<Rightarrow> cell_addr list" where
  "hash_addr n h =
     map (\<lambda>i. (nat (table_index (replicate n 0) h i), 4 * (unat h mod 4) + i)) [0..<4]"

lemma table_index_length: "length t = n \<Longrightarrow> table_index (replicate n 0) h i = table_index t h i"
  by (simp add: table_index_def)

lemma table_index_bump [simp]: "table_index (bump k t) h i = table_index t h i"
  by (simp add: table_index_def)

lemma hash_addr_table:
  "hash_addr (length t) h = map (\<lambda>i. (nat (table_index t h i), 4 * (unat h mod 4) + i)) [0..<4]"
  by (simp add: hash_addr_def table_index_length)

lemma hash_addr_range:
  assumes "k \<le> 31" and "a \<in> set (hash_addr (2 ^ k) h)"
  shows "fst a < 2 ^ k \<and> snd a < 16"
proof -
  have "table_ok (replicate (2 ^ k) 0)" using assms(1) by (auto simp: table_ok_def)
  from table_index_range [OF this] assms(2) show ?thesis
    by (auto simp: hash_addr_def nat_less_iff)
qed

lemma hash_addr_distinct: "distinct (hash_addr n h)"
  by (auto simp: hash_addr_def distinct_map intro!: inj_onI)

lemma hash_addr_nonempty: "hash_addr n h \<noteq> []"
  by (simp add: hash_addr_def)

lemma get_count_cell:
  "get_count t h i = int (cell t (nat (table_index t h i), 4 * (unat h mod 4) + i))"
  by (simp add: get_count_def Let_def int_of_u64_nibble cell_def counter_offset_nat)

lemma upt_4: "[0..<4] = [0, 1, 2, 3 :: nat]"
  by (simp add: upt_rec)

text \<open>The loop \<open>frequency = std::min(frequency, get_count(hash, i))\<close> from the largest \<open>int\<close>.\<close>

lemma fold_min_cells:
  "fold (\<lambda>i frequency. min frequency (get_count t h i)) [0..<4] INT_MAX
     = int (Min (cell t ` set (hash_addr (length t) h)))"
proof -
  have c: "min INT_MAX (int (cell t k)) = int (cell t k)" for k
    using cell_le [of t k] by simp
  show ?thesis
    unfolding hash_addr_table upt_4
    by (simp add: get_count_cell c of_nat_min min.assoc [symmetric] del: One_nat_def)
qed

text \<open>The loop of four guarded increments.\<close>

definition increment_cells :: "u32 \<Rightarrow> u64 list \<Rightarrow> u64 list" where
  "increment_cells h t = fold bump (hash_addr (length t) h) t"

lemma guarded_increment:
  assumes "i < 4"
  shows "(if can_increment_counter_at t (table_index t h i) (counter_offset h i)
          then add_unit t (table_index t h i) (counter_offset h i) else t)
         = bump (nat (table_index t h i), 4 * (unat h mod 4) + i) t"
  unfolding counter_offset_nat using assms by (intro add_unit_bump) simp

lemma increment_cells_4:
  "increment_cells h t =
     fold (\<lambda>i t. bump (nat (table_index t h i), 4 * (unat h mod 4) + i) t) [0..<4] t"
  by (simp add: increment_cells_def hash_addr_table upt_4)

subsection \<open>The contract of a class's addressing\<close>

locale hashed_table =
  fixes addr :: "nat \<Rightarrow> 'x \<Rightarrow> cell_addr list"
  assumes addr_range: "k \<le> 31 \<Longrightarrow> a \<in> set (addr (2 ^ k) x) \<Longrightarrow> fst a < 2 ^ k \<and> snd a < 16"
    and addr_distinct: "distinct (addr n x)"
    and addr_nonempty: "addr n x \<noteq> []"
begin

lemma addr_in: "table_ok t \<Longrightarrow> a \<in> set (addr (length t) x) \<Longrightarrow> fst a < length t \<and> snd a < 16"
  by (auto simp: table_ok_def dest: addr_range)

end

sublocale hashed_table \<subseteq> aging_store cell bump table_ok "\<lambda>t. addr (length t)" reset_table
proof
  fix t k k' x
  assume t: "table_ok t" and k: "k \<in> set (addr (length t) x)"
  show "cell (bump k t) k' = (if k' = k then min 15 (Suc (cell t k)) else cell t k')"
    using addr_in [OF t k] by (intro cell_bump) simp_all
  show "cell (reset_table t) k = cell t k div 2"
    using addr_in [OF t k] by (intro cell_reset_table) simp_all
  show "table_ok (bump k t)" using t by (simp add: table_ok_def)
qed (auto simp: cell_le addr_distinct addr_nonempty table_ok_def)

end
