(* ===== verification/Access_Range.thy ===== *)
theory Access_Range
  imports Prelude
begin

section \<open>Blocks of a unit touched by an access\<close>

text \<open>
  A volume is divided into units of \<open>unit_size\<close> bytes and a unit into blocks of \<open>granularity\<close>
  bytes. \<open>count_min_sketch\<close>, \<open>exact_count\<close>, \<open>gxj_range_frequency_sketch\<close> and \<open>interval_sketch\<close>
  turn an access of \<open>size\<close> (here \<open>sz\<close>) bytes at offset \<open>t\<close> into the same pair of block numbers inside its unit;
  the last two also number the first block of the unit. All types are the instance
  \<open>T = uint64_t\<close> of the benchmarks.
\<close>

definition block_bounds :: "u64 \<Rightarrow> u64 \<Rightarrow> u64 \<Rightarrow> u64 \<Rightarrow> (int \<times> int) option" where
  "block_bounds granularity unit_size t sz =
     do {
       l \<leftarrow> umod t unit_size;
       l \<leftarrow> udiv l granularity;
       r \<leftarrow> umod (t + sz) unit_size;
       r \<leftarrow> udiv r granularity;
       Some (int_of_u64 l, int_of_u64 r)
     }"

text \<open>The expression \<open>(unit_size + granularity - 1)/granularity\<close>: the blocks of a unit.\<close>

definition unit_blocks :: "u64 \<Rightarrow> u64 \<Rightarrow> u64 option" where
  "unit_blocks granularity unit_size = udiv (unit_size + granularity - 1) granularity"

text \<open>The end of a unit as an \<open>int\<close>.\<close>

definition unit_end :: "u64 \<Rightarrow> u64 \<Rightarrow> int option" where
  "unit_end granularity unit_size = map_option int_of_u64 (unit_blocks granularity unit_size)"

text \<open>The number of the first block of the unit that holds \<open>t\<close>, narrowed to \<open>int\<close>.\<close>

definition unit_base :: "u64 \<Rightarrow> u64 \<Rightarrow> u64 \<Rightarrow> int option" where
  "unit_base granularity unit_size t =
     do {
       u \<leftarrow> udiv t unit_size;
       n \<leftarrow> unit_blocks granularity unit_size;
       Some (int_of_u64 (u * n))
     }"

subsection \<open>The intended configurations\<close>

text \<open>Whole blocks, and fewer than \<open>2 ^ 31\<close> of them in a unit.\<close>

definition unit_ok :: "u64 \<Rightarrow> u64 \<Rightarrow> bool" where
  "unit_ok granularity unit_size \<longleftrightarrow>
     granularity \<noteq> 0 \<and> unit_size \<noteq> 0 \<and> unat granularity dvd unat unit_size \<and>
     unat unit_size div unat granularity < 2147483647 \<and>
     unat unit_size + unat granularity < 2 ^ 64"

lemma block_bounds_None_iff:
  "block_bounds g u t sz = None \<longleftrightarrow> g = 0 \<or> u = 0"
  by (simp add: block_bounds_def udiv_def umod_def split: bind_splits)

lemma block_bounds_Some:
  assumes "g \<noteq> 0" and "u \<noteq> 0" and "unat u div unat g < 2147483648"
  shows "block_bounds g u t sz =
           Some (int (unat t mod unat u div unat g), int (unat (t + sz) mod unat u div unat g))"
proof -
  have "int_of_u64 (x mod u div g) = int (unat x mod unat u div unat g)" for x
  proof -
    have "unat x mod unat u \<le> unat u" using assms(2) by (simp add: unat_gt_0 less_imp_le)
    then have "unat x mod unat u div unat g \<le> unat u div unat g" by (rule div_le_mono)
    then have "unat (x mod u div g) < 2147483648"
      using assms(3) by (simp add: unat_div_mod)
    then show ?thesis by (simp add: int_of_u64_small unat_div_mod)
  qed
  then show ?thesis
    using assms(1,2) by (simp add: block_bounds_def cpp_simps)
qed

lemma unit_blocks_Some:
  assumes "unit_ok g u"
  shows "unit_blocks g u = Some (u div g)"
proof -
  have g: "0 < unat g" using assms by (simp add: unit_ok_def unat_gt_0)
  have ug: "unat (u + g) = unat u + unat g"
    using assms by (simp add: unit_ok_def unat_word_ariths(1))
  have "unat (u + g - 1) = unat (u + g) - 1"
    by (rule unat_minus_one) (use ug g in \<open>auto simp: unat_eq_0 [symmetric]\<close>)
  then have "unat ((u + g - 1) div g) = (unat u + (unat g - 1)) div unat g"
    using ug g by (simp add: unat_div_mod)
  also have "\<dots> = unat u div unat g"
  proof -
    obtain k where k: "unat u = unat g * k" using assms by (auto simp: unit_ok_def elim: dvdE)
    have "(unat g * k + (unat g - 1)) div unat g = k + (unat g - 1) div unat g"
      using g by (intro div_mult_self4) simp
    then show ?thesis unfolding k using g by simp
  qed
  also have "\<dots> = unat (u div g)" by (simp add: unat_div_mod)
  finally have "(u + g - 1) div g = u div g" by (simp add: word_unat_eq_iff)
  then show ?thesis
    using assms by (simp add: unit_blocks_def unit_ok_def cpp_simps)
qed

text \<open>In such a configuration both bounds are block numbers of the unit.\<close>

lemma block_bounds_ok:
  assumes "unit_ok g u"
  obtains l r where "block_bounds g u t sz = Some (l, r)"
    and "0 \<le> l" and "l < int (unat (u div g))" and "0 \<le> r" and "r < int (unat (u div g))"
    and "l = int (unat t mod unat u div unat g)"
    and "r = int (unat (t + sz) mod unat u div unat g)"
proof -
  have g: "0 < unat g" "0 < unat u" and d: "unat g dvd unat u"
    using assms by (auto simp: unit_ok_def unat_gt_0)
  have "x mod unat u div unat g < unat u div unat g" for x :: nat
    using g d by (metis div_less_iff_less_mult dvd_div_mult_self mod_less_divisor)
  then show ?thesis
    using that block_bounds_Some [of g u t sz] assms by (auto simp: unit_ok_def unat_div_mod)
qed

end
