(* ===== verification/Count_Min.thy ===== *)
theory Count_Min
  imports Block_Table Access_Range
begin

section \<open>The count-min sketch (\<open>benchmark/structures/count_min_sketch.hpp\<close>)\<close>

text \<open>
  The class \<open>count_min_sketch<uint64_t>\<close>: its state as the record \<open>cm_sketch\<close>, one definition per
  member function, the invariant \<open>cm_ok\<close> that the constructor establishes and every operation
  keeps, and the interpretation of \<open>hashed_table\<close> on the class's addressing.
\<close>

subsection \<open>State and private members\<close>

record cm_sketch =
  cm_table :: "u64 list"
  cm_size :: int
  cm_granularity :: u64
  cm_unit_size :: u64

text \<open>\<open>sketchdetail::hash(0, t)\<close>: the first argument is an \<open>int\<close>, the second becomes \<open>flow_id\<close>.\<close>

definition cm_hash :: "u64 \<Rightarrow> u32" where
  "cm_hash t = sketch_hash (le_bytes 4 (0 :: u32)) t"

text \<open>Both branches of the code return \<open>true\<close>.\<close>

definition cm_try_increment_counter_at :: "cm_sketch \<Rightarrow> u32 \<Rightarrow> nat \<Rightarrow> cm_sketch \<times> bool" where
  "cm_try_increment_counter_at s hash counter_index =
     (let index = table_index (cm_table s) hash counter_index;
          offset = counter_offset hash counter_index
      in if can_increment_counter_at (cm_table s) index offset
         then (s\<lparr>cm_table := add_unit (cm_table s) index offset\<rparr>, True)
         else (s, True))"

definition cm_reset :: "cm_sketch \<Rightarrow> cm_sketch" where
  "cm_reset s = s\<lparr>cm_table := reset_table (cm_table s), cm_size := cm_size s sdiv 2\<rparr>"

definition cm_sampling_size :: "cm_sketch \<Rightarrow> int" where
  "cm_sampling_size s = int_of_u64 (of_nat (length (cm_table s)) * 10)"

subsection \<open>Public members\<close>

definition cm_change_capacity :: "cm_sketch \<Rightarrow> int \<Rightarrow> cpp_error + cm_sketch" where
  "cm_change_capacity s n =
     (if n \<le> 0 then Inl Invalid_argument
      else Inr (s\<lparr>cm_table := resize (unat (nearest_power_of_two (word_of_int n))) 0 (cm_table s),
                  cm_size := 0\<rparr>))"

definition cm_new :: "int \<Rightarrow> u64 \<Rightarrow> u64 \<Rightarrow> cpp_error + cm_sketch" where
  "cm_new capacity granularity unit_size =
     cm_change_capacity
       \<lparr>cm_table = [], cm_size = 0, cm_granularity = granularity, cm_unit_size = unit_size\<rparr>
       capacity"

definition cm_frequency :: "cm_sketch \<Rightarrow> u64 \<Rightarrow> int" where
  "cm_frequency s t =
     (let hash = cm_hash t
      in fold (\<lambda>i frequency. min frequency (get_count (cm_table s) hash i)) [0..<4] INT_MAX)"

definition cm_contains :: "cm_sketch \<Rightarrow> u64 \<Rightarrow> bool" where
  "cm_contains s t \<longleftrightarrow> cm_frequency s t > 0"

text \<open>\<open>was_added\<close> is collected and, with the sampling commented out, not used.\<close>

definition cm_inner_record_access :: "cm_sketch \<Rightarrow> u64 \<Rightarrow> cm_sketch" where
  "cm_inner_record_access s t =
     (let hash = cm_hash t
      in fst (fold (\<lambda>i (s, was_added).
                      let (s, b) = cm_try_increment_counter_at s hash i in (s, was_added \<or> b))
                   [0..<4] (s, False)))"

definition cm_record_access :: "cm_sketch \<Rightarrow> u64 \<Rightarrow> u64 \<Rightarrow> u64 \<Rightarrow> cm_sketch option" where
  "cm_record_access s uint_id t sz =
     do {
       (left, right) \<leftarrow> block_bounds (cm_granularity s) (cm_unit_size s) t sz;
       offs \<leftarrow> int_range left right;
       Some (fold (\<lambda>off s'. cm_inner_record_access s' (t + word_of_int off * cm_granularity s))
              offs s)
     }"

text \<open>The loop assigns \<open>sum_frequency\<close>, it does not add to it.\<close>

definition cm_avg_frequency :: "cm_sketch \<Rightarrow> u64 \<Rightarrow> u64 \<Rightarrow> u64 \<Rightarrow> int option" where
  "cm_avg_frequency s uint_id t sz =
     do {
       (left, right) \<leftarrow> block_bounds (cm_granularity s) (cm_unit_size s) t sz;
       let cnt = right - left;
       offs \<leftarrow> int_range left right;
       let sum_frequency =
         fold (\<lambda>off sum_frequency. cm_frequency s (t + word_of_int off * cm_granularity s)) offs 0;
       idiv sum_frequency cnt
     }"

subsection \<open>The class's addressing meets the contract\<close>

definition cm_addr :: "nat \<Rightarrow> u64 \<Rightarrow> cell_addr list" where
  "cm_addr n t = hash_addr n (cm_hash t)"

interpretation cm: hashed_table cm_addr
  by unfold_locales
    (simp_all add: cm_addr_def hash_addr_range hash_addr_distinct hash_addr_nonempty)

lemma cm_frequency_est: "cm_frequency s t = int (cm.est (cm_table s) t)"
  by (simp add: cm_frequency_def cm.est_def cm_addr_def fold_min_cells)

lemma cm_try_increment_bump:
  "i < 4 \<Longrightarrow> cm_try_increment_counter_at s h i
     = (s\<lparr>cm_table := bump (nat (table_index (cm_table s) h i), 4 * (unat h mod 4) + i) (cm_table s)\<rparr>,
        True)"
  using guarded_increment [of i "cm_table s" h]
  by (auto simp: cm_try_increment_counter_at_def Let_def split: if_splits)

lemma cm_inner_record_access_hit:
  "cm_inner_record_access s t = s\<lparr>cm_table := cm.hit t (cm_table s)\<rparr>"
proof -
  have "cm.hit t (cm_table s) = increment_cells (cm_hash t) (cm_table s)"
    by (simp add: cm.hit_def cm_addr_def increment_cells_def)
  then show ?thesis
    by (simp add: cm_inner_record_access_def increment_cells_4 upt_4 cm_try_increment_bump Let_def
        del: One_nat_def)
qed

subsection \<open>Invariant\<close>

definition cm_ok :: "cm_sketch \<Rightarrow> bool" where
  "cm_ok s \<longleftrightarrow> table_ok (cm_table s)"

lemma cm_change_capacity_ok:
  "n \<le> INT_MAX \<Longrightarrow> cm_change_capacity s n = Inr s' \<Longrightarrow> cm_ok s'"
  by (auto simp: cm_change_capacity_def cm_ok_def table_ok_def split: if_splits
      elim!: capacity_pow2 [of n, OF _ _, rotated])

lemma cm_new_ok [wf_intros]: "n \<le> INT_MAX \<Longrightarrow> cm_new n g u = Inr s \<Longrightarrow> cm_ok s"
  by (auto simp: cm_new_def intro: cm_change_capacity_ok)

lemma cm_new_zero: "cm_new n g u = Inr s \<Longrightarrow> cm_ok s \<Longrightarrow> cm.est (cm_table s) t = 0"
proof -
  assume n: "cm_new n g u = Inr s" and ok: "cm_ok s"
  from n obtain m where m: "cm_table s = replicate m 0"
    by (auto simp: cm_new_def cm_change_capacity_def split: if_splits)
  have "cell (cm_table s) k = 0" if "k \<in> set (cm_addr (length (cm_table s)) t)" for k
    using cm.addr_in [OF ok [unfolded cm_ok_def] that] by (simp add: cell_def m)
  then have "\<not> 1 \<le> cm.est (cm_table s) t"
    unfolding cm.est_ge_iff using cm.addr_nonempty [of "length (cm_table s)" t]
    by (metis One_nat_def last_in_set not_less_eq_eq zero_le)
  then show ?thesis by simp
qed

lemma cm_inner_ok [wf_intros]: "cm_ok s \<Longrightarrow> cm_ok (cm_inner_record_access s t)"
  by (simp add: cm_ok_def cm_inner_record_access_hit cm.invar_hit)

lemma cm_inner_frame [simp]:
  "cm_granularity (cm_inner_record_access s t) = cm_granularity s"
  "cm_unit_size (cm_inner_record_access s t) = cm_unit_size s"
  "cm_size (cm_inner_record_access s t) = cm_size s"
  by (simp_all add: cm_inner_record_access_hit)

lemma cm_fold_inner:
  "fold (\<lambda>x s. cm_inner_record_access s (f x)) xs s
     = s\<lparr>cm_table := fold cm.hit (map f xs) (cm_table s)\<rparr>"
  by (induction xs arbitrary: s) (simp_all add: cm_inner_record_access_hit)

lemma cm_reset_ok [wf_intros]: "cm_ok s \<Longrightarrow> cm_ok (cm_reset s)"
  by (simp add: cm_ok_def cm_reset_def table_ok_def)

text \<open>What \<open>record_access\<close> does, in one equation.\<close>

lemma cm_record_access_eq:
  assumes "block_bounds (cm_granularity s) (cm_unit_size s) t sz = Some (left, right)"
    and "right < INT_MAX"
  shows "cm_record_access s uid t sz = Some (s\<lparr>cm_table :=
           fold cm.hit (map (\<lambda>off. t + word_of_int off * cm_granularity s) [left..right])
             (cm_table s)\<rparr>)"
  using assms by (simp add: cm_record_access_def cpp_simps cm_fold_inner)

lemma cm_record_access_ok [wf_intros]:
  "cm_ok s \<Longrightarrow> cm_record_access s uid t sz = Some s' \<Longrightarrow> cm_ok s'"
  unfolding cm_record_access_def
  by (auto simp: bind_eq_Some_conv split: prod.splits intro!: fold_invariant [where P = cm_ok] cm_inner_ok)

subsection \<open>Properties\<close>

text \<open>The constructor rejects a capacity that is not positive; otherwise the table has the least
  power of two of blocks that is not below the capacity, all counters are zero and the frequency of
  every item is 0.\<close>

theorem cm_new_spec:
  assumes "n \<le> INT_MAX"
  shows "if n \<le> 0 then cm_new n g u = Inl Invalid_argument
         else \<exists>s k. cm_new n g u = Inr s \<and> cm_ok s \<and> length (cm_table s) = 2 ^ k \<and>
                n \<le> 2 ^ k \<and> (\<forall>j. n \<le> 2 ^ j \<longrightarrow> k \<le> j) \<and> (\<forall>t. cm_frequency s t = 0)"
proof (cases "n \<le> 0")
  case False
  then obtain k where k: "k \<le> 31" "unat (nearest_power_of_two (word_of_int n)) = 2 ^ k"
      "n \<le> 2 ^ k" "\<And>j. n \<le> 2 ^ j \<Longrightarrow> k \<le> j"
    using capacity_pow2 [of n] assms by auto
  define s where "s = \<lparr>cm_table = replicate (2 ^ k) 0, cm_size = 0, cm_granularity = g,
                       cm_unit_size = u\<rparr>"
  have new: "cm_new n g u = Inr s"
    using False k(2) by (simp add: cm_new_def cm_change_capacity_def s_def)
  then have "cm_ok s" by (rule cm_new_ok [OF assms])
  moreover have "length (cm_table s) = 2 ^ k" by (simp add: s_def)
  ultimately show ?thesis
    using False new k(3,4) cm_new_zero [OF new] by (auto simp: cm_frequency_est)
qed (simp add: cm_new_def cm_change_capacity_def)

theorem cm_new_spec_witness:
  "\<exists>s k. cm_new 3 4096 1048576 = Inr s \<and> cm_ok s \<and> length (cm_table s) = 2 ^ k \<and>
     (3 :: int) \<le> 2 ^ k \<and> (\<forall>j. (3 :: int) \<le> 2 ^ j \<longrightarrow> k \<le> j) \<and> (\<forall>t. cm_frequency s t = 0)"
  using cm_new_spec [of 3 4096 1048576] by simp

text \<open>C15. The sketch never underestimates: after any sequence \<open>ts\<close> of recorded items on a new sketch,
  the frequency of an item is at least the number of its occurrences, up to the counter limit 15,
  and never more than 15.\<close>

theorem cm_never_underestimates:
  assumes "n \<le> INT_MAX" and "cm_new n g u = Inr s"
  shows "min 15 (int (count_list ts t)) \<le> cm_frequency (fold (\<lambda>t s. cm_inner_record_access s t) ts s) t
       \<and> cm_frequency (fold (\<lambda>t s. cm_inner_record_access s t) ts s) t \<le> 15"
proof -
  have ok: "cm_ok s" using assms by (rule cm_new_ok)
  have "min 15 (cm.est (cm_table s) t + count_list ts t) \<le> cm.est (fold cm.hit ts (cm_table s)) t"
    using ok by (intro cm.est_hits_ge) (simp add: cm_ok_def)
  then show ?thesis
    using cm.est_le [of "fold cm.hit ts (cm_table s)" t] cm_fold_inner [of "\<lambda>x. x" ts s]
    by (simp add: cm_frequency_est)
qed

theorem cm_never_underestimates_witness:
  "2 \<le> cm_frequency (fold (\<lambda>t s. cm_inner_record_access s t) [5, 7, 5]
     \<lparr>cm_table = [0], cm_size = 0, cm_granularity = 4096, cm_unit_size = 1048576\<rparr>) 5"
proof -
  have "cm_new 1 4096 1048576 = Inr \<lparr>cm_table = [0], cm_size = 0, cm_granularity = 4096,
          cm_unit_size = 1048576\<rparr>"
    by (simp add: cm_new_def cm_change_capacity_def nearest_power_of_two_def)
  from cm_never_underestimates [OF _ this, of "[5, 7, 5]" 5] show ?thesis by simp
qed

text \<open>An access counts every block it visits: with \<open>left\<close> and \<open>right\<close> the block numbers of its
  two ends, the frequency of each item \<open>t + off * granularity\<close> for \<open>left \<le> off \<le> right\<close> goes up by at
  least one (up to 15), and no item's frequency goes down.\<close>

theorem cm_record_access_counts:
  assumes "cm_ok s"
    and "block_bounds (cm_granularity s) (cm_unit_size s) t sz = Some (left, right)"
    and "right < INT_MAX"
  shows "\<exists>s'. cm_record_access s uid t sz = Some s' \<and> cm_ok s' \<and>
          (\<forall>off\<in>{left..right}.
             min 15 (cm_frequency s (t + word_of_int off * cm_granularity s) + 1)
               \<le> cm_frequency s' (t + word_of_int off * cm_granularity s)) \<and>
          (\<forall>y. cm_frequency s y \<le> cm_frequency s' y)"
proof -
  let ?item = "\<lambda>off. t + word_of_int off * cm_granularity s"
  let ?xs = "map ?item [left..right]"
  let ?t = "cm_table s"
  have inv: "table_ok ?t" using assms(1) by (simp add: cm_ok_def)
  have grow: "min 15 (cm.est ?t y + count_list ?xs y) \<le> cm.est (fold cm.hit ?xs ?t) y" for y
    using inv by (rule cm.est_hits_ge)
  have once: "1 \<le> count_list ?xs (?item off)" if "off \<in> {left..right}" for off
    using that count_list_0_iff [of ?xs "?item off"] by (auto simp: Suc_le_eq)
  have "cm.est ?t y \<le> cm.est (fold cm.hit ?xs ?t) y" for y
    using grow [of y] cm.est_le [of ?t y] by simp
  moreover have "min 15 (cm.est ?t (?item off) + 1) \<le> cm.est (fold cm.hit ?xs ?t) (?item off)"
    if "off \<in> {left..right}" for off
    using grow [of "?item off"] once [OF that] by simp
  moreover have "cm_ok (s\<lparr>cm_table := fold cm.hit ?xs ?t\<rparr>)"
    using inv cm.invar_hits by (simp add: cm_ok_def)
  moreover have "min 15 (int a + 1) \<le> int b" if "min 15 (a + 1) \<le> b" for a b
    using that by linarith
  ultimately show ?thesis
    using cm_record_access_eq [OF assms(2,3), of uid] by (auto simp: cm_frequency_est)
qed

abbreviation cm_demo :: cm_sketch where
  "cm_demo \<equiv> \<lparr>cm_table = [0, 0], cm_size = 0, cm_granularity = 4, cm_unit_size = 16\<rparr>"

lemma cm_demo_ok: "cm_ok cm_demo"
  by (auto simp: cm_ok_def table_ok_def intro!: exI [of _ 1])

lemma block_bounds_demo: "block_bounds 4 16 4 8 = Some (1, 3)"
  by (simp add: block_bounds_def cpp_simps int_of_u64_def)

theorem cm_record_access_counts_witness:
  "\<exists>s'. cm_record_access cm_demo 0 4 8 = Some s' \<and> cm_ok s' \<and>
     (\<forall>off\<in>{1..3}. min 15 (cm_frequency cm_demo (4 + word_of_int off * 4) + 1)
        \<le> cm_frequency s' (4 + word_of_int off * 4)) \<and>
     (\<forall>y. cm_frequency cm_demo y \<le> cm_frequency s' y)"
  using cm_record_access_counts [OF cm_demo_ok, of 4 8 1 3 0] block_bounds_demo by simp

text \<open>The average over an access, on every branch: between two different blocks the result is the
  frequency of the last block only, divided by the distance of the ends; inside one block the code
  divides by zero; and when the end falls into an earlier block of the next unit the result is 0.\<close>

theorem cm_avg_frequency_cases:
  assumes "cm_ok s"
    and "block_bounds (cm_granularity s) (cm_unit_size s) t sz = Some (left, right)"
    and "right < INT_MAX"
  shows "cm_avg_frequency s uid t sz =
    (if left = right then None
     else if left < right
     then Some (cm_frequency s (t + word_of_int right * cm_granularity s) div (right - left))
     else Some 0)"
proof -
  have last: "fold (\<lambda>off _. f off) [left..right] z = (if left \<le> right then f right else z)"
    for f :: "int \<Rightarrow> int" and z
  proof (cases "left \<le> right")
    case True
    then have "[left..right] = [left..right - 1] @ [right]" by (rule upto_rec2)
    then show ?thesis using True by simp
  qed simp
  have "0 \<le> cm_frequency s y \<and> cm_frequency s y \<le> INT_MAX" for y
    using cm.est_le [of "cm_table s" y] by (simp add: cm_frequency_est)
  moreover have "idiv 0 (right - left) = Some 0" if "right < left"
    using that by (simp add: idiv_def signed_divide_int_def)
  ultimately show ?thesis
    using assms(2,3) by (auto simp: cm_avg_frequency_def cpp_simps last)
qed

theorem cm_avg_frequency_cases_witness:
  "cm_avg_frequency cm_demo 0 4 8 = Some (cm_frequency cm_demo (4 + word_of_int 3 * 4) div (3 - 1))"
  using cm_avg_frequency_cases [OF cm_demo_ok, of 4 8 1 3 0] block_bounds_demo by simp

text \<open>The aging step halves the frequency of every item and the size.\<close>

theorem cm_reset_halves:
  assumes "cm_ok s" and "0 \<le> cm_size s"
  shows "cm_frequency (cm_reset s) t = cm_frequency s t div 2 \<and>
         cm_size (cm_reset s) = cm_size s div 2 \<and> cm_ok (cm_reset s)"
  using assms cm.est_halve [of "cm_table s" t]
  by (simp add: cm_frequency_est cm_ok_def cm_reset_def table_ok_def zdiv_int
      signed_divide_int_def sgn_if)

theorem cm_reset_halves_witness:
  "cm_frequency (cm_reset cm_demo) 5 = cm_frequency cm_demo 5 div 2 \<and>
     cm_size (cm_reset cm_demo) = cm_size cm_demo div 2 \<and> cm_ok (cm_reset cm_demo)"
  by (rule cm_reset_halves [OF cm_demo_ok]) simp

text \<open>The offset inside the unit is counted twice: an access that starts behind the first block
  of its unit never records the item of its own start.\<close>

theorem cm_record_access_misses_start:
  assumes "unit_ok (cm_granularity s) (cm_unit_size s)"
    and "block_bounds (cm_granularity s) (cm_unit_size s) t sz = Some (left, right)" and "0 < left"
  shows "\<exists>items. cm_record_access s uid t sz = Some (fold (\<lambda>x s. cm_inner_record_access s x) items s)
           \<and> t \<notin> set items"
proof -
  let ?g = "cm_granularity s" and ?u = "cm_unit_size s"
  let ?items = "map (\<lambda>off. t + word_of_int off * ?g) [left..right]"
  obtain l r where b: "block_bounds ?g ?u t sz = Some (l, r)" "r < int (unat (?u div ?g))"
    using block_bounds_ok [OF assms(1)] by metis
  have r: "right < int (unat (?u div ?g))" using b assms(2) by simp
  have n: "unat (?u div ?g) < 2147483647" "unat (?u div ?g) * unat ?g \<le> unat ?u"
    using assms(1) by (simp_all add: unit_ok_def unat_div_mod)
  have "word_of_int off * ?g \<noteq> 0" if off: "left \<le> off" "off \<le> right" for off
  proof -
    define m where "m = nat off"
    have m: "0 < m" "m < unat (?u div ?g)" "off = int m"
      using off assms(3) r by (simp_all add: m_def nat_less_iff)
    have "m * unat ?g \<le> unat (?u div ?g) * unat ?g" using m(2) by (intro mult_right_mono) simp_all
    also have "\<dots> < 2 ^ 64" using n(2) unat_u64_lt [of ?u] by simp
    finally have lt: "m * unat ?g < 2 ^ 64" .
    have "unat (of_nat m :: u64) = m" using m(2) n(1) by (simp add: unsigned_of_nat take_bit_nat_eq_self)
    then have "unat (of_nat m * ?g) = m * unat ?g" using lt by (simp add: unat_word_ariths(2))
    moreover have "0 < m * unat ?g" using m(1) assms(1) by (simp add: unit_ok_def unat_gt_0)
    ultimately show ?thesis by (auto simp: m(3))
  qed
  then have "t \<notin> set ?items" by (auto simp: image_iff)
  moreover have "cm_record_access s uid t sz
      = Some (fold (\<lambda>x s. cm_inner_record_access s x) ?items s)"
  proof -
    have "right < INT_MAX" using r n(1) by linarith
    then show ?thesis using assms(2) by (simp add: cm_record_access_def cpp_simps fold_map o_def)
  qed
  ultimately show ?thesis by blast
qed

theorem cm_record_access_misses_start_witness:
  "\<exists>items. cm_record_access cm_demo 0 4 8
     = Some (fold (\<lambda>x s. cm_inner_record_access s x) items cm_demo) \<and> 4 \<notin> set items"
proof -
  have "unit_ok 4 16" by (simp add: unit_ok_def)
  then show ?thesis
    using cm_record_access_misses_start [of cm_demo 4 8 1 3 0] block_bounds_demo by simp
qed

end
