(* ===== verification/Hierarchical.thy ===== *)
theory Hierarchical
  imports Block_Table
begin

section \<open>The per-flow sketch (\<open>benchmark/structures/hierarchical_frequency_sketch.hpp\<close>)\<close>

text \<open>
  The class \<open>hierarchical_frequency_sketch<uint64_t>\<close>. An item is a block of a flow: the block's
  first byte, rounded down to the granularity, hashed together with the flow id. The sketch has the
  same counter table as \<open>count_min_sketch\<close>, counts its accesses in \<open>size_\<close> and ages when the
  caller asks for it (\<open>do_reset\<close>). \<open>contains\<close> of this class calls \<open>frequency\<close> with one argument
  where it takes three, so it cannot be instantiated and has no definition here.
\<close>

subsection \<open>State and operations\<close>

record hf_sketch =
  hf_table :: "u64 list"
  hf_size :: int
  hf_granularity :: u64

definition hf_change_capacity :: "hf_sketch \<Rightarrow> int \<Rightarrow> cpp_error + hf_sketch" where
  "hf_change_capacity s n =
     (if n \<le> 0 then Inl Invalid_argument
      else Inr (s\<lparr>hf_table := resize (unat (nearest_power_of_two (word_of_int n))) 0 (hf_table s),
                  hf_size := 0\<rparr>))"

definition hf_new :: "int \<Rightarrow> u64 \<Rightarrow> cpp_error + hf_sketch" where
  "hf_new capacity granularity =
     hf_change_capacity \<lparr>hf_table = [], hf_size = 0, hf_granularity = granularity\<rparr> capacity"

definition hf_hash :: "u64 \<Rightarrow> u64 \<Rightarrow> u32" where
  "hf_hash flow_id start_t = sketch_hash (le_bytes 8 flow_id) start_t"

text \<open>The private members are those of \<open>Block_Table\<close>, on this class's table.\<close>

abbreviation hf_table_index :: "hf_sketch \<Rightarrow> u32 \<Rightarrow> nat \<Rightarrow> int" where
  "hf_table_index s \<equiv> table_index (hf_table s)"

abbreviation hf_counter_offset :: "u32 \<Rightarrow> nat \<Rightarrow> nat" where
  "hf_counter_offset \<equiv> counter_offset"

abbreviation hf_offset_multiplier :: "u32 \<Rightarrow> nat" where
  "hf_offset_multiplier \<equiv> offset_multiplier"

abbreviation hf_can_increment_counter_at :: "hf_sketch \<Rightarrow> int \<Rightarrow> nat \<Rightarrow> bool" where
  "hf_can_increment_counter_at s \<equiv> can_increment_counter_at (hf_table s)"

abbreviation hf_get_count :: "hf_sketch \<Rightarrow> u32 \<Rightarrow> nat \<Rightarrow> int" where
  "hf_get_count s \<equiv> get_count (hf_table s)"

definition hf_try_increment_counter_at :: "hf_sketch \<Rightarrow> u32 \<Rightarrow> nat \<Rightarrow> hf_sketch \<times> bool" where
  "hf_try_increment_counter_at s hash counter_index =
     (let index = hf_table_index s hash counter_index;
          offset = hf_counter_offset hash counter_index
      in if hf_can_increment_counter_at s index offset
         then (s\<lparr>hf_table := add_unit (hf_table s) index offset\<rparr>, True)
         else (s, False))"

text \<open>\<open>int cnt = (size + granularity-1)/granularity\<close> and \<open>start_t = (t/granularity) * granularity\<close>.\<close>

definition hf_cnt :: "hf_sketch \<Rightarrow> u64 \<Rightarrow> int option" where
  "hf_cnt s sz = map_option int_of_u64 (udiv (sz + hf_granularity s - 1) (hf_granularity s))"

definition hf_start :: "hf_sketch \<Rightarrow> u64 \<Rightarrow> u64 option" where
  "hf_start s t = map_option (\<lambda>q. q * hf_granularity s) (udiv t (hf_granularity s))"

text \<open>The inner loop: the least of the four counters of a block.\<close>

definition hf_block_frequency :: "hf_sketch \<Rightarrow> u64 \<Rightarrow> u64 \<Rightarrow> int" where
  "hf_block_frequency s flow_id start_t =
     (let hash = hf_hash flow_id start_t
      in fold (\<lambda>j block_frequency. min block_frequency (hf_get_count s hash j))
           [0..<4] INT_MAX)"

definition hf_frequency :: "hf_sketch \<Rightarrow> u64 \<Rightarrow> u64 \<Rightarrow> u64 \<Rightarrow> int option" where
  "hf_frequency s flow_id t sz =
     do {
       cnt \<leftarrow> hf_cnt s sz;
       start_t \<leftarrow> hf_start s t;
       let (start_t, sum_frequency) =
         fold (\<lambda>i (start_t, sum_frequency).
                 (start_t + hf_granularity s,
                  i32 (sum_frequency + hf_block_frequency s flow_id start_t)))
           [0..<nat cnt] (start_t, 0);
       idiv sum_frequency cnt
     }"

definition hf_record_block :: "hf_sketch \<Rightarrow> u64 \<Rightarrow> u64 \<Rightarrow> bool \<Rightarrow> hf_sketch \<times> bool" where
  "hf_record_block s flow_id start_t was_added =
     (let hash = hf_hash flow_id start_t
      in fold (\<lambda>j (s, was_added).
                 let (s, b) = hf_try_increment_counter_at s hash j in (s, was_added \<or> b))
           [0..<4] (s, was_added))"

definition hf_record_access :: "hf_sketch \<Rightarrow> u64 \<Rightarrow> u64 \<Rightarrow> u64 \<Rightarrow> hf_sketch option" where
  "hf_record_access s flow_id t sz =
     do {
       cnt \<leftarrow> hf_cnt s sz;
       start_t \<leftarrow> hf_start s t;
       let (s', was_added, start_t) =
         fold (\<lambda>i (s', was_added, start_t).
                 let (s', was_added) = hf_record_block s' flow_id start_t was_added
                 in (s', was_added, start_t + hf_granularity s))
           [0..<nat cnt] (s, False, start_t);
       Some (s'\<lparr>hf_size := i32 (hf_size s' + cnt)\<rparr>)
     }"

definition hf_reset :: "hf_sketch \<Rightarrow> hf_sketch" where
  "hf_reset s = s\<lparr>hf_table := reset_table (hf_table s), hf_size := hf_size s sdiv 2\<rparr>"

definition hf_sampling_size :: "hf_sketch \<Rightarrow> int" where
  "hf_sampling_size s = int_of_u64 (of_nat (length (hf_table s)) * 20)"

definition hf_do_reset :: "hf_sketch \<Rightarrow> hf_sketch \<times> bool" where
  "hf_do_reset s = (if hf_size s \<ge> hf_sampling_size s then (hf_reset s, True) else (s, False))"

subsection \<open>Addressing and invariant\<close>

definition hf_addr :: "nat \<Rightarrow> u64 \<times> u64 \<Rightarrow> cell_addr list" where
  "hf_addr n x = hash_addr n (hf_hash (fst x) (snd x))"

interpretation hf: hashed_table hf_addr
  by unfold_locales
    (simp_all add: hf_addr_def hash_addr_range hash_addr_distinct hash_addr_nonempty)

definition hf_ok :: "hf_sketch \<Rightarrow> bool" where
  "hf_ok s \<longleftrightarrow> table_ok (hf_table s)"

text \<open>The blocks an access visits.\<close>

definition hf_blocks :: "u64 \<Rightarrow> u64 \<Rightarrow> int \<Rightarrow> u64 list" where
  "hf_blocks granularity start_t cnt = map (\<lambda>i. start_t + of_nat i * granularity) [0..<nat cnt]"

lemma hf_block_frequency_est:
  "hf_block_frequency s flow st = int (hf.est (hf_table s) (flow, st))"
  by (simp add: hf_block_frequency_def hf.est_def hf_addr_def fold_min_cells)

lemma hf_record_block_hit:
  "fst (hf_record_block s flow st w) = s\<lparr>hf_table := hf.hit (flow, st) (hf_table s)\<rparr>"
proof -
  have step: "fst (hf_try_increment_counter_at s h i) = s\<lparr>hf_table :=
      bump (nat (table_index (hf_table s) h i), 4 * (unat h mod 4) + i) (hf_table s)\<rparr>"
    if "i < 4" for s i h
    using guarded_increment [OF that, of "hf_table s" h]
    by (auto simp: hf_try_increment_counter_at_def Let_def split: if_splits)
  have "hf.hit (flow, st) (hf_table s) = increment_cells (hf_hash flow st) (hf_table s)"
    by (simp add: hf.hit_def hf_addr_def increment_cells_def)
  then show ?thesis
    by (simp add: hf_record_block_def increment_cells_4 upt_4 step split_beta Let_def
        del: One_nat_def)
qed

lemma hf_sum_loop:
  "fold (\<lambda>i (st, sum). (st + g, i32 (sum + f st))) [0..<n] (st, z)
     = (st + of_nat n * g, sum_list (map (\<lambda>i. f (st + of_nat i * g)) [0..<n]) + z)"
  if "\<And>x. 0 \<le> f x \<and> f x \<le> 15" and "0 \<le> z" and "z + 15 * int n \<le> INT_MAX"
  for f :: "u64 \<Rightarrow> int"
  using that
proof (induction n)
  case (Suc n)
  define S where "S = sum_list (map (\<lambda>i. f (st + of_nat i * g)) [0..<n])"
  have S: "0 \<le> S" "S \<le> 15 * int n"
    using sum_list_15 [of "[0..<n]" "\<lambda>i. f (st + of_nat i * g)"] that(1) by (simp_all add: S_def)
  have fn: "0 \<le> f (st + of_nat n * g)" "f (st + of_nat n * g) \<le> 15" using that(1) by auto
  have b: "z + 15 * int n + 15 \<le> INT_MAX" using Suc.prems by simp
  have ih: "fold (\<lambda>i (st, sum). (st + g, i32 (sum + f st))) [0..<n] (st, z)
      = (st + of_nat n * g, S + z)"
    unfolding S_def by (rule Suc.IH) (use that(1) Suc.prems in auto)
  have "i32 (S + z + f (st + of_nat n * g)) = S + z + f (st + of_nat n * g)"
    by (rule i32_id) (use S fn b Suc.prems(2) in linarith)+
  then show ?case
    using ih by (simp add: S_def algebra_simps)
qed simp

lemma hf_record_loop:
  "\<exists>w. fold (\<lambda>i (s', was_added, st).
          let (s', was_added) = hf_record_block s' flow st was_added
          in (s', was_added, st + g)) [0..<n] (s, b, st)
     = (s\<lparr>hf_table := fold hf.hit (map (\<lambda>i. (flow, st + of_nat i * g)) [0..<n]) (hf_table s)\<rparr>,
        w, st + of_nat n * g)"
proof (induction n)
  case (Suc n)
  then obtain w where w: "fold (\<lambda>i (s', was_added, st).
          let (s', was_added) = hf_record_block s' flow st was_added
          in (s', was_added, st + g)) [0..<n] (s, b, st)
     = (s\<lparr>hf_table := fold hf.hit (map (\<lambda>i. (flow, st + of_nat i * g)) [0..<n]) (hf_table s)\<rparr>,
        w, st + of_nat n * g)" by blast
  have "[0..<Suc n] = [0..<n] @ [n]" by simp
  then show ?case
    by (simp only: fold_append comp_apply w fold_simps prod.case)
      (simp add: split_beta Let_def hf_record_block_hit algebra_simps)
qed simp

lemma hf_record_access_eq:
  assumes "hf_cnt s sz = Some cnt" and "hf_start s t = Some st"
  shows "hf_record_access s flow t sz = Some (s\<lparr>
     hf_table := fold hf.hit (map (Pair flow) (hf_blocks (hf_granularity s) st cnt)) (hf_table s),
     hf_size := i32 (hf_size s + cnt)\<rparr>)"
  using hf_record_loop [of flow "hf_granularity s" "nat cnt" s False st]
  by (auto simp: hf_record_access_def assms hf_blocks_def o_def)

lemma hf_frequency_eq:
  assumes "hf_cnt s sz = Some cnt" and "hf_start s t = Some st"
    and "0 < cnt" and "15 * cnt \<le> INT_MAX"
  shows "hf_frequency s flow t sz =
     Some (sum_list (map (hf_block_frequency s flow) (hf_blocks (hf_granularity s) st cnt)) div cnt)"
proof -
  let ?f = "hf_block_frequency s flow" and ?bs = "hf_blocks (hf_granularity s) st cnt"
  have f: "0 \<le> ?f x \<and> ?f x \<le> 15" for x
    using hf.est_le [of "hf_table s" "(flow, x)"] by (simp add: hf_block_frequency_est)
  have loop: "fold (\<lambda>i (st, sum). (st + hf_granularity s, i32 (sum + ?f st))) [0..<nat cnt] (st, 0)
      = (st + of_nat (nat cnt) * hf_granularity s, sum_list (map ?f ?bs))"
    using hf_sum_loop [of ?f 0 "nat cnt" "hf_granularity s" st] f assms(3,4)
    by (simp add: hf_blocks_def o_def)
  have "0 \<le> sum_list (map ?f ?bs)" and "sum_list (map ?f ?bs) \<le> INT_MAX"
    using sum_list_15 [of ?bs ?f] f assms(3,4) by (simp_all add: hf_blocks_def)
  then show ?thesis
    by (simp add: hf_frequency_def assms loop idiv_pos)
qed

lemma hf_ok_simps: "hf_ok s \<Longrightarrow> table_ok (hf_table s)"
  by (simp add: hf_ok_def)

subsection \<open>Properties\<close>

text \<open>The access in terms of the code's own count and start.\<close>

lemma hf_record_raises:
  assumes "hf_ok s" and "hf_cnt s sz = Some cnt" and "hf_start s t = Some st"
    and "0 < cnt" and "15 * cnt \<le> INT_MAX"
  shows "\<exists>s' before after.
     hf_record_access s flow t sz = Some s' \<and> hf_ok s' \<and> hf_size s' = i32 (hf_size s + cnt) \<and>
     hf_granularity s' = hf_granularity s \<and>
     hf_frequency s flow t sz = Some before \<and> hf_frequency s' flow t sz = Some after \<and>
     before \<le> after \<and> 1 \<le> after \<and> after \<le> 15 \<and>
     (\<forall>b\<in>set (hf_blocks (hf_granularity s) st cnt).
        min 15 (hf_block_frequency s flow b + 1) \<le> hf_block_frequency s' flow b) \<and>
     (\<forall>f b. hf_block_frequency s f b \<le> hf_block_frequency s' f b)"
proof -
  let ?bs = "hf_blocks (hf_granularity s) st cnt"
  let ?tab = "fold hf.hit (map (Pair flow) ?bs) (hf_table s)"
  let ?s' = "s\<lparr>hf_table := ?tab, hf_size := i32 (hf_size s + cnt)\<rparr>"
  have ok: "table_ok (hf_table s)" using assms(1) by (simp add: hf_ok_def)
  have len: "int (length ?bs) = cnt" using assms(4) by (simp add: hf_blocks_def)
  have grow: "min 15 (hf.est (hf_table s) x + count_list (map (Pair flow) ?bs) x) \<le> hf.est ?tab x" for x
    using ok by (rule hf.est_hits_ge)
  have mono: "hf_block_frequency s f b \<le> hf_block_frequency ?s' f b" for f b
    using grow [of "(f, b)"] hf.est_le [of "hf_table s" "(f, b)"] by (simp add: hf_block_frequency_est)
  have once: "min 15 (hf_block_frequency s flow b + 1) \<le> hf_block_frequency ?s' flow b"
    if "b \<in> set ?bs" for b
  proof -
    have "1 \<le> count_list (map (Pair flow) ?bs) (flow, b)"
      using that count_list_0_iff [of "map (Pair flow) ?bs" "(flow, b)"] by (auto simp: Suc_le_eq)
    then have "min 15 (hf.est (hf_table s) (flow, b) + 1) \<le> hf.est ?tab (flow, b)"
      using grow [of "(flow, b)"] by linarith
    then show ?thesis by (simp add: hf_block_frequency_est)
  qed
  have f15: "0 \<le> hf_block_frequency x flow b \<and> hf_block_frequency x flow b \<le> 15" for x b
    using hf.est_le [of "hf_table x" "(flow, b)"] by (simp add: hf_block_frequency_est)
  let ?S = "sum_list (map (hf_block_frequency s flow) ?bs)"
  let ?S' = "sum_list (map (hf_block_frequency ?s' flow) ?bs)"
  have "?S \<le> ?S'" using mono by (intro sum_list_mono) simp
  moreover have "cnt \<le> ?S'"
  proof -
    have "sum_list (map (\<lambda>_. 1 :: int) ?bs) \<le> ?S'"
    proof (rule sum_list_mono)
      fix b assume "b \<in> set ?bs"
      then show "1 \<le> hf_block_frequency ?s' flow b" using once [of b] f15 [of s b] by linarith
    qed
    then show ?thesis by (simp add: len sum_list_triv)
  qed
  moreover have "?S' \<le> 15 * cnt"
    using sum_list_15 [of ?bs "hf_block_frequency ?s' flow"] f15 len by simp
  ultimately have "?S div cnt \<le> ?S' div cnt" and "1 \<le> ?S' div cnt" and "?S' div cnt \<le> 15"
    using assms(4) zdiv_mono1 [of ?S ?S' cnt] zdiv_mono1 [of cnt ?S' cnt]
      zdiv_mono1 [of ?S' "15 * cnt" cnt] by simp_all
  moreover have "hf_frequency ?s' flow t sz = Some (?S' div cnt)"
    using hf_frequency_eq [of ?s' sz cnt t st flow] assms(2-5) by (simp add: hf_cnt_def hf_start_def)
  moreover have "hf_ok ?s'" using hf.invar_hits [OF ok] by (simp add: hf_ok_def)
  ultimately show ?thesis
    using hf_record_access_eq [OF assms(2,3), of flow] hf_frequency_eq [OF assms(2-5), of flow]
      mono once by (intro exI [of _ ?s']) simp
qed

text \<open>The number of blocks of an access and the first of them, in natural numbers.\<close>

lemma hf_cnt_nat:
  assumes "0 < unat (hf_granularity s)" and "unat sz + unat (hf_granularity s) \<le> 2 ^ 64"
    and "int ((unat sz + unat (hf_granularity s) - 1) div unat (hf_granularity s)) \<le> INT_MAX"
  shows "hf_cnt s sz = Some (int ((unat sz + unat (hf_granularity s) - 1) div unat (hf_granularity s)))"
proof -
  let ?g = "hf_granularity s"
  have un: "n < 2 ^ 64 \<Longrightarrow> unat (of_nat n :: u64) = n" for n
    by (simp add: unsigned_of_nat take_bit_nat_eq_self)
  have n: "sz + ?g - 1 = of_nat (unat sz + unat ?g - 1)" using assms(1) by (simp add: of_nat_diff)
  have "unat (sz + ?g - 1) = unat sz + unat ?g - 1"
    unfolding n using assms(1,2) by (intro un) linarith
  moreover have "?g \<noteq> 0" using assms(1) by auto
  ultimately show ?thesis
    using assms(3) by (simp add: hf_cnt_def udiv_def int_of_u64_small unat_div)
qed

text \<open>The first bytes of the blocks that an access of \<open>sz\<close> bytes from \<open>t\<close> on visits: the multiples of \<open>g\<close> in
  the range of the access when it is moved down to the start of its first block.\<close>

definition hf_visited :: "nat \<Rightarrow> nat \<Rightarrow> nat \<Rightarrow> nat list" where
  "hf_visited g t sz = map (\<lambda>i. g * (t div g + i)) [0..<(sz + g - 1) div g]"

lemma hf_visited_iff:
  assumes "0 < g"
  shows "b \<in> set (hf_visited g t sz) \<longleftrightarrow> g dvd b \<and> t - t mod g \<le> b \<and> b < t - t mod g + sz"
proof -
  have t: "t - t mod g = g * (t div g)" by (simp add: minus_mod_eq_mult_div)
  have i: "i < (sz + g - 1) div g \<longleftrightarrow> g * i < sz" for i
  proof -
    have "i < (sz + g - 1) div g \<longleftrightarrow> Suc i * g \<le> sz + g - 1"
      using less_eq_div_iff_mult_less_eq [OF assms, of "Suc i" "sz + g - 1"] by (simp only: Suc_le_eq)
    also have "\<dots> \<longleftrightarrow> g * i < sz" using assms by (simp add: mult.commute) linarith
    finally show ?thesis .
  qed
  show ?thesis
  proof
    assume "b \<in> set (hf_visited g t sz)"
    then obtain j where "b = g * (t div g + j)" "j < (sz + g - 1) div g"
      unfolding hf_visited_def set_map set_upt by fastforce
    then have "b = g * (t div g) + g * j" "g * j < sz" using i by (simp_all add: distrib_left)
    then show "g dvd b \<and> t - t mod g \<le> b \<and> b < t - t mod g + sz" unfolding t by simp
  next
    assume b: "g dvd b \<and> t - t mod g \<le> b \<and> b < t - t mod g + sz"
    then obtain m where m: "b = g * m" by blast
    then have "t div g \<le> m" using b assms unfolding t by simp
    then obtain j where j: "m = t div g + j" using le_Suc_ex by blast
    then have "g * j < sz" using b unfolding m t by (simp add: distrib_left)
    then show "b \<in> set (hf_visited g t sz)" by (auto simp: hf_visited_def i m j simp del: One_nat_def)
  qed
qed

lemma hf_visited_blocks:
  assumes "0 < unat (hf_granularity s)" and "hf_start s t = Some st"
  shows "hf_blocks (hf_granularity s) st (int ((unat sz + unat (hf_granularity s) - 1) div unat (hf_granularity s)))
     = map of_nat (hf_visited (unat (hf_granularity s)) (unat t) (unat sz))"
proof -
  have "hf_granularity s \<noteq> 0" using assms(1) by auto
  then have "st = t div hf_granularity s * hf_granularity s" using assms(2) by (simp add: hf_start_def udiv_def)
  moreover have "t div hf_granularity s = of_nat (unat t div unat (hf_granularity s))" by (simp add: word_arith_nat_div)
  ultimately show ?thesis by (simp add: hf_blocks_def hf_visited_def algebra_simps)
qed

lemma hf_block_frequency_Min:
  "hf_block_frequency s flow b = Min ((\<lambda>j. hf_get_count s (hf_hash flow b) j) ` {0..<4})"
proof -
  have "{0..<4} = {0, 1, 2, 3 :: nat}" by auto
  moreover have "min INT_MAX (hf_get_count s h j) = hf_get_count s h j" for h j
    using cell_le [of "hf_table s"] by (simp add: get_count_cell order_trans [OF cell_le])
  ultimately show ?thesis
    by (simp add: hf_block_frequency_def Let_def upt_4 min.assoc del: One_nat_def)
qed

text \<open>The truncated mean of the estimates of some blocks.\<close>

definition hf_mean :: "hf_sketch \<Rightarrow> u64 \<Rightarrow> u64 list \<Rightarrow> int" where
  "hf_mean s flow bs = (\<Sum>b\<leftarrow>bs. hf_block_frequency s flow b) div int (length bs)"

text \<open>C24. A query visits the multiples of the granularity in the range of the access moved down to the start
  of its first block (for an access that starts there, its own blocks), takes for each the least of
  its four counters and returns the truncated mean. After the same access is recorded, every visited
  block counts at least one more (up to 15), no block of any flow counts less, so no query result
  falls, and the query over the same bytes gives at least 1.\<close>

theorem hf_record_then_frequency:
  assumes "hf_ok s" and "g = unat (hf_granularity s)" and "0 < g" and "0 < unat sz"
    and "unat sz + g \<le> 2 ^ 64" and "cnt = length (hf_visited g (unat t) (unat sz))" and "15 * int cnt \<le> INT_MAX"
    and "bs = map of_nat (hf_visited g (unat t) (unat sz))"
  shows "\<exists>s'. hf_record_access s flow t sz = Some s' \<and> hf_ok s' \<and> hf_size s' = i32 (hf_size s + int cnt) \<and>
     hf_frequency s flow t sz = Some (hf_mean s flow bs) \<and>
     hf_frequency s' flow t sz = Some (hf_mean s' flow bs) \<and>
     hf_mean s flow bs \<le> hf_mean s' flow bs \<and> 1 \<le> hf_mean s' flow bs \<and> hf_mean s' flow bs \<le> 15 \<and>
     (\<forall>b\<in>set bs. min 15 (hf_block_frequency s flow b + 1) \<le> hf_block_frequency s' flow b) \<and>
     (\<forall>f b. hf_block_frequency s f b \<le> hf_block_frequency s' f b) \<and>
     (\<forall>f b. hf_block_frequency s f b = Min ((\<lambda>j. hf_get_count s (hf_hash f b) j) ` {0..<4})) \<and>
     (\<forall>b. b \<in> set (hf_visited g (unat t) (unat sz)) \<longleftrightarrow>
        g dvd b \<and> unat t - unat t mod g \<le> b \<and> b < unat t - unat t mod g + unat sz)"
proof -
  have len: "cnt = (unat sz + g - 1) div g" by (simp add: assms(6) hf_visited_def)
  have "g \<le> unat sz + g - 1" using assms(4) by simp
  have len2: "int (length bs) = int cnt" by (simp add: assms(6,8))
  have pos: "0 < cnt" using \<open>g \<le> unat sz + g - 1\<close> assms(3) by (simp add: len div_greater_zero_iff)
  have cnt: "hf_cnt s sz = Some (int cnt)"
    using hf_cnt_nat [of s sz] assms(2,3,5,7) len by simp
  obtain st where st: "hf_start s t = Some st" using assms(2,3) by (cases "hf_granularity s = 0") (simp_all add: hf_start_def udiv_def)
  have bs: "hf_blocks (hf_granularity s) st (int cnt) = bs"
    using hf_visited_blocks [OF _ st, of sz] assms(2,3,8) len by simp
  obtain s' before after where *: "hf_record_access s flow t sz = Some s'" "hf_ok s'" "hf_size s' = i32 (hf_size s + int cnt)"
      "hf_frequency s flow t sz = Some before" "hf_frequency s' flow t sz = Some after"
      "before \<le> after" "1 \<le> after" "after \<le> 15"
      "\<forall>b\<in>set bs. min 15 (hf_block_frequency s flow b + 1) \<le> hf_block_frequency s' flow b"
      "\<forall>f b. hf_block_frequency s f b \<le> hf_block_frequency s' f b" "hf_granularity s' = hf_granularity s"
    using hf_record_raises [OF assms(1) cnt st _ assms(7), of flow] pos bs by auto
  have "hf_frequency s flow t sz = Some (hf_mean s flow bs)"
    using hf_frequency_eq [OF cnt st _ assms(7), of flow] pos by (simp add: bs hf_mean_def len2)
  moreover have "hf_frequency s' flow t sz = Some (hf_mean s' flow bs)"
    using hf_frequency_eq [of s' sz "int cnt" t st flow] cnt st pos assms(7) *(11)
    by (simp add: hf_cnt_def hf_start_def bs hf_mean_def len2)
  ultimately show ?thesis
    using * hf_block_frequency_Min hf_visited_iff [OF assms(3)] by (intro exI [of _ s']) simp
qed

abbreviation hf_demo :: hf_sketch where
  "hf_demo \<equiv> \<lparr>hf_table = [0, 0], hf_size = 39, hf_granularity = 4\<rparr>"

lemma hf_demo_ok: "hf_ok hf_demo"
  by (auto simp: hf_ok_def table_ok_def intro!: exI [of _ 1])

lemma hf_demo_args: "hf_cnt hf_demo 8 = Some 2" "hf_start hf_demo 5 = Some 4"
  by (simp_all add: hf_cnt_def hf_start_def cpp_simps int_of_u64_def)

theorem hf_record_then_frequency_witness:
  "\<exists>s'. hf_record_access hf_demo 7 5 8 = Some s' \<and> hf_ok s' \<and>
     hf_frequency s' 7 5 8 = Some (hf_mean s' 7 [4, 8]) \<and> 1 \<le> hf_mean s' 7 [4, 8] \<and> hf_visited 4 5 8 = [4, 8]"
proof -
  have v: "hf_visited 4 5 8 = [4, 8]" by code_simp
  have n: "unat (8 :: u64) = 8" "unat (5 :: u64) = 5" "unat (hf_granularity hf_demo) = 4" by simp_all
  have *: "4 = unat (hf_granularity hf_demo)" "0 < (4 :: nat)" "0 < unat (8 :: u64)" "unat (8 :: u64) + 4 \<le> 2 ^ 64"
    "2 = length (hf_visited 4 (unat (5 :: u64)) (unat (8 :: u64)))" "15 * int 2 \<le> INT_MAX"
    "[4, 8] = map (of_nat :: nat \<Rightarrow> u64) (hf_visited 4 (unat (5 :: u64)) (unat (8 :: u64)))"
    unfolding n v by simp_all
  from hf_record_then_frequency [OF hf_demo_ok *] show ?thesis using v by blast
qed

text \<open>Aging is decided by the caller's \<open>do_reset\<close>: below the sampling size (20 accesses per block of
  the table) nothing happens; from it on every block's frequency and the size are halved.\<close>

theorem hf_do_reset_cases:
  assumes "hf_ok s" and "length (hf_table s) \<le> 2 ^ 26" and "0 \<le> hf_size s"
  shows "if hf_size s < 20 * int (length (hf_table s)) then hf_do_reset s = (s, False)
         else \<exists>s'. hf_do_reset s = (s', True) \<and> hf_ok s' \<and> hf_size s' = hf_size s div 2 \<and>
                (\<forall>f b. hf_block_frequency s' f b = hf_block_frequency s f b div 2)"
proof -
  have "unat (of_nat (length (hf_table s)) * 20 :: u64) = length (hf_table s) * 20"
    using assms(2) by (simp add: unat_word_ariths(2) unsigned_of_nat take_bit_nat_eq_self)
  then have samp: "hf_sampling_size s = 20 * int (length (hf_table s))"
    using assms(2) by (simp add: hf_sampling_size_def int_of_u64_small)
  have "hf_block_frequency (hf_reset s) f b = hf_block_frequency s f b div 2" for f b
    using hf.est_halve [OF assms(1) [unfolded hf_ok_def], of "(f, b)"]
    by (simp add: hf_block_frequency_est hf_reset_def zdiv_int)
  moreover have "hf_ok (hf_reset s)"
    using assms(1) by (simp add: hf_ok_def hf_reset_def table_ok_def)
  moreover have "hf_size (hf_reset s) = hf_size s div 2"
    using assms(3) by (simp add: hf_reset_def signed_divide_int_def sgn_if)
  ultimately show ?thesis by (auto simp: hf_do_reset_def samp)
qed

theorem hf_do_reset_cases_witness:
  "hf_do_reset hf_demo = (hf_demo, False)"
  using hf_do_reset_cases [OF hf_demo_ok] by simp

end
