(* ===== verification/Exact.thy ===== *)
theory Exact
  imports Detail Counter_Block Access_Range
begin

section \<open>The block table (\<open>benchmark/structures/exact.hpp\<close>)\<close>

text \<open>
  The class \<open>exact_count<uint64_t>\<close>. Every block of \<open>granularity\<close> bytes has its own 4-bit field: field
  \<open>b mod 16\<close> of word \<open>b div 16\<close> for block \<open>b\<close>, with no hashing. The class sets the lowest bit of the
  field and never adds, so it is the set of the accessed blocks; the lemmas below say so through
  \<open>ex_marked\<close>. The index is not checked against the table: an item behind the last block is an
  access outside the vector, the value \<^const>\<open>None\<close>.
\<close>

subsection \<open>State and operations\<close>

record ex_count =
  ex_table :: "u64 list"
  ex_size :: int
  ex_granularity :: u64
  ex_unit_size :: u64
  ex_table_size :: u64

definition ex_change_capacity :: "ex_count \<Rightarrow> int \<Rightarrow> cpp_error + ex_count" where
  "ex_change_capacity s n =
     (if n \<le> 0 then Inl Invalid_argument
      else let table_size = ucast (nearest_power_of_two (word_of_int n))
           in Inr (s\<lparr>ex_table_size := table_size,
                     ex_table := resize (unat table_size) 0 (ex_table s), ex_size := 0\<rparr>))"

definition ex_new :: "int \<Rightarrow> u64 \<Rightarrow> u64 \<Rightarrow> cpp_error + ex_count" where
  "ex_new capacity granularity unit_size =
     ex_change_capacity
       \<lparr>ex_table = [], ex_size = 0, ex_granularity = granularity, ex_unit_size = unit_size,
        ex_table_size = 0\<rparr> capacity"

text \<open>The first four lines of \<open>inner_record_access\<close> and of \<open>get_count\<close>: both results are \<open>int\<close>, and
  \<open>offset /= granularity\<close> divides in 64 bits.\<close>

definition ex_slot :: "u64 \<Rightarrow> u64 \<Rightarrow> (int \<times> int) option" where
  "ex_slot granularity t =
     do {
       q \<leftarrow> udiv t (16 * granularity);
       r \<leftarrow> umod t (16 * granularity);
       offset \<leftarrow> udiv (word_of_int (int_of_u64 r)) granularity;
       Some (int_of_u64 q, i32 (int_of_u64 offset * 4))
     }"

text \<open>A shift of a 64-bit value is defined for distances from 0 to 63.\<close>

definition shift_ok :: "int \<Rightarrow> bool" where
  "shift_ok offset \<longleftrightarrow> 0 \<le> offset \<and> offset < 64"

definition ex_inner_record_access :: "ex_count \<Rightarrow> u64 \<Rightarrow> ex_count option" where
  "ex_inner_record_access s t =
     do {
       (table_index, offset) \<leftarrow> ex_slot (ex_granularity s) t;
       w \<leftarrow> vec_at (ex_table s) table_index;
       if shift_ok offset
       then Some (s\<lparr>ex_table := (ex_table s)[nat table_index := w OR push_bit (nat offset) 1]\<rparr>)
       else None
     }"

definition ex_get_count :: "ex_count \<Rightarrow> u64 \<Rightarrow> int \<Rightarrow> int option" where
  "ex_get_count s t counter_index =
     do {
       (table_index, offset) \<leftarrow> ex_slot (ex_granularity s) t;
       w \<leftarrow> vec_at (ex_table s) table_index;
       if shift_ok offset then Some (int_of_u64 (drop_bit (nat offset) w AND 15)) else None
     }"

definition ex_frequency :: "ex_count \<Rightarrow> u64 \<Rightarrow> int option" where
  "ex_frequency s t = ex_get_count s t 0"

definition ex_contains :: "ex_count \<Rightarrow> u64 \<Rightarrow> bool option" where
  "ex_contains s t = map_option (\<lambda>f. f > 0) (ex_frequency s t)"

definition ex_record_access :: "ex_count \<Rightarrow> u64 \<Rightarrow> u64 \<Rightarrow> u64 \<Rightarrow> ex_count option" where
  "ex_record_access s uint_id t sz =
     do {
       (left, right) \<leftarrow> block_bounds (ex_granularity s) (ex_unit_size s) t sz;
       offs \<leftarrow> int_range left right;
       fold_opt (\<lambda>off s'. ex_inner_record_access s' (t + word_of_int off * ex_granularity s)) offs s
     }"

definition ex_avg_frequency :: "ex_count \<Rightarrow> u64 \<Rightarrow> u64 \<Rightarrow> u64 \<Rightarrow> int option" where
  "ex_avg_frequency s uint_id t sz =
     do {
       (left, right) \<leftarrow> block_bounds (ex_granularity s) (ex_unit_size s) t sz;
       let cnt = right - left;
       offs \<leftarrow> int_range left right;
       sum_frequency \<leftarrow>
         fold_opt (\<lambda>off sum_frequency. ex_frequency s (t + word_of_int off * ex_granularity s)) offs 0;
       idiv sum_frequency cnt
     }"

definition ex_reset :: "ex_count \<Rightarrow> ex_count" where
  "ex_reset s = s\<lparr>ex_table := map (\<lambda>counters. drop_bit 1 counters AND RESET_MASK) (ex_table s),
                  ex_size := ex_size s sdiv 2\<rparr>"

definition ex_sampling_size :: "ex_count \<Rightarrow> int" where
  "ex_sampling_size s = int_of_u64 (of_nat (length (ex_table s)) * 10)"

subsection \<open>Blocks and fields\<close>

text \<open>Sizes for which no intermediate \<open>int\<close> of the address computation leaves its range.\<close>

definition ex_ok :: "ex_count \<Rightarrow> bool" where
  "ex_ok s \<longleftrightarrow> 0 < unat (ex_granularity s) \<and> 16 * unat (ex_granularity s) \<le> 2 ^ 31 \<and>
     length (ex_table s) \<le> 2 ^ 31"

definition ex_block :: "ex_count \<Rightarrow> u64 \<Rightarrow> nat" where
  "ex_block s t = unat t div unat (ex_granularity s)"

definition ex_capacity :: "ex_count \<Rightarrow> nat" where
  "ex_capacity s = 16 * length (ex_table s)"

definition ex_marked :: "ex_count \<Rightarrow> nat \<Rightarrow> bool" where
  "ex_marked s b \<longleftrightarrow> bit (ex_table s ! (b div 16)) (4 * (b mod 16))"

text \<open>Only the lowest bit of a field is ever set.\<close>

definition ex_flags :: "ex_count \<Rightarrow> bool" where
  "ex_flags s \<longleftrightarrow> (\<forall>w\<in>set (ex_table s). \<forall>n. bit w n \<longrightarrow> 4 dvd n)"

lemma ex_slot_eq:
  assumes "0 < unat g" and "16 * unat g \<le> 2 ^ 31"
  shows "ex_slot g t = Some (int_of_u64 (t div (16 * g)), 4 * int (unat t div unat g mod 16))"
    and "unat (t div (16 * g)) = unat t div unat g div 16"
proof -
  have w: "unat (16 * g) = 16 * unat g"
    using assms(2) by (simp add: unat_word_ariths(2))
  have nz: "16 * g \<noteq> 0" and g0: "g \<noteq> 0"
    using w assms(1) by (auto simp flip: unat_eq_0)
  have r: "unat (t mod (16 * g)) = unat t mod (16 * unat g)" by (simp add: unat_div_mod w)
  have lt: "unat t mod (16 * unat g) < 16 * unat g" using assms(1) by simp
  then have "int_of_u64 (t mod (16 * g)) = int (unat t mod (16 * unat g))"
    using assms(2) lt by (intro int_of_u64_eq [OF r]) simp
  then have keep: "word_of_int (int_of_u64 (t mod (16 * g))) = t mod (16 * g)"
    by (simp only: r [symmetric]) simp
  have q: "unat t mod (16 * unat g) div unat g = unat t div unat g mod 16"
  proof -
    have "unat t mod (16 * unat g) = unat g * (unat t div unat g mod 16) + unat t mod unat g"
      by (simp only: mult.commute [of 16] mod_mult2_eq)
    then show ?thesis using assms(1) by simp
  qed
  have o: "unat (t mod (16 * g) div g) = unat t div unat g mod 16"
    using q r by (simp add: unat_div_mod(1))
  have "int_of_u64 (t mod (16 * g) div g) = int (unat t div unat g mod 16)"
    by (rule int_of_u64_eq [OF o]) linarith
  then show "ex_slot g t = Some (int_of_u64 (t div (16 * g)), 4 * int (unat t div unat g mod 16))"
    using nz g0 keep by (simp add: ex_slot_def cpp_simps)
  show "unat (t div (16 * g)) = unat t div unat g div 16"
    by (simp only: unat_div_mod w) (simp only: mult.commute [of 16 "unat g"] div_mult2_eq)
qed

lemma ex_slot_ok:
  assumes "ex_ok s"
  shows "ex_slot (ex_granularity s) t
           = Some (int_of_u64 (t div (16 * ex_granularity s)), 4 * int (ex_block s t mod 16))"
  using ex_slot_eq(1) [of "ex_granularity s" t] assms by (simp add: ex_ok_def ex_block_def)

text \<open>The narrowed index lies in the vector exactly when the block does, except that a quotient of
  \<open>2 ^ 31\<close> or more is cut to 32 bits first.\<close>

lemma ex_vec_at:
  assumes "ex_ok s" and "ex_block s t < 16 * 2 ^ 31"
  shows "vec_at (ex_table s) (int_of_u64 (t div (16 * ex_granularity s))) =
     (if ex_block s t < ex_capacity s then Some (ex_table s ! (ex_block s t div 16)) else None)"
proof -
  have u: "unat (t div (16 * ex_granularity s)) = ex_block s t div 16"
    using ex_slot_eq(2) [of "ex_granularity s" t] assms(1) by (simp add: ex_ok_def ex_block_def)
  have "ex_block s t div 16 < 2147483648" using assms(2) by simp
  then have i: "int_of_u64 (t div (16 * ex_granularity s)) = int (ex_block s t div 16)"
    by (rule int_of_u64_eq [OF u])
  have "ex_block s t div 16 < length (ex_table s) \<longleftrightarrow> ex_block s t < ex_capacity s"
    unfolding ex_capacity_def by linarith
  then show ?thesis unfolding i vec_at_def by simp
qed

lemma shift_ok_field: "shift_ok (4 * int (b mod 16))"
proof -
  have "b mod 16 < 16" by simp
  then show ?thesis unfolding shift_ok_def by linarith
qed

lemma nat_field: "nat (4 * int (b mod 16)) = 4 * (b mod 16)"
  by (metis int_ops(3) nat_int of_nat_mult of_nat_numeral)

lemma ex_inner_eq:
  assumes "ex_ok s" and "ex_block s t < 16 * 2 ^ 31"
  shows "ex_inner_record_access s t =
    (if ex_block s t < ex_capacity s
     then Some (s\<lparr>ex_table := (ex_table s)[ex_block s t div 16 :=
            ex_table s ! (ex_block s t div 16) OR push_bit (4 * (ex_block s t mod 16)) 1]\<rparr>)
     else None)"
proof -
  have "nat (int_of_u64 (t div (16 * ex_granularity s))) = ex_block s t div 16"
  proof -
    have u: "unat (t div (16 * ex_granularity s)) = ex_block s t div 16"
      using ex_slot_eq(2) [of "ex_granularity s" t] assms(1) by (simp add: ex_ok_def ex_block_def)
    have "ex_block s t div 16 < 2147483648" using assms(2) by simp
    then show ?thesis by (simp only: int_of_u64_eq [OF u] nat_int)
  qed
  then show ?thesis
    unfolding ex_inner_record_access_def ex_slot_ok [OF assms(1)] Option.bind.bind_lunit prod.case
      ex_vec_at [OF assms]
    by (simp only: shift_ok_field nat_field if_True Option.bind.simps split: if_split) simp
qed

lemma ex_frequency_eq:
  assumes "ex_ok s" and "ex_block s t < 16 * 2 ^ 31"
  shows "ex_frequency s t =
    (if ex_block s t < ex_capacity s
     then Some (int (nibble (ex_table s ! (ex_block s t div 16)) (4 * (ex_block s t mod 16))))
     else None)"
  unfolding ex_frequency_def ex_get_count_def ex_slot_ok [OF assms(1)] Option.bind.bind_lunit prod.case
    ex_vec_at [OF assms]
  by (simp only: shift_ok_field nat_field if_True int_of_u64_nibble Option.bind.simps split: if_split) simp

lemma nibble_flag:
  assumes "\<forall>n. bit w n \<longrightarrow> 4 dvd n"
  shows "nibble w (4 * j) = of_bool (bit w (4 * j))"
proof (rule bit_eqI)
  fix n
  have "bit w (4 * j + n) \<Longrightarrow> n < 4 \<Longrightarrow> n = 0"
  proof -
    assume "bit w (4 * j + n)" and "n < 4"
    moreover from this assms have "4 dvd 4 * j + n" by blast
    then have "4 dvd n" by (simp add: dvd_add_right_iff)
    ultimately show "n = 0" by (auto elim: dvdE)
  qed
  then show "bit (nibble w (4 * j)) n = bit (of_bool (bit w (4 * j)) :: nat) n"
    by (auto simp: bit_nibble bit_of_bool_iff bit_1_iff split: if_splits)
qed

lemma bit_word_1: "bit (1 :: 'a::len word) n \<longleftrightarrow> n = 0"
  by (auto simp: bit_1_iff)

lemma set_update_pred:
  "(\<forall>w\<in>set xs. P w) \<Longrightarrow> (i < length xs \<Longrightarrow> P v) \<Longrightarrow> (\<forall>w\<in>set (xs[i := v]). P w)"
  using set_update_subset_insert [of xs i v]
  by (cases "i < length xs") (blast, simp add: list_update_beyond)

text \<open>Recording is insertion into the set of marked blocks.\<close>

lemma ex_inner_insert:
  assumes "ex_ok s" and "ex_flags s" and "ex_block s t < ex_capacity s"
  shows "\<exists>s'. ex_inner_record_access s t = Some s' \<and> ex_ok s' \<and> ex_flags s' \<and>
     ex_capacity s' = ex_capacity s \<and> ex_granularity s' = ex_granularity s \<and>
     (\<forall>b<ex_capacity s. ex_marked s' b \<longleftrightarrow> b = ex_block s t \<or> ex_marked s b)"
proof -
  let ?b = "ex_block s t" and ?T = "ex_table s"
  let ?w = "?T ! (?b div 16) OR push_bit (4 * (?b mod 16)) 1"
  let ?s' = "s\<lparr>ex_table := ?T[?b div 16 := ?w]\<rparr>"
  have lt: "?b div 16 < length ?T" and small: "?b < 16 * 2 ^ 31"
    using assms(1,3) by (auto simp: ex_capacity_def ex_ok_def)
  have f: "4 dvd n" if "bit (?T ! (?b div 16)) n" for n
    using that assms(2) lt by (auto simp: ex_flags_def)
  have "4 dvd n" if "bit ?w n" for n
  proof -
    have "bit (?T ! (?b div 16)) n \<or> n = 4 * (?b mod 16)"
      using that by (auto simp: bit_simps bit_word_1)
    then show ?thesis using f by auto
  qed
  then have fl: "ex_flags ?s'"
    using assms(2) set_update_pred [of ?T "\<lambda>w. \<forall>n. bit w n \<longrightarrow> 4 dvd n" "?b div 16" ?w]
    by (simp add: ex_flags_def)
  have "ex_marked ?s' b \<longleftrightarrow> b = ?b \<or> ex_marked s b" if b: "b < ex_capacity s" for b
  proof (cases "b div 16 = ?b div 16")
    case True
    have "bit (push_bit (4 * (?b mod 16)) 1 :: u64) (4 * (b mod 16)) \<longleftrightarrow> b mod 16 = ?b mod 16"
    proof -
      have "4 * (b mod 16) < 64" by simp
      then show ?thesis by (auto simp: bit_exp_iff)
    qed
    moreover have "b = ?b \<longleftrightarrow> b mod 16 = ?b mod 16"
      using True by (metis mult_div_mod_eq)
    ultimately show ?thesis
      using True lt by (auto simp: ex_marked_def bit_or_iff)
  qed (auto simp: ex_marked_def)
  moreover have "ex_ok ?s'" using assms(1) by (simp add: ex_ok_def)
  moreover have "ex_capacity ?s' = ex_capacity s" by (simp add: ex_capacity_def)
  ultimately show ?thesis
    using ex_inner_eq [OF assms(1) small] assms(3) fl by (intro exI [of _ ?s']) simp
qed

lemma ex_inserts:
  assumes "ex_ok s" and "ex_flags s" and "\<forall>t\<in>set ts. ex_block s t < ex_capacity s"
  shows "\<exists>s'. fold_opt (\<lambda>t s. ex_inner_record_access s t) ts s = Some s' \<and> ex_ok s' \<and> ex_flags s' \<and>
     ex_capacity s' = ex_capacity s \<and> ex_granularity s' = ex_granularity s \<and>
     (\<forall>b<ex_capacity s. ex_marked s' b \<longleftrightarrow> b \<in> ex_block s ` set ts \<or> ex_marked s b)"
  using assms
proof (induction ts arbitrary: s)
  case (Cons t ts)
  then obtain s1 where s1: "ex_inner_record_access s t = Some s1" "ex_ok s1" "ex_flags s1"
      "ex_capacity s1 = ex_capacity s" "ex_granularity s1 = ex_granularity s"
      "\<forall>b<ex_capacity s. ex_marked s1 b \<longleftrightarrow> b = ex_block s t \<or> ex_marked s b"
    using ex_inner_insert [of s t] by auto
  have blk: "ex_block s1 = ex_block s" using s1(5) by (simp add: ex_block_def fun_eq_iff)
  obtain s' where s': "fold_opt (\<lambda>t s. ex_inner_record_access s t) ts s1 = Some s'" "ex_ok s'"
      "ex_flags s'" "ex_capacity s' = ex_capacity s1" "ex_granularity s' = ex_granularity s1"
      "\<forall>b<ex_capacity s1. ex_marked s' b \<longleftrightarrow> b \<in> ex_block s1 ` set ts \<or> ex_marked s1 b"
    using Cons.IH [OF s1(2,3)] Cons.prems(3) s1(4) by (auto simp: blk)
  then show ?case using s1 by (intro exI [of _ s']) (auto simp: blk)
qed simp

lemma ex_frequency_marked:
  assumes "ex_ok s" and "ex_flags s" and "ex_block s t < 16 * 2 ^ 31"
  shows "ex_frequency s t =
    (if ex_block s t < ex_capacity s then Some (of_bool (ex_marked s (ex_block s t))) else None)"
proof (cases "ex_block s t < ex_capacity s")
  case True
  then have "ex_block s t div 16 < length (ex_table s)" unfolding ex_capacity_def by linarith
  then have "\<forall>n. bit (ex_table s ! (ex_block s t div 16)) n \<longrightarrow> 4 dvd n"
    using assms(2) nth_mem unfolding ex_flags_def by blast
  from nibble_flag [OF this] True show ?thesis
    by (simp add: ex_frequency_eq [OF assms(1,3)] ex_marked_def)
qed (simp add: ex_frequency_eq [OF assms(1,3)])

lemma ex_new_facts:
  assumes "ex_new n g u = Inr s" and "n \<le> INT_MAX" and "0 < unat g" and "16 * unat g \<le> 2 ^ 31"
  shows "ex_ok s \<and> ex_flags s \<and> (\<forall>b<ex_capacity s. \<not> ex_marked s b) \<and> ex_granularity s = g \<and>
         16 * n \<le> int (ex_capacity s)"
proof -
  define m where "m = unat (nearest_power_of_two (word_of_int n))"
  have n: "0 < n" and s: "s = \<lparr>ex_table = replicate m 0, ex_size = 0, ex_granularity = g,
      ex_unit_size = u, ex_table_size = ucast (nearest_power_of_two (word_of_int n))\<rparr>"
    using assms(1) by (auto simp: ex_new_def ex_change_capacity_def m_def Let_def split: if_splits)
  obtain k where k: "k \<le> 31" "m = 2 ^ k" "n \<le> 2 ^ k"
    using capacity_pow2 [OF n assms(2)] unfolding m_def by blast
  have "m \<le> 2 ^ 31" unfolding k(2) using k(1) by (intro power_increasing) simp_all
  moreover have "n \<le> int m" using k(2,3) by simp
  ultimately show ?thesis
    using assms(3,4) by (auto simp: s ex_ok_def ex_flags_def ex_marked_def ex_capacity_def)
qed

subsection \<open>Properties\<close>

text \<open>C25. The object is the set of the accessed blocks: after any sequence \<open>ts\<close> of recorded items
  inside the table of a new object, the frequency of an item inside the table is 1 if some recorded
  item lies in the same block and 0 otherwise, however often the block was recorded.\<close>

theorem ex_is_block_set:
  assumes "ex_new n g u = Inr s" and "n \<le> INT_MAX" and "0 < unat g" and "16 * unat g \<le> 2 ^ 31"
    and "\<And>x. x \<in> set (t # ts) \<Longrightarrow> unat x div unat g < 16 * nat n"
  shows "\<exists>s'. fold_opt (\<lambda>t s. ex_inner_record_access s t) ts s = Some s' \<and>
     ex_frequency s' t
       = Some (if unat t div unat g \<in> (\<lambda>x. unat x div unat g) ` set ts then 1 else 0)"
proof -
  have n: "0 < n" using assms(1) by (simp add: ex_new_def ex_change_capacity_def split: if_splits)
  have s: "ex_ok s" "ex_flags s" "\<forall>b<ex_capacity s. \<not> ex_marked s b" "ex_granularity s = g"
      "16 * n \<le> int (ex_capacity s)"
    using ex_new_facts [OF assms(1-4)] by simp_all
  have blk: "ex_block s x = unat x div unat g" for x by (simp add: ex_block_def s(4))
  have cap: "ex_block s x < ex_capacity s" if "x \<in> set (t # ts)" for x
    using assms(5) [OF that] s(5) n unfolding blk by linarith
  obtain s' where s': "fold_opt (\<lambda>t s. ex_inner_record_access s t) ts s = Some s'" "ex_ok s'"
      "ex_flags s'" "ex_capacity s' = ex_capacity s" "ex_granularity s' = ex_granularity s"
      "\<forall>b<ex_capacity s. ex_marked s' b \<longleftrightarrow> b \<in> ex_block s ` set ts \<or> ex_marked s b"
    using ex_inserts [OF s(1,2), of ts] cap by auto
  have bs: "ex_block s' = ex_block s" using s'(5) by (simp add: ex_block_def fun_eq_iff)
  have t: "ex_block s' t < ex_capacity s'" using cap [of t] s'(4) by (simp add: bs)
  have small: "ex_block s' t < 16 * 2 ^ 31"
    using t s'(2) by (simp add: ex_capacity_def ex_ok_def)
  have "ex_frequency s' t = Some (of_bool (ex_marked s' (ex_block s' t)))"
    using ex_frequency_marked [OF s'(2,3) small] t by simp
  moreover have "ex_marked s' (ex_block s' t) \<longleftrightarrow> ex_block s t \<in> ex_block s ` set ts"
    using s'(6) s(3) cap [of t] by (simp add: bs)
  ultimately show ?thesis
    using s'(1) by (simp add: blk image_def)
qed

theorem ex_is_block_set_witness:
  "\<exists>s'. fold_opt (\<lambda>t s. ex_inner_record_access s t) [9, 9]
       \<lparr>ex_table = [0], ex_size = 0, ex_granularity = 8, ex_unit_size = 64, ex_table_size = 1\<rparr> = Some s' \<and>
     ex_frequency s' 10 = Some 1"
proof -
  have "ex_new 1 8 64 = Inr \<lparr>ex_table = [0], ex_size = 0, ex_granularity = 8, ex_unit_size = 64,
          ex_table_size = 1\<rparr>"
    by (simp add: ex_new_def ex_change_capacity_def nearest_power_of_two_def)
  moreover have "unat x div unat (8 :: u64) < 16 * nat 1" if "x \<in> set [10, 9, 9]" for x :: u64
    using that by auto
  ultimately show ?thesis
    using ex_is_block_set [of 1 8 64 _ 10 "[9, 9]"] by (simp del: fold_opt.simps)
qed

text \<open>The table index is not checked: reading or recording an item succeeds exactly when its block
  lies in the table (for blocks whose word number fits 31 bits); behind the last block both are
  accesses outside the vector.\<close>

theorem ex_bounds:
  assumes "ex_ok s" and "ex_block s t < 16 * 2 ^ 31"
  shows "(ex_inner_record_access s t = None \<longleftrightarrow> ex_capacity s \<le> ex_block s t) \<and>
         (ex_frequency s t = None \<longleftrightarrow> ex_capacity s \<le> ex_block s t)"
  using ex_inner_eq [OF assms] ex_frequency_eq [OF assms] by (simp add: not_less)

abbreviation ex_demo :: ex_count where
  "ex_demo \<equiv> \<lparr>ex_table = [0], ex_size = 0, ex_granularity = 8, ex_unit_size = 64, ex_table_size = 1\<rparr>"

theorem ex_bounds_witness:
  "(ex_inner_record_access ex_demo 128 = None \<longleftrightarrow> ex_capacity ex_demo \<le> ex_block ex_demo 128) \<and>
   (ex_frequency ex_demo 128 = None \<longleftrightarrow> ex_capacity ex_demo \<le> ex_block ex_demo 128)"
  by (rule ex_bounds) (simp_all add: ex_ok_def ex_block_def)

end
