(* ===== verification/Range_Sketch.thy ===== *)
theory Range_Sketch
  imports Detail Access_Range "HOL-Library.AList"
begin

section \<open>The per-unit counters (\<open>benchmark/structures/range_frequency_sketch.hpp\<close>)\<close>

text \<open>
  The class \<open>range_frequency_sketch<uint64_t>\<close>: for every unit that was accessed a vector of 16-bit
  counters, one for each block. The counter table it inherits by copy from the other classes is
  allocated, but only its size is used (\<open>sampling_size\<close>); its private accessors are not called by any
  member and have no definition here. The \<open>unordered_map\<close> is an association list with distinct keys.
\<close>

subsection \<open>State and operations\<close>

record rf_sketch =
  rf_table :: "u64 list"
  rf_unit_acc_freq :: "(u64 \<times> u16 list) list"
  rf_size :: int
  rf_granularity :: u64
  rf_unit_size :: u64

definition rf_change_capacity :: "rf_sketch \<Rightarrow> int \<Rightarrow> cpp_error + rf_sketch" where
  "rf_change_capacity s n =
     (if n \<le> 0 then Inl Invalid_argument
      else Inr (s\<lparr>rf_table := resize (unat (nearest_power_of_two (word_of_int n))) 0 (rf_table s),
                  rf_size := 0\<rparr>))"

definition rf_new :: "int \<Rightarrow> u64 \<Rightarrow> u64 \<Rightarrow> cpp_error + rf_sketch" where
  "rf_new capacity granularity unit_size =
     rf_change_capacity
       \<lparr>rf_table = [], rf_unit_acc_freq = [], rf_size = 0, rf_granularity = granularity,
        rf_unit_size = unit_size\<rparr> capacity"

text \<open>The values of \<open>i\<close> in \<open>for(int i = start_t; i < cnt + start_t; i++)\<close> with an unsigned 64-bit
  bound: the comparison converts \<open>i\<close>. A negative \<open>i\<close> (a start of \<open>2 ^ 31\<close> or more, narrowed) that
  passes the comparison indexes in front of the vector in the body, and a bound of \<open>2 ^ 31\<close> or more
  makes \<open>i++\<close> overflow; both are undefined.\<close>

definition index_range :: "int \<Rightarrow> u64 \<Rightarrow> int list option" where
  "index_range i bound =
     (if (word_of_int i :: u64) < bound
      then if i < 0 \<or> uint bound > INT_MAX then None else Some [i..uint bound - 1]
      else Some [])"

definition rf_cnt :: "rf_sketch \<Rightarrow> u64 \<Rightarrow> int option" where
  "rf_cnt s sz = map_option int_of_u64 (unit_blocks (rf_granularity s) sz)"

definition rf_start :: "rf_sketch \<Rightarrow> u64 \<Rightarrow> u64 option" where
  "rf_start s t =
     do {
       start_t \<leftarrow> umod t (rf_unit_size s);
       udiv start_t (rf_granularity s)
     }"

definition rf_frequency :: "rf_sketch \<Rightarrow> u64 \<Rightarrow> u64 \<Rightarrow> u64 \<Rightarrow> int option" where
  "rf_frequency s unit_id t sz =
     do {
       cnt \<leftarrow> rf_cnt s sz;
       start_t \<leftarrow> rf_start s t;
       case map_of (rf_unit_acc_freq s) unit_id of
         None \<Rightarrow> Some 0
       | Some vector \<Rightarrow>
           do {
             is \<leftarrow> index_range (int_of_u64 start_t) (word_of_int cnt + start_t);
             fold_opt (\<lambda>i sum_frequency.
                 do {
                   it_freq \<leftarrow> vec_at vector i;
                   Some (i32 (sum_frequency + uint it_freq))
                 }) is 0
           }
     }"

definition rf_avg_frequency :: "rf_sketch \<Rightarrow> u64 \<Rightarrow> u64 \<Rightarrow> u64 \<Rightarrow> int option" where
  "rf_avg_frequency s unit_id t sz =
     do {
       cnt \<leftarrow> rf_cnt s sz;
       sum_frequency \<leftarrow> rf_frequency s unit_id t sz;
       idiv sum_frequency cnt
     }"

text \<open>One turn of the loop of \<open>record_access\<close>: \<open>unit_acc_freq[unit_id][i]\<close> is read, increased and
  stored as \<open>uint16_t\<close>.\<close>

definition rf_record_at :: "u64 \<Rightarrow> int \<Rightarrow> rf_sketch \<Rightarrow> rf_sketch option" where
  "rf_record_at unit_id i s =
     do {
       vector \<leftarrow> map_of (rf_unit_acc_freq s) unit_id;
       it_freq \<leftarrow> vec_at vector i;
       Some (s\<lparr>rf_unit_acc_freq :=
                 AList.update unit_id (vector[nat i := it_freq + 1]) (rf_unit_acc_freq s),
               rf_size := i32 (rf_size s + 1)\<rparr>)
     }"

definition rf_emplace :: "rf_sketch \<Rightarrow> u64 \<Rightarrow> rf_sketch option" where
  "rf_emplace s unit_id =
     (if map_of (rf_unit_acc_freq s) unit_id = None
      then do {
        n \<leftarrow> unit_blocks (rf_granularity s) (rf_unit_size s);
        Some (s\<lparr>rf_unit_acc_freq :=
                  AList.update unit_id (replicate (unat n) 0) (rf_unit_acc_freq s)\<rparr>)
      }
      else Some s)"

definition rf_record_access :: "rf_sketch \<Rightarrow> u64 \<Rightarrow> u64 \<Rightarrow> u64 \<Rightarrow> rf_sketch option" where
  "rf_record_access s unit_id t sz =
     do {
       cnt \<leftarrow> rf_cnt s sz;
       start_t \<leftarrow> rf_start s t;
       s \<leftarrow> rf_emplace s unit_id;
       is \<leftarrow> index_range (int_of_u64 start_t) (word_of_int cnt + start_t);
       fold_opt (rf_record_at unit_id) is s
     }"

definition rf_sampling_size :: "rf_sketch \<Rightarrow> int" where
  "rf_sampling_size s = int_of_u64 (of_nat (length (rf_table s)) * 10)"

text \<open>The inner loop of \<open>try_reset\<close>, \<open>for(int i = 0; i < unit_size / granularity; i++)\<close>.\<close>

definition rf_halve_vector :: "rf_sketch \<Rightarrow> u16 list \<Rightarrow> u16 list option" where
  "rf_halve_vector s vector =
     do {
       n \<leftarrow> udiv (rf_unit_size s) (rf_granularity s);
       is \<leftarrow> index_range 0 n;
       fold_opt (\<lambda>i vector.
           do {
             x \<leftarrow> vec_at vector i;
             Some (vector[nat i := x div 2])
           }) is vector
     }"

definition rf_try_reset :: "rf_sketch \<Rightarrow> (rf_sketch \<times> bool) option" where
  "rf_try_reset s =
     (if rf_size s \<ge> rf_sampling_size s
      then do {
        freqs \<leftarrow> fold_opt (\<lambda>(unit_id, vector) acc.
                   do {
                     vector \<leftarrow> rf_halve_vector s vector;
                     Some (acc @ [(unit_id, vector)])
                   }) (rf_unit_acc_freq s) [];
        Some (s\<lparr>rf_unit_acc_freq := freqs, rf_size := 0\<rparr>, True)
      }
      else Some (s, False))"

subsection \<open>Geometry of an access, in natural numbers\<close>

definition rb_start :: "rf_sketch \<Rightarrow> u64 \<Rightarrow> nat" where
  "rb_start s t = unat t mod unat (rf_unit_size s) div unat (rf_granularity s)"

definition rb_cnt :: "rf_sketch \<Rightarrow> u64 \<Rightarrow> nat" where
  "rb_cnt s sz = (unat sz + unat (rf_granularity s) - 1) div unat (rf_granularity s)"

definition rb_blocks :: "rf_sketch \<Rightarrow> nat" where
  "rb_blocks s = rb_cnt s (rf_unit_size s)"

text \<open>Configurations in which no size computation wraps and no sum of counters leaves \<open>int\<close>.\<close>

definition rf_conf :: "rf_sketch \<Rightarrow> bool" where
  "rf_conf s \<longleftrightarrow> 0 < unat (rf_granularity s) \<and> 0 < unat (rf_unit_size s) \<and>
     unat (rf_unit_size s) + unat (rf_granularity s) < 2 ^ 64 \<and> 65535 * rb_blocks s \<le> 2147483647"

definition rf_ok :: "rf_sketch \<Rightarrow> bool" where
  "rf_ok s \<longleftrightarrow> rf_conf s \<and> distinct (map fst (rf_unit_acc_freq s)) \<and>
     (\<forall>u v. map_of (rf_unit_acc_freq s) u = Some v \<longrightarrow> length v = rb_blocks s)"

text \<open>The access stays inside its unit.\<close>

definition rf_inside :: "rf_sketch \<Rightarrow> u64 \<Rightarrow> u64 \<Rightarrow> bool" where
  "rf_inside s t sz \<longleftrightarrow> unat sz + unat (rf_granularity s) < 2 ^ 64 \<and>
     rb_start s t + rb_cnt s sz \<le> rb_blocks s"

lemma unit_blocks_ceil:
  assumes "0 < unat g" and "unat x + unat g < 2 ^ 64"
  shows "\<exists>n. unit_blocks g x = Some n \<and> unat n = (unat x + unat g - 1) div unat g"
proof -
  have g: "g \<noteq> 0" using assms(1) by auto
  have s: "unat (x + g) = unat x + unat g"
    using assms(2) by (simp add: unat_word_ariths(1))
  have "x + g \<noteq> 0" using s assms(1) by (metis add_is_0 less_numeral_extra(3) unat_0)
  then have "unat (x + g - 1) = unat x + unat g - 1" using s by (simp add: unat_minus_one)
  then show ?thesis using g by (simp add: unit_blocks_def cpp_simps unat_div_mod)
qed

lemma rf_cnt_eq:
  assumes "0 < unat (rf_granularity s)" and "unat sz + unat (rf_granularity s) < 2 ^ 64"
    and "rb_cnt s sz < 2147483648"
  shows "rf_cnt s sz = Some (int (rb_cnt s sz))"
proof -
  obtain n where n: "unit_blocks (rf_granularity s) sz = Some n" "unat n = rb_cnt s sz"
    using unit_blocks_ceil [OF assms(1,2)] by (auto simp: rb_cnt_def)
  show ?thesis using n(1) int_of_u64_eq [OF n(2) assms(3)] by (simp add: rf_cnt_def)
qed

lemma rf_start_eq:
  assumes "rf_conf s"
  obtains w where "rf_start s t = Some w" and "unat w = rb_start s t"
proof -
  have "rf_unit_size s \<noteq> 0" and "rf_granularity s \<noteq> 0"
    using assms by (auto simp: rf_conf_def)
  then show ?thesis
    using that [of "t mod rf_unit_size s div rf_granularity s"]
    by (simp add: rf_start_def cpp_simps unat_div_mod rb_start_def)
qed

lemma index_range_nat:
  assumes "a + c \<le> 2147483647" and "unat w = a"
  shows "index_range (int a) (word_of_int (int c) + w) = Some (map int [a..<a + c])"
proof -
  have w: "w = of_nat a" using assms(2) by auto
  have u: "unat (of_nat n :: u64) = n" if "n \<le> 2147483647" for n
    using that by (simp add: unsigned_of_nat take_bit_nat_eq_self)
  have bnd: "word_of_int (int c) + w = of_nat (a + c)" by (simp add: w)
  have ub: "uint (of_nat (a + c) :: u64) = int a + int c"
    using u [OF assms(1)] by (metis of_nat_add uint_nat)
  have lt: "(word_of_int (int a) :: u64) < of_nat (a + c) \<longleftrightarrow> 0 < c"
    using u [of a] u [OF assms(1)] assms(1) by (simp add: word_less_nat_alt del: of_nat_add)
  have up: "[int a..int a + int c - 1] = map int [a..<a + c]"
  proof (induction c)
    case (Suc c)
    have "[int a..int a + int (Suc c) - 1] = [int a..int a + int c - 1] @ [int a + int c]"
      using upto_rec2 [of "int a" "int a + int c"] by simp
    then show ?case using Suc by simp
  qed simp
  show ?thesis
    unfolding index_range_def bnd lt ub using assms(1) up by (cases "c = 0") auto
qed

text \<open>The loop bounds of an access inside its unit.\<close>

lemma rf_loop:
  assumes "rf_conf s" and "rf_inside s t sz"
  obtains w where "rf_cnt s sz = Some (int (rb_cnt s sz))" and "rf_start s t = Some w"
    and "index_range (int_of_u64 w) (word_of_int (int (rb_cnt s sz)) + w)
           = Some (map int [rb_start s t..<rb_start s t + rb_cnt s sz])"
proof -
  obtain w where w: "rf_start s t = Some w" "unat w = rb_start s t"
    using rf_start_eq [OF assms(1)] .
  have b: "rb_start s t + rb_cnt s sz \<le> 2147483647"
    using assms by (simp add: rf_conf_def rf_inside_def)
  have i: "int_of_u64 w = int (rb_start s t)"
    by (rule int_of_u64_eq [OF w(2)]) (use b in linarith)
  show ?thesis
    using that w(1) rf_cnt_eq [of s sz] index_range_nat [OF b w(2)] assms b
    by (simp add: i rf_conf_def rf_inside_def)
qed

subsection \<open>Counters\<close>

definition rf_count :: "rf_sketch \<Rightarrow> u64 \<Rightarrow> nat \<Rightarrow> u16" where
  "rf_count s unit_id b =
     (case map_of (rf_unit_acc_freq s) unit_id of None \<Rightarrow> 0 | Some v \<Rightarrow> v ! b)"

definition rf_same_conf :: "rf_sketch \<Rightarrow> rf_sketch \<Rightarrow> bool" where
  "rf_same_conf s s' \<longleftrightarrow> rf_granularity s' = rf_granularity s \<and> rf_unit_size s' = rf_unit_size s \<and>
     rf_table s' = rf_table s"

lemma rf_same_conf_simps:
  assumes "rf_same_conf s s'"
  shows "rb_start s' = rb_start s" "rb_cnt s' = rb_cnt s" "rb_blocks s' = rb_blocks s"
    "rf_conf s' = rf_conf s" "rf_inside s' = rf_inside s"
  using assms
  by (simp_all add: rf_same_conf_def rb_start_def rb_cnt_def rb_blocks_def rf_conf_def rf_inside_def
      fun_eq_iff)

text \<open>The vectors after counting the blocks from \<open>a\<close> to \<open>a + c\<close> of one unit.\<close>

definition rf_step :: "u64 \<Rightarrow> nat \<Rightarrow> nat \<Rightarrow> rf_sketch \<Rightarrow> rf_sketch \<Rightarrow> bool" where
  "rf_step unit_id a c s s' \<longleftrightarrow> rf_same_conf s s' \<and> rf_ok s' \<and>
     map_of (rf_unit_acc_freq s') unit_id \<noteq> None \<and>
     (\<forall>u b. b < rb_blocks s \<longrightarrow>
        rf_count s' u b = rf_count s u b + (if u = unit_id \<and> a \<le> b \<and> b < a + c then 1 else 0))"

lemma rf_record_at_step:
  assumes "rf_step unit_id a c s s'" and "a + c < rb_blocks s"
  shows "\<exists>s''. rf_record_at unit_id (int (a + c)) s' = Some s'' \<and> rf_step unit_id a (Suc c) s s''"
proof -
  obtain v where v: "map_of (rf_unit_acc_freq s') unit_id = Some v"
    using assms(1) by (auto simp: rf_step_def)
  have same: "rf_same_conf s s'" and ok: "rf_ok s'"
    using assms(1) by (simp_all add: rf_step_def)
  have len: "length v = rb_blocks s"
    using ok v rf_same_conf_simps(3) [OF same] by (auto simp: rf_ok_def)
  define s'' where "s'' = s'\<lparr>rf_unit_acc_freq :=
      AList.update unit_id (v[a + c := v ! (a + c) + 1]) (rf_unit_acc_freq s'),
      rf_size := i32 (rf_size s' + 1)\<rparr>"
  have m: "map_of (rf_unit_acc_freq s'') = (map_of (rf_unit_acc_freq s'))
      (unit_id \<mapsto> v[a + c := v ! (a + c) + 1])"
    by (simp add: s''_def update_conv')
  have same': "rf_same_conf s' s''" by (simp add: s''_def rf_same_conf_def)
  then have same2: "rf_same_conf s s''" using same by (simp add: rf_same_conf_def)
  have "distinct (map fst (rf_unit_acc_freq s''))"
    using ok by (simp add: s''_def rf_ok_def distinct_update)
  then have "rf_ok s''"
    using ok len same rf_same_conf_simps [OF same'] rf_same_conf_simps [OF same]
    by (auto simp: rf_ok_def m)
  moreover have "rf_record_at unit_id (int (a + c)) s' = Some s''"
    using v len assms(2) by (simp add: rf_record_at_def vec_at_def s''_def nat_int_add)
  moreover have "rf_count s'' u b =
      rf_count s u b + (if u = unit_id \<and> a \<le> b \<and> b < a + Suc c then 1 else 0)"
    if "b < rb_blocks s" for u b
  proof -
    have "rf_count s' u b =
        rf_count s u b + (if u = unit_id \<and> a \<le> b \<and> b < a + c then 1 else 0)"
      using assms(1) that by (simp add: rf_step_def)
    moreover have "rf_count s'' u b = rf_count s' u b + (if u = unit_id \<and> b = a + c then 1 else 0)"
      using v len that by (auto simp: rf_count_def m nth_list_update)
    ultimately show ?thesis by auto
  qed
  ultimately show ?thesis using same2 m by (auto simp: rf_step_def)
qed

lemma rf_record_loop:
  assumes "rf_step unit_id a 0 s s'" and "a + c \<le> rb_blocks s"
  shows "\<exists>s''. fold_opt (rf_record_at unit_id) (map int [a..<a + c]) s' = Some s'' \<and>
            rf_step unit_id a c s s''"
  using assms(2)
proof (induction c)
  case (Suc c)
  then obtain s1 where s1: "fold_opt (rf_record_at unit_id) (map int [a..<a + c]) s' = Some s1"
      "rf_step unit_id a c s s1" by auto
  obtain s2 where "rf_record_at unit_id (int (a + c)) s1 = Some s2" "rf_step unit_id a (Suc c) s s2"
    using rf_record_at_step [OF s1(2)] Suc.prems by auto
  then show ?case using s1(1) by (simp add: fold_opt_append)
qed (use assms(1) in simp)

lemma rf_emplace_step:
  assumes "rf_ok s"
  shows "\<exists>s'. rf_emplace s unit_id = Some s' \<and> rf_step unit_id a 0 s s'"
proof (cases "map_of (rf_unit_acc_freq s) unit_id")
  case None
  have conf: "rf_conf s" using assms by (simp add: rf_ok_def)
  obtain n where n: "unit_blocks (rf_granularity s) (rf_unit_size s) = Some n"
      "unat n = rb_blocks s"
    using unit_blocks_ceil [of "rf_granularity s" "rf_unit_size s"] conf
    by (auto simp: rf_conf_def rb_blocks_def rb_cnt_def)
  define s' where "s' = s\<lparr>rf_unit_acc_freq :=
      AList.update unit_id (replicate (rb_blocks s) 0) (rf_unit_acc_freq s)\<rparr>"
  have m: "map_of (rf_unit_acc_freq s') = (map_of (rf_unit_acc_freq s))
      (unit_id \<mapsto> replicate (rb_blocks s) 0)"
    by (simp add: s'_def update_conv')
  have same: "rf_same_conf s s'" by (simp add: s'_def rf_same_conf_def)
  have "distinct (map fst (rf_unit_acc_freq s'))"
    using assms by (simp add: s'_def rf_ok_def distinct_update)
  then have "rf_ok s'"
    using assms rf_same_conf_simps [OF same] by (auto simp: rf_ok_def m)
  moreover have "rf_emplace s unit_id = Some s'" using None n by (simp add: rf_emplace_def s'_def)
  ultimately show ?thesis
    using same None by (auto simp: rf_step_def m rf_count_def)
next
  case (Some v)
  then show ?thesis
    using assms by (auto simp: rf_emplace_def rf_step_def rf_same_conf_def)
qed

lemma rf_record_access_step:
  assumes "rf_ok s" and "rf_inside s t sz"
  shows "\<exists>s'. rf_record_access s unit_id t sz = Some s' \<and>
            rf_step unit_id (rb_start s t) (rb_cnt s sz) s s'"
proof -
  have conf: "rf_conf s" using assms(1) by (simp add: rf_ok_def)
  obtain s1 where s1: "rf_emplace s unit_id = Some s1" "rf_step unit_id (rb_start s t) 0 s s1"
    using rf_emplace_step [OF assms(1)] by blast
  obtain s2 where s2: "fold_opt (rf_record_at unit_id)
        (map int [rb_start s t..<rb_start s t + rb_cnt s sz]) s1 = Some s2"
      "rf_step unit_id (rb_start s t) (rb_cnt s sz) s s2"
    using rf_record_loop [OF s1(2)] assms(2) by (auto simp: rf_inside_def)
  obtain w where "rf_cnt s sz = Some (int (rb_cnt s sz))" "rf_start s t = Some w"
      "index_range (int_of_u64 w) (word_of_int (int (rb_cnt s sz)) + w)
           = Some (map int [rb_start s t..<rb_start s t + rb_cnt s sz])"
    using rf_loop [OF conf assms(2)] .
  with s1(1) s2 show ?thesis by (simp add: rf_record_access_def)
qed

lemma uint_u16: "uint (x :: u16) = int (unat x)"
  by simp

lemma rf_sum_loop:
  assumes "a + c \<le> length v" and "65535 * length v \<le> 2147483647"
  shows "fold_opt (\<lambda>i sum_frequency.
             do {
               it_freq \<leftarrow> vec_at v i;
               Some (i32 (sum_frequency + uint it_freq))
             }) (map int [a..<a + c]) 0
         = Some (int (\<Sum>b\<leftarrow>[a..<a + c]. unat (v ! b :: u16)))"
    (is "fold_opt ?f _ _ = _")
    and "(\<Sum>b\<leftarrow>[a..<a + c]. unat (v ! b :: u16)) \<le> 65535 * c"
proof -
  have "fold_opt ?f (map int [a..<a + c]) 0 = Some (int (\<Sum>b\<leftarrow>[a..<a + c]. unat (v ! b)))
      \<and> (\<Sum>b\<leftarrow>[a..<a + c]. unat (v ! b)) \<le> 65535 * c"
    using assms(1)
  proof (induction c)
    case (Suc c)
    define S where "S = (\<Sum>b\<leftarrow>[a..<a + c]. unat (v ! b))"
    have ih: "fold_opt ?f (map int [a..<a + c]) 0 = Some (int S)" and S: "S \<le> 65535 * c"
      using Suc by (simp_all add: S_def)
    have x: "unat (v ! (a + c)) \<le> 65535" using unat_lt [of "v ! (a + c)"] by simp
    have at: "vec_at v (int (a + c)) = Some (v ! (a + c))"
      using Suc.prems by (simp add: vec_at_def nat_int_add)
    have "S + unat (v ! (a + c)) \<le> 2147483647"
      using S x Suc.prems assms(2) by linarith
    then have i: "i32 (int S + uint (v ! (a + c))) = int (S + unat (v ! (a + c)))"
      unfolding uint_u16 of_nat_add [symmetric] by (intro i32_id) linarith+
    have "fold_opt ?f (map int [a..<a + Suc c]) 0 = Some (int (S + unat (v ! (a + c))))"
      using ih at i by (simp add: fold_opt_append)
    then show ?case using S x by (simp add: S_def)
  qed simp
  then show "fold_opt ?f (map int [a..<a + c]) 0 = Some (int (\<Sum>b\<leftarrow>[a..<a + c]. unat (v ! b)))"
    and "(\<Sum>b\<leftarrow>[a..<a + c]. unat (v ! b)) \<le> 65535 * c" by simp_all
qed

lemma rf_frequency_eq:
  assumes "rf_ok s" and "rf_inside s t sz"
  shows "rf_frequency s unit_id t sz =
    Some (int (\<Sum>b\<leftarrow>[rb_start s t..<rb_start s t + rb_cnt s sz]. unat (rf_count s unit_id b)))"
proof -
  have conf: "rf_conf s" using assms(1) by (simp add: rf_ok_def)
  obtain w where w: "rf_cnt s sz = Some (int (rb_cnt s sz))" "rf_start s t = Some w"
      "index_range (int_of_u64 w) (word_of_int (int (rb_cnt s sz)) + w)
           = Some (map int [rb_start s t..<rb_start s t + rb_cnt s sz])"
    using rf_loop [OF conf assms(2)] .
  show ?thesis
  proof (cases "map_of (rf_unit_acc_freq s) unit_id")
    case None
    have "unat (rf_count s unit_id b) = 0" for b by (simp add: rf_count_def None)
    then show ?thesis using w by (simp add: rf_frequency_def None)
  next
    case (Some v)
    then have len: "length v = rb_blocks s" using assms(1) by (auto simp: rf_ok_def)
    have "rb_start s t + rb_cnt s sz \<le> length v" and "65535 * length v \<le> 2147483647"
      using assms(2) conf by (simp_all add: len rf_inside_def rf_conf_def)
    from rf_sum_loop(1) [OF this] w Some show ?thesis
      by (simp add: rf_frequency_def rf_count_def)
  qed
qed

subsection \<open>Histories\<close>

type_synonym access = "u64 \<times> u64 \<times> u64"

definition rf_record :: "access \<Rightarrow> rf_sketch \<Rightarrow> rf_sketch option" where
  "rf_record a s = (case a of (unit_id, t, sz) \<Rightarrow> rf_record_access s unit_id t sz)"

text \<open>How many accesses of a history visit block \<open>b\<close> of a unit.\<close>

definition visits :: "rf_sketch \<Rightarrow> access list \<Rightarrow> u64 \<Rightarrow> nat \<Rightarrow> nat" where
  "visits s as unit_id b = length (filter (\<lambda>(u, t, sz).
     u = unit_id \<and> rb_start s t \<le> b \<and> b < rb_start s t + rb_cnt s sz) as)"

lemma rf_records:
  assumes "rf_ok s" and "\<forall>(u, t, sz)\<in>set as. rf_inside s t sz"
  shows "\<exists>s'. fold_opt rf_record as s = Some s' \<and> rf_ok s' \<and> rf_same_conf s s' \<and>
     (\<forall>u b. b < rb_blocks s \<longrightarrow> rf_count s' u b = rf_count s u b + of_nat (visits s as u b))"
  using assms
proof (induction as arbitrary: s)
  case Nil
  then show ?case by (simp add: rf_same_conf_def visits_def)
next
  case (Cons a as)
  obtain u t sz where a: "a = (u, t, sz)" by (cases a)
  obtain s1 where s1: "rf_record a s = Some s1" "rf_step u (rb_start s t) (rb_cnt s sz) s s1"
    using rf_record_access_step [OF Cons.prems(1), of t sz u] Cons.prems(2)
    by (auto simp: a rf_record_def)
  then have same: "rf_same_conf s s1" and ok: "rf_ok s1" by (simp_all add: rf_step_def)
  note conf = rf_same_conf_simps [OF same]
  have vis: "visits s1 = visits s" by (simp add: visits_def conf fun_eq_iff)
  obtain s' where s': "fold_opt rf_record as s1 = Some s'" "rf_ok s'" "rf_same_conf s1 s'"
      "\<forall>u b. b < rb_blocks s \<longrightarrow> rf_count s' u b = rf_count s1 u b + of_nat (visits s as u b)"
    using Cons.IH [OF ok] Cons.prems(2) by (auto simp: conf vis)
  have "rf_count s' v b = rf_count s v b + of_nat (visits s (a # as) v b)" if "b < rb_blocks s" for v b
    using s'(4) s1(2) that by (auto simp: rf_step_def visits_def a)
  moreover have "rf_same_conf s s'" using same s'(3) by (simp add: rf_same_conf_def)
  ultimately show ?case using s1(1) s'(1,2) by auto
qed

subsection \<open>Aging\<close>

text \<open>The blocks the halving loop visits: the whole blocks of a unit.\<close>

definition rb_whole :: "rf_sketch \<Rightarrow> nat" where
  "rb_whole s = unat (rf_unit_size s) div unat (rf_granularity s)"

definition halve_upto :: "nat \<Rightarrow> u16 list \<Rightarrow> u16 list" where
  "halve_upto n v = map (\<lambda>x. x div 2) (take n v) @ drop n v"

lemma length_halve_upto [simp]: "length (halve_upto n v) = length v"
  by (simp add: halve_upto_def)

lemma nth_halve_upto:
  "b < length v \<Longrightarrow> halve_upto n v ! b = (if b < n then v ! b div 2 else v ! b)"
  by (auto simp: halve_upto_def nth_append)

lemma halve_upto_Suc:
  assumes "n < length v"
  shows "(halve_upto n v)[n := halve_upto n v ! n div 2] = halve_upto (Suc n) v"
  using assms by (intro nth_equalityI) (auto simp: nth_halve_upto nth_list_update less_Suc_eq)

lemma halve_loop:
  "n \<le> length v \<Longrightarrow>
     fold_opt (\<lambda>i vector.
           do {
             x \<leftarrow> vec_at vector i;
             Some (vector[nat i := x div 2])
           }) (map int [0..<n]) v = Some (halve_upto n v)"
proof (induction n)
  case (Suc n)
  then show ?case
    by (simp add: fold_opt_append vec_at_def halve_upto_Suc [symmetric] nth_halve_upto)
qed (simp add: halve_upto_def)

lemma rb_whole_le: "rf_conf s \<Longrightarrow> rb_whole s \<le> rb_blocks s"
  unfolding rb_whole_def rb_blocks_def rb_cnt_def rf_conf_def by (intro div_le_mono) linarith

lemma rf_halve_vector_eq:
  assumes "rf_conf s" and "length v = rb_blocks s"
  shows "rf_halve_vector s v = Some (halve_upto (rb_whole s) v)"
proof -
  have nz: "rf_granularity s \<noteq> 0" using assms(1) by (auto simp: rf_conf_def)
  have b: "0 + rb_whole s \<le> 2147483647"
    using rb_whole_le [OF assms(1)] assms(1) by (simp add: rf_conf_def)
  have "unat (rf_unit_size s div rf_granularity s) = rb_whole s"
    by (simp add: unat_div_mod rb_whole_def)
  then have "rf_unit_size s div rf_granularity s = of_nat (rb_whole s)"
    using rb_whole_le [OF assms(1)] assms(1)
    by (simp add: word_unat_eq_iff unsigned_of_nat take_bit_nat_eq_self rf_conf_def)
  then have w: "rf_unit_size s div rf_granularity s = word_of_int (int (rb_whole s)) + 0" by simp
  have "index_range 0 (rf_unit_size s div rf_granularity s) = Some (map int [0..<rb_whole s])"
    using index_range_nat [OF b, of 0] unfolding w by simp
  then show ?thesis
    using nz halve_loop [of "rb_whole s" v] rb_whole_le [OF assms(1)] assms(2)
    by (simp add: rf_halve_vector_def cpp_simps)
qed

lemma rf_halve_all:
  assumes "rf_conf s" and "\<forall>(u, v)\<in>set kvs. length v = rb_blocks s"
  shows "fold_opt (\<lambda>(unit_id, vector) acc.
                   do {
                     vector \<leftarrow> rf_halve_vector s vector;
                     Some (acc @ [(unit_id, vector)])
                   }) kvs acc = Some (acc @ map (\<lambda>(u, v). (u, halve_upto (rb_whole s) v)) kvs)"
  using assms(2) by (induction kvs arbitrary: acc) (auto simp: rf_halve_vector_eq [OF assms(1)])

lemma map_of_halved:
  "map_of (map (\<lambda>(u, v). (u, f v)) kvs) k = map_option f (map_of kvs k)"
  by (induction kvs) auto

lemma rf_try_reset_eq:
  assumes "rf_ok s" and "rf_sampling_size s \<le> rf_size s"
  shows "\<exists>s'. rf_try_reset s = Some (s', True) \<and> rf_ok s' \<and> rf_same_conf s s' \<and> rf_size s' = 0 \<and>
     (\<forall>u b. b < rb_blocks s \<longrightarrow> rf_count s' u b
        = (if b < rb_whole s then rf_count s u b div 2 else rf_count s u b))"
proof -
  let ?kvs = "map (\<lambda>(u, v). (u, halve_upto (rb_whole s) v)) (rf_unit_acc_freq s)"
  let ?s' = "s\<lparr>rf_unit_acc_freq := ?kvs, rf_size := 0\<rparr>"
  have conf: "rf_conf s" and len: "\<forall>(u, v)\<in>set (rf_unit_acc_freq s). length v = rb_blocks s"
    using assms(1) by (auto simp: rf_ok_def dest: map_of_is_SomeI)
  have same: "rf_same_conf s ?s'" by (simp add: rf_same_conf_def)
  have "map fst ?kvs = map fst (rf_unit_acc_freq s)" by (simp add: split_beta)
  then have "distinct (map fst ?kvs)" using assms(1) by (simp only: rf_ok_def)
  then have "rf_ok ?s'"
    using assms(1) rf_same_conf_simps [OF same] by (auto simp: rf_ok_def map_of_halved)
  moreover have "rf_count ?s' u b
        = (if b < rb_whole s then rf_count s u b div 2 else rf_count s u b)"
    if "b < rb_blocks s" for u b
  proof (cases "map_of (rf_unit_acc_freq s) u")
    case (Some v)
    then have "length v = rb_blocks s" using assms(1) by (auto simp: rf_ok_def)
    then show ?thesis using that Some by (simp add: rf_count_def map_of_halved nth_halve_upto)
  qed (simp add: rf_count_def map_of_halved)
  ultimately show ?thesis
    using assms(2) same rf_halve_all [OF conf len, of "[]"] by (simp add: rf_try_reset_def)
qed

subsection \<open>Properties\<close>

lemma rf_new_ok:
  assumes "rf_new n g u = Inr s" and "rf_conf s"
  shows "rf_ok s \<and> rf_count s v b = 0"
  using assms by (auto simp: rf_new_def rf_change_capacity_def rf_ok_def rf_count_def split: if_splits)

text \<open>C10. The counters are exact up to the width of \<open>uint16_t\<close>: after any sequence of accesses that stay
  inside their units, on a new sketch, a query returns the sum over the blocks it covers of the
  number of accesses that visited the block, each modulo 65536; no operation fails.\<close>

theorem rf_counts_exactly:
  assumes "rf_new n g u = Inr s" and "rf_conf s"
    and "\<And>v t sz. (v, t, sz) \<in> set as \<Longrightarrow> rf_inside s t sz" and "rf_inside s t sz"
  shows "\<exists>s'. fold_opt rf_record as s = Some s' \<and>
     rf_frequency s' unit_id t sz = Some (int
       (\<Sum>b\<leftarrow>[rb_start s t..<rb_start s t + rb_cnt s sz]. visits s as unit_id b mod 65536))"
proof -
  have ok: "rf_ok s" and zero: "\<And>v b. rf_count s v b = 0" using rf_new_ok [OF assms(1,2)] by auto
  obtain s' where s': "fold_opt rf_record as s = Some s'" "rf_ok s'" "rf_same_conf s s'"
      "\<forall>u b. b < rb_blocks s \<longrightarrow> rf_count s' u b = rf_count s u b + of_nat (visits s as u b)"
    using rf_records [OF ok, of as] assms(3) by blast
  let ?bs = "[rb_start s t..<rb_start s t + rb_cnt s sz]"
  have "unat (rf_count s' unit_id b) = visits s as unit_id b mod 65536" if "b \<in> set ?bs" for b
    using s'(4) that assms(4) by (simp add: zero rf_inside_def unsigned_of_nat take_bit_eq_mod)
  then have "(\<Sum>b\<leftarrow>?bs. unat (rf_count s' unit_id b)) = (\<Sum>b\<leftarrow>?bs. visits s as unit_id b mod 65536)"
    by (intro arg_cong [where f = sum_list] map_cong) simp_all
  then show ?thesis
    using s'(1) rf_frequency_eq [OF s'(2), of t sz unit_id] assms(4)
    by (simp add: rf_same_conf_simps [OF s'(3)])
qed

abbreviation rf_demo :: rf_sketch where
  "rf_demo \<equiv> \<lparr>rf_table = [0], rf_unit_acc_freq = [], rf_size = 0, rf_granularity = 4,
              rf_unit_size = 10\<rparr>"

lemma rf_demo_facts:
  "rf_new 1 4 10 = Inr rf_demo" "rf_conf rf_demo" "rf_inside rf_demo 4 6" "rf_inside rf_demo 0 8"
  by (simp_all add: rf_new_def rf_change_capacity_def nearest_power_of_two_def rf_conf_def
      rb_blocks_def rb_cnt_def rf_inside_def rb_start_def)

theorem rf_counts_exactly_witness:
  "\<exists>s'. fold_opt rf_record [(7, 0, 8), (7, 4, 6)] rf_demo = Some s' \<and>
     rf_frequency s' 7 4 6 = Some 3"
proof -
  have "\<exists>s'. fold_opt rf_record [(7, 0, 8), (7, 4, 6)] rf_demo = Some s' \<and>
     rf_frequency s' 7 4 6 = Some (int (\<Sum>b\<leftarrow>[rb_start rf_demo 4..<rb_start rf_demo 4 + rb_cnt rf_demo 6].
        visits rf_demo [(7, 0, 8), (7, 4, 6)] 7 b mod 65536))"
    by (rule rf_counts_exactly [OF rf_demo_facts(1,2)]) (use rf_demo_facts in auto)
  moreover have "(\<Sum>b\<leftarrow>[rb_start rf_demo 4..<rb_start rf_demo 4 + rb_cnt rf_demo 6].
        visits rf_demo [(7, 0, 8), (7, 4, 6)] 7 b mod 65536) = 3"
    by (simp add: rb_start_def rb_cnt_def visits_def upt_rec)
  ultimately show ?thesis by simp
qed

text \<open>Aging: below the sampling size (10 per block of the unused table) nothing changes; from it on
  the size is cleared and every whole block's counter is halved, while the counter of a partial
  last block of a unit (when the granularity does not divide the unit size) keeps its value.\<close>

theorem rf_try_reset_cases:
  assumes "rf_ok s"
  shows "if rf_size s < rf_sampling_size s then rf_try_reset s = Some (s, False)
     else \<exists>s'. rf_try_reset s = Some (s', True) \<and> rf_ok s' \<and> rf_size s' = 0 \<and>
       (\<forall>u b. b < rb_blocks s \<longrightarrow> rf_count s' u b
          = (if b < rb_whole s then rf_count s u b div 2 else rf_count s u b))"
  using rf_try_reset_eq [OF assms] by (auto simp: rf_try_reset_def)

theorem rf_try_reset_cases_witness:
  "rf_try_reset rf_demo = Some (rf_demo, False)"
  using rf_try_reset_cases [of rf_demo] rf_new_ok [OF rf_demo_facts(1,2)]
  by (simp add: rf_sampling_size_def int_of_u64_def)

text \<open>The mean over an access is the sum of its counters divided by the number of its blocks, and
  an access of size 0 divides by zero.\<close>

theorem rf_avg_frequency_cases:
  assumes "rf_ok s" and "rf_inside s t sz"
  shows "rf_avg_frequency s unit_id t sz =
    (if sz = 0 then None
     else Some (int ((\<Sum>b\<leftarrow>[rb_start s t..<rb_start s t + rb_cnt s sz]. unat (rf_count s unit_id b))
                 div rb_cnt s sz)))"
proof -
  let ?S = "\<Sum>b\<leftarrow>[rb_start s t..<rb_start s t + rb_cnt s sz]. unat (rf_count s unit_id b)"
  have conf: "rf_conf s" using assms(1) by (simp add: rf_ok_def)
  obtain w where cnt: "rf_cnt s sz = Some (int (rb_cnt s sz))" using rf_loop [OF conf assms(2)] .
  have g: "0 < unat (rf_granularity s)" using conf by (simp add: rf_conf_def)
  have pos: "0 < rb_cnt s sz \<longleftrightarrow> sz \<noteq> 0"
    using g div_eq_0_iff [of "unat sz + unat (rf_granularity s) - 1" "unat (rf_granularity s)"]
    unfolding rb_cnt_def by (auto simp: unat_eq_0 [symmetric] simp del: div_eq_0_iff unsigned_0)
  have "unat (rf_count s unit_id b) \<le> 65535" for b
    using unat_lt [of "rf_count s unit_id b"] by simp
  then have "?S \<le> 65535 * rb_cnt s sz"
    using sum_list_mono [of "[rb_start s t..<rb_start s t + rb_cnt s sz]"
        "\<lambda>b. unat (rf_count s unit_id b)" "\<lambda>_. 65535"] by (simp add: sum_list_triv)
  also have "\<dots> \<le> 2147483647" using assms(2) conf by (simp add: rf_inside_def rf_conf_def)
  finally have S: "int ?S \<le> INT_MAX" by simp
  show ?thesis
  proof (cases "sz = 0")
    case False
    then have "idiv (int ?S) (int (rb_cnt s sz)) = Some (int ?S div int (rb_cnt s sz))"
      using S pos by (intro idiv_pos) simp_all
    then show ?thesis
      using False cnt rf_frequency_eq [OF assms, of unit_id]
      by (simp add: rf_avg_frequency_def zdiv_int)
  qed (use cnt pos rf_frequency_eq [OF assms, of unit_id] in
      \<open>simp add: rf_avg_frequency_def idiv_0\<close>)
qed

theorem rf_avg_frequency_cases_witness:
  "rf_avg_frequency rf_demo 7 0 8 = Some 0"
  using rf_avg_frequency_cases [of rf_demo 0 8 7] rf_new_ok [OF rf_demo_facts(1,2)] rf_demo_facts
  by (simp add: rb_start_def rb_cnt_def upt_rec)

end
