(* ===== verification/Dyadic.thy ===== *)
theory Dyadic
  imports Prelude
begin

section \<open>The dyadic tree over the blocks of a unit\<close>

text \<open>
  The recursion that \<open>inner_frequency\<close> and \<open>inner_record_access\<close> of both tree sketches follow, without
  the counters: a node is a level and a half-open range \<open>[s, e)\<close>, its children split the range at
  \<open>mid\<close>. \<open>cover\<close> lists the maximal nodes that make up a range, \<open>visited\<close> the nodes the interval
  sketch increments, \<open>tree_value\<close> the sum a query of the gxj sketch computes. The lemmas are pure
  facts on integer ranges, shared by both sketches.
\<close>

definition midpoint :: "int \<Rightarrow> int \<Rightarrow> int" where
  "midpoint s e = s + (e - s) div 2"

fun cover :: "nat \<Rightarrow> int \<Rightarrow> int \<Rightarrow> int \<Rightarrow> int \<Rightarrow> (nat \<times> int \<times> int) list" where
  "cover 0 l r s e = []"
| "cover (Suc k) l r s e =
     (if l = s \<and> r = e then [(k, s, e)]
      else (if midpoint s e > l then cover k l (min (midpoint s e) r) s (midpoint s e) else []) @
           (if midpoint s e < r then cover k (max l (midpoint s e)) r (midpoint s e) e else []))"

fun visited :: "nat \<Rightarrow> int \<Rightarrow> int \<Rightarrow> int \<Rightarrow> int \<Rightarrow> (nat \<times> int) list" where
  "visited 0 l r s e = []"
| "visited (Suc k) l r s e =
     (k, s) #
     (if s = e - 1 then []
      else (if midpoint s e > l then visited k l (min (midpoint s e) r) s (midpoint s e) else []) @
           (if midpoint s e < r then visited k (max l (midpoint s e)) r (midpoint s e) e else []))"

text \<open>A range inside a node of level \<open>k\<close>; the range may be empty or reversed.\<close>

definition in_node :: "nat \<Rightarrow> int \<Rightarrow> int \<Rightarrow> int \<Rightarrow> int \<Rightarrow> bool" where
  "in_node k l r s e \<longleftrightarrow> s \<le> l \<and> l < e \<and> s \<le> r \<and> r \<le> e \<and> e - s \<le> 2 ^ k"

lemma midpoint_bounds: "s < e \<Longrightarrow> s \<le> midpoint s e \<and> midpoint s e < e"
  unfolding midpoint_def by linarith

lemma midpoint_inner: "s + 1 < e \<Longrightarrow> s < midpoint s e"
  unfolding midpoint_def by linarith

lemma midpoint_unit: "s = e - 1 \<Longrightarrow> midpoint s e = s"
  unfolding midpoint_def by simp

lemma midpoint_halves:
  "e - s \<le> 2 ^ Suc k \<Longrightarrow> midpoint s e - s \<le> 2 ^ k \<and> e - midpoint s e \<le> 2 ^ k"
  unfolding midpoint_def power_Suc by linarith

text \<open>Both recursive calls stay inside their child.\<close>

lemma in_node_left:
  "in_node (Suc k) l r s e \<Longrightarrow> midpoint s e > l \<Longrightarrow>
     in_node k l (min (midpoint s e) r) s (midpoint s e)"
  using midpoint_halves [of e s k] midpoint_bounds [of s e] by (auto simp: in_node_def)

lemma in_node_right:
  "in_node (Suc k) l r s e \<Longrightarrow> midpoint s e < r \<Longrightarrow>
     in_node k (max l (midpoint s e)) r (midpoint s e) e"
  using midpoint_halves [of e s k] midpoint_bounds [of s e] by (auto simp: in_node_def)

text \<open>At level 0 a node is one block.\<close>

lemma in_node_0: "in_node 0 l r s e \<Longrightarrow> e = s + 1 \<and> l = s \<and> (r = s \<or> r = e)"
  by (auto simp: in_node_def)

subsection \<open>Covers\<close>

lemma cover_empty: "s < e \<Longrightarrow> s \<le> l \<Longrightarrow> r \<le> l \<Longrightarrow> cover k l r s e = []"
proof (induction k arbitrary: l r s e)
  case (Suc k)
  then show ?case
    using midpoint_bounds [of s e] by (cases "s + 1 < e") (auto simp: midpoint_inner midpoint_unit)
qed simp

lemma cover_in:
  assumes "in_node k l r s e" and "l < r" and "(j, a, b) \<in> set (cover (Suc k) l r s e)"
  shows "j \<le> k \<and> s \<le> a \<and> a < b \<and> b \<le> e \<and> l \<le> a \<and> b \<le> r"
  using assms
proof (induction k arbitrary: l r s e)
  case 0
  then show ?case using in_node_0 [OF 0(1)] by auto
next
  case (Suc k)
  let ?m = "midpoint s e"
  show ?case
  proof (cases "l = s \<and> r = e")
    case False
    then consider "?m > l" "(j, a, b) \<in> set (cover (Suc k) l (min ?m r) s ?m)"
      | "?m < r" "(j, a, b) \<in> set (cover (Suc k) (max l ?m) r ?m e)"
      using Suc.prems(3) by (auto simp del: cover.simps simp: cover.simps(2) [of "Suc k"] split: if_splits)
    then show ?thesis
    proof cases
      case 1
      then show ?thesis
        using Suc.IH [OF in_node_left [OF Suc.prems(1)]] Suc.prems(1,2) midpoint_bounds [of s e]
        by (fastforce simp: in_node_def)
    next
      case 2
      then show ?thesis
        using Suc.IH [OF in_node_right [OF Suc.prems(1)]] Suc.prems(1,2) midpoint_bounds [of s e]
        by (fastforce simp: in_node_def)
    qed
  qed (use Suc.prems in \<open>auto simp: in_node_def\<close>)
qed

text \<open>The nodes of a cover partition the range, in order.\<close>

lemma upto_split3: "a \<le> b \<Longrightarrow> b \<le> c \<Longrightarrow> [a..b - 1] @ [b..c - 1] = [a..c - (1 :: int)]"
  using upto_split2 [of a "b - 1" "c - 1"] by (cases "a = b") simp_all

lemma cover_partition:
  assumes "in_node k l r s e" and "l < r"
  shows "concat (map (\<lambda>(j, a, b). [a..b - 1]) (cover (Suc k) l r s e)) = [l..r - 1]"
  using assms
proof (induction k arbitrary: l r s e)
  case 0
  then show ?case using in_node_0 [OF 0(1)] by auto
next
  case (Suc k)
  let ?m = "midpoint s e"
  let ?c = "\<lambda>xs. concat (map (\<lambda>(j, a, b). [a..b - 1]) xs)"
  show ?case
  proof (cases "l = s \<and> r = e")
    case False
    have left: "?c (cover (Suc k) l (min ?m r) s ?m) = [l..min ?m r - 1]" if "?m > l"
      using Suc.IH [OF in_node_left [OF Suc.prems(1) that]] that Suc.prems(2) by auto
    have right: "?c (cover (Suc k) (max l ?m) r ?m e) = [max l ?m..r - 1]" if "?m < r"
      using Suc.IH [OF in_node_right [OF Suc.prems(1) that]] that Suc.prems(2) by auto
    have "?c (cover (Suc (Suc k)) l r s e)
       = (if ?m > l then [l..min ?m r - 1] else []) @ (if ?m < r then [max l ?m..r - 1] else [])"
      using left right False by (simp only: cover.simps(2) [of "Suc k"] if_False map_append
          concat_append) auto
    also have "\<dots> = [l..r - 1]"
      using Suc.prems(2) upto_split3 [of l ?m r] by (auto simp: min_def max_def)
    finally show ?thesis .
  qed auto
qed

text \<open>A node of the cover of one range is visited by every range that meets it.\<close>

lemma cover_visited:
  assumes "in_node k l r s e" and "l < r" and "(j, a, b) \<in> set (cover (Suc k) l r s e)"
    and "a \<le> x" and "x < b" and "l' \<le> x" and "x < r'"
  shows "(j, a) \<in> set (visited (Suc k) l' r' s e)"
  using assms
proof (induction k arbitrary: l r s e l' r')
  case 0
  then show ?case using in_node_0 [OF 0(1)] by auto
next
  case (Suc k)
  let ?m = "midpoint s e"
  show ?case
  proof (cases "l = s \<and> r = e")
    case False
    then have s: "s \<noteq> e - 1" using Suc.prems(1,2) by (auto simp: in_node_def)
    consider "?m > l" "(j, a, b) \<in> set (cover (Suc k) l (min ?m r) s ?m)"
      | "?m < r" "(j, a, b) \<in> set (cover (Suc k) (max l ?m) r ?m e)"
      using Suc.prems(3) False by (auto simp del: cover.simps simp: cover.simps(2) [of "Suc k"] split: if_splits)
    then show ?thesis
    proof cases
      case 1
      note nd = in_node_left [OF Suc.prems(1) 1(1)]
      have lt: "l < min ?m r" using 1(1) Suc.prems(2) by simp
      have "b \<le> ?m" using cover_in [OF nd lt 1(2)] by simp
      then have "(j, a) \<in> set (visited (Suc k) l' (min ?m r') s ?m)" and "l' < ?m"
        using Suc.IH [OF nd lt 1(2)] Suc.prems(4-7) by auto
      then show ?thesis using s by (simp add: visited.simps(2) [of "Suc k"] del: visited.simps)
    next
      case 2
      note nd = in_node_right [OF Suc.prems(1) 2(1)]
      have lt: "max l ?m < r" using 2(1) Suc.prems(2) by simp
      have "?m \<le> a" using cover_in [OF nd lt 2(2)] by simp
      then have "(j, a) \<in> set (visited (Suc k) (max l' ?m) r' ?m e)" and "?m < r'"
        using Suc.IH [OF nd lt 2(2)] Suc.prems(4-7) by auto
      then show ?thesis using s by (simp add: visited.simps(2) [of "Suc k"] del: visited.simps)
    qed
  qed (use Suc.prems in auto)
qed

text \<open>A sum over the nodes of a cover, block by block.\<close>

lemma cover_sum:
  assumes "in_node k l r s e" and "l < r"
  shows "(\<Sum>(j, a, b)\<leftarrow>cover (Suc k) l r s e. \<Sum>x\<leftarrow>[a..b - 1]. f x) = (\<Sum>x\<leftarrow>[l..r - 1]. f x)"
proof -
  have "(\<Sum>(j, a, b)\<leftarrow>xs. \<Sum>x\<leftarrow>[a..b - 1]. f x)
      = sum_list (map f (concat (map (\<lambda>(j, a, b). [a..b - 1]) xs)))" for xs :: "(nat \<times> int \<times> int) list"
    by (induction xs) auto
  then show ?thesis by (simp only: cover_partition [OF assms])
qed

text \<open>What a cover weighs when every node counts at most 15.\<close>

definition cover_weight :: "(nat \<times> int \<Rightarrow> nat) \<Rightarrow> nat \<Rightarrow> int \<Rightarrow> int \<Rightarrow> int \<Rightarrow> int \<Rightarrow> int" where
  "cover_weight c k l r s e = (\<Sum>(j, a, b)\<leftarrow>cover k l r s e. int (c (j, a)) * (b - a))"

lemma cover_weight_Suc:
  "cover_weight c (Suc k) l r s e =
     (if l = s \<and> r = e then int (c (k, s)) * (e - s)
      else (if midpoint s e > l then cover_weight c k l (min (midpoint s e) r) s (midpoint s e) else 0) +
           (if midpoint s e < r then cover_weight c k (max l (midpoint s e)) r (midpoint s e) e else 0))"
  by (simp add: cover_weight_def)

lemma cover_weight_bounds:
  assumes "in_node k l r s e" and "\<And>x. c x \<le> 15"
  shows "0 \<le> cover_weight c (Suc k) l r s e \<and>
         cover_weight c (Suc k) l r s e \<le> 15 * (if l < r then r - l else 0)"
proof (cases "l < r")
  case False
  then have "cover (Suc k) l r s e = []"
    using assms(1) by (intro cover_empty) (auto simp: in_node_def)
  then show ?thesis using False by (simp add: cover_weight_def)
next
  case True
  have node: "0 \<le> int (c (j, a)) * (b - a) \<and> int (c (j, a)) * (b - a) \<le> (\<Sum>x\<leftarrow>[a..b - 1]. 15)"
    if "(j, a, b) \<in> set (cover (Suc k) l r s e)" for j a b
  proof -
    have "a < b" using cover_in [OF assms(1) True that] by simp
    moreover have "int (c (j, a)) \<le> 15" using assms(2) [of "(j, a)"] by simp
    ultimately show ?thesis
      using mult_right_mono [of "int (c (j, a))" 15 "b - a"] by (simp add: sum_list_triv)
  qed
  have "cover_weight c (Suc k) l r s e \<le> (\<Sum>(j, a, b)\<leftarrow>cover (Suc k) l r s e. \<Sum>x\<leftarrow>[a..b - 1]. 15)"
    unfolding cover_weight_def using node by (intro sum_list_mono) auto
  also have "\<dots> = 15 * (r - l)"
    using True by (simp only: cover_sum [OF assms(1) True]) (simp add: sum_list_triv)
  finally have "cover_weight c (Suc k) l r s e \<le> 15 * (r - l)" .
  moreover have "0 \<le> cover_weight c (Suc k) l r s e"
    unfolding cover_weight_def using node
    by (intro sum_list_nonneg) (auto simp del: cover.simps)
  ultimately show ?thesis using True by simp
qed

text \<open>A cover weighs at least the sum of what its nodes count per block.\<close>

lemma cover_weight_ge:
  assumes "in_node k l r s e" and "l < r"
    and "\<And>j a b x. (j, a, b) \<in> set (cover (Suc k) l r s e) \<Longrightarrow> a \<le> x \<Longrightarrow> x < b \<Longrightarrow> f x \<le> int (c (j, a))"
  shows "(\<Sum>x\<leftarrow>[l..r - 1]. f x) \<le> cover_weight c (Suc k) l r s e"
proof -
  have "(\<Sum>x\<leftarrow>[a..b - 1]. f x) \<le> int (c (j, a)) * (b - a)"
    if n: "(j, a, b) \<in> set (cover (Suc k) l r s e)" for j a b
  proof -
    have "a < b" using cover_in [OF assms(1,2) n] by simp
    moreover have "(\<Sum>x\<leftarrow>[a..b - 1]. f x) \<le> (\<Sum>x\<leftarrow>[a..b - 1]. int (c (j, a)))"
      using assms(3) [OF n] by (intro sum_list_mono) auto
    ultimately show ?thesis by (simp add: sum_list_triv mult.commute)
  qed
  then have "(\<Sum>(j, a, b)\<leftarrow>cover (Suc k) l r s e. \<Sum>x\<leftarrow>[a..b - 1]. f x)
      \<le> cover_weight c (Suc k) l r s e"
    unfolding cover_weight_def by (intro sum_list_mono) auto
  then show ?thesis by (simp only: cover_sum [OF assms(1,2)])
qed

subsection \<open>Lazy sums\<close>

text \<open>The sum of a query: every node above the range contributes its lazy count for each queried
  block below it, and a node that is the whole range its own dyadic count for each of its blocks.\<close>

fun tree_value :: "(nat \<times> int \<Rightarrow> int) \<Rightarrow> (nat \<times> int \<Rightarrow> int) \<Rightarrow> nat \<Rightarrow> int \<Rightarrow> int \<Rightarrow> int \<Rightarrow> int \<Rightarrow> int" where
  "tree_value lz dy 0 l r s e = 0"
| "tree_value lz dy (Suc k) l r s e =
     lz (k, s) * (r - l) +
     (if l = s \<and> r = e then dy (k, s) * (e - s)
      else (if midpoint s e > l then tree_value lz dy k l (min (midpoint s e) r) s (midpoint s e) else 0) +
           (if midpoint s e < r then tree_value lz dy k (max l (midpoint s e)) r (midpoint s e) e else 0))"

definition cover_nodes :: "nat \<Rightarrow> int \<Rightarrow> int \<Rightarrow> int \<Rightarrow> int \<Rightarrow> (nat \<times> int) list" where
  "cover_nodes k l r s e = map (\<lambda>(j, a, b). (j, a)) (cover k l r s e)"

lemma cover_nodes_Suc:
  "cover_nodes (Suc k) l r s e =
     (if l = s \<and> r = e then [(k, s)]
      else (if midpoint s e > l then cover_nodes k l (min (midpoint s e) r) s (midpoint s e) else []) @
           (if midpoint s e < r then cover_nodes k (max l (midpoint s e)) r (midpoint s e) e else []))"
  by (simp add: cover_nodes_def)

lemma cover_level: "x \<in> set (cover_nodes k l r s e) \<Longrightarrow> fst x < k"
proof (induction k arbitrary: l r s e)
  case 0
  then show ?case by (simp add: cover_nodes_def)
next
  case (Suc k)
  then show ?case by (auto simp: cover_nodes_Suc split: if_splits dest!: Suc.IH)
qed

text \<open>How often the ranges \<open>R\<close> have a node in their covers.\<close>

definition cover_count :: "nat \<Rightarrow> (int \<times> int) list \<Rightarrow> int \<Rightarrow> int \<Rightarrow> nat \<times> int \<Rightarrow> nat" where
  "cover_count k R s e x = (\<Sum>(l, r)\<leftarrow>R. count_list (cover_nodes k l r s e) x)"

lemma cover_count_left:
  assumes "\<forall>(l', r')\<in>set R. \<not> (l' = s \<and> r' = e) \<and> l' < midpoint s e"
  shows "cover_count k (map (\<lambda>(l', r'). (l', min (midpoint s e) r')) R) s (midpoint s e) x
           \<le> cover_count (Suc k) R s e x"
  using assms by (induction R) (auto simp: cover_count_def cover_nodes_Suc)

lemma cover_count_right:
  assumes "\<forall>(l', r')\<in>set R. \<not> (l' = s \<and> r' = e) \<and> midpoint s e < r'"
  shows "cover_count k (map (\<lambda>(l', r'). (max l' (midpoint s e), r')) R) (midpoint s e) e x
           \<le> cover_count (Suc k) R s e x"
  using assms by (induction R) (auto simp: cover_count_def cover_nodes_Suc)

lemma cover_count_filter: "cover_count k (filter P R) s e x \<le> cover_count k R s e x"
  by (induction R) (auto simp: cover_count_def)

lemma cover_count_exact:
  "length (filter (\<lambda>(l, r). l = s \<and> r = e) R) \<le> cover_count (Suc k) R s e (k, s)"
  by (induction R) (auto simp: cover_count_def cover_nodes_Suc)

text \<open>The ranges \<open>R\<close> lie in a node and contain a query; every lazy count is at least the number of
  ranges that have the node in their cover, up to 15.\<close>

definition containing :: "(int \<times> int) list \<Rightarrow> int \<Rightarrow> int \<Rightarrow> int \<Rightarrow> int \<Rightarrow> bool" where
  "containing R l r s e \<longleftrightarrow> (\<forall>(l', r')\<in>set R. s \<le> l' \<and> l' \<le> l \<and> r \<le> r' \<and> r' \<le> e)"

definition counted :: "(nat \<times> int \<Rightarrow> int) \<Rightarrow> nat \<Rightarrow> (int \<times> int) list \<Rightarrow> int \<Rightarrow> int \<Rightarrow> bool" where
  "counted lz k R s e \<longleftrightarrow> (\<forall>x. int (min 15 (cover_count k R s e x)) \<le> lz x)"

lemma counted_le:
  assumes "counted lz k R s e" and "\<And>x. cover_count k' R' s' e' x \<le> cover_count k R s e x"
  shows "counted lz k' R' s' e'"
  unfolding counted_def
proof
  fix x
  have "int (min 15 (cover_count k R s e x)) \<le> lz x"
    using assms(1) unfolding counted_def by blast
  then show "int (min 15 (cover_count k' R' s' e' x)) \<le> lz x" using assms(2) [of x] by linarith
qed

definition partial_ranges :: "(int \<times> int) list \<Rightarrow> int \<Rightarrow> int \<Rightarrow> (int \<times> int) list" where
  "partial_ranges R s e = filter (\<lambda>(l, r). \<not> (l = s \<and> r = e)) R"

text \<open>Passing to a child, with the ranges clipped.\<close>

lemma descend_left:
  assumes "containing R l r s e" and "counted lz (Suc k) R s e" and "midpoint s e > l"
  defines "R' \<equiv> map (\<lambda>(l', r'). (l', min (midpoint s e) r')) (partial_ranges R s e)"
  shows "containing R' l (min (midpoint s e) r) s (midpoint s e) \<and> counted lz k R' s (midpoint s e)"
proof
  show "containing R' l (min (midpoint s e) r) s (midpoint s e)"
    using assms(1) unfolding R'_def containing_def partial_ranges_def by fastforce
  show "counted lz k R' s (midpoint s e)"
  proof (rule counted_le [OF assms(2)])
    fix x
    have "cover_count k R' s (midpoint s e) x \<le> cover_count (Suc k) (partial_ranges R s e) s e x"
      using assms(1,3) unfolding R'_def
      by (intro cover_count_left) (fastforce simp: containing_def partial_ranges_def)
    then show "cover_count k R' s (midpoint s e) x \<le> cover_count (Suc k) R s e x"
      using cover_count_filter le_trans unfolding partial_ranges_def by blast
  qed
qed

lemma descend_right:
  assumes "containing R l r s e" and "counted lz (Suc k) R s e" and "midpoint s e < r"
  defines "R' \<equiv> map (\<lambda>(l', r'). (max l' (midpoint s e), r')) (partial_ranges R s e)"
  shows "containing R' (max l (midpoint s e)) r (midpoint s e) e \<and> counted lz k R' (midpoint s e) e"
proof
  show "containing R' (max l (midpoint s e)) r (midpoint s e) e"
    using assms(1) unfolding R'_def containing_def partial_ranges_def by fastforce
  show "counted lz k R' (midpoint s e) e"
  proof (rule counted_le [OF assms(2)])
    fix x
    have "cover_count k R' (midpoint s e) e x \<le> cover_count (Suc k) (partial_ranges R s e) s e x"
      using assms(1,3) unfolding R'_def
      by (intro cover_count_right) (fastforce simp: containing_def partial_ranges_def)
    then show "cover_count k R' (midpoint s e) e x \<le> cover_count (Suc k) R s e x"
      using cover_count_filter le_trans unfolding partial_ranges_def by blast
  qed
qed

lemma split_weight:
  fixes l r m n A B :: int
  assumes "l < r" and "m > l \<Longrightarrow> (min m r - l) * n \<le> A" and "\<not> m > l \<Longrightarrow> A = 0"
    and "m < r \<Longrightarrow> (r - max l m) * n \<le> B" and "\<not> m < r \<Longrightarrow> B = 0"
  shows "(r - l) * n \<le> A + B"
proof -
  consider "m \<le> l" | "l < m" "m < r" | "r \<le> m" by linarith
  then show ?thesis
  proof cases
    case 2
    have "(r - l) * n = (m - l) * n + (r - m) * n" by (simp add: algebra_simps)
    then show ?thesis using assms 2 by simp
  qed (use assms in auto)
qed

lemma length_partial:
  "length R = length (filter (\<lambda>(l, r). l = s \<and> r = e) R) + length (partial_ranges R s e)"
  by (induction R) (auto simp: partial_ranges_def)

text \<open>The weight of the ranges that are the node itself and of the others.\<close>

lemma join_weight:
  fixes r l :: int
  assumes "counted lz (Suc k) R s e" and "l < r"
    and "(r - l) * int (min 15 (length (partial_ranges R s e))) \<le> C"
  shows "(r - l) * int (min 15 (length R)) \<le> lz (k, s) * (r - l) + C"
proof -
  let ?R1 = "filter (\<lambda>(l, r). l = s \<and> r = e) R" and ?R2 = "partial_ranges R s e"
  have "int (min 15 (cover_count (Suc k) R s e (k, s))) \<le> lz (k, s)"
    using assms(1) by (simp add: counted_def)
  then have "int (min 15 (length ?R1)) \<le> lz (k, s)"
    using cover_count_exact [of s e R k] by linarith
  then have "int (min 15 (length R)) \<le> lz (k, s) + int (min 15 (length ?R2))"
    using length_partial [of R s e] by linarith
  then have "(r - l) * int (min 15 (length R)) \<le> (r - l) * (lz (k, s) + int (min 15 (length ?R2)))"
    using assms(2) by (intro mult_left_mono) simp_all
  then show ?thesis using assms(3) by (simp add: algebra_simps)
qed

lemma partial_ranges_exact: "containing R s e s e \<Longrightarrow> partial_ranges R s e = []"
  unfolding partial_ranges_def containing_def by (fastforce simp: filter_empty_conv)

text \<open>A query sees every range of \<open>R\<close>, on each of its blocks.\<close>

lemma tree_value_ge:
  assumes "in_node k l r s e" and "l < r" and "containing R l r s e" and "counted lz (Suc k) R s e"
    and "\<And>x. 0 \<le> dy x"
  shows "(r - l) * int (min 15 (length R)) \<le> tree_value lz dy (Suc k) l r s e"
  using assms(1-4)
proof (induction k arbitrary: l r s e R)
  case 0
  then have e: "e = s + 1" "l = s" "r = e" using in_node_0 [OF 0(1)] by auto
  then have "(r - l) * int (min 15 (length R)) \<le> lz (0, s) * (r - l) + 0"
    using 0 by (intro join_weight) (auto simp: partial_ranges_exact)
  then show ?case using e assms(5) [of "(0, s)"] by simp
next
  case (Suc k)
  let ?m = "midpoint s e" and ?R2 = "partial_ranges R s e"
  show ?case
  proof (cases "l = s \<and> r = e")
    case True
    then have "?R2 = []" using Suc.prems(3) partial_ranges_exact by simp
    then have "(r - l) * int (min 15 (length R)) \<le> lz (Suc k, s) * (r - l) + 0"
      using Suc.prems(2,4) by (intro join_weight) auto
    moreover have "0 \<le> dy (Suc k, s) * (e - s)" using True assms(5) Suc.prems(2) by simp
    ultimately show ?thesis
      using True unfolding tree_value.simps(2) [of _ _ "Suc k"] by simp
  next
    case False
    define A where "A = (if ?m > l then tree_value lz dy (Suc k) l (min ?m r) s ?m else 0)"
    define B where "B = (if ?m < r then tree_value lz dy (Suc k) (max l ?m) r ?m e else 0)"
    have A: "(min ?m r - l) * int (min 15 (length ?R2)) \<le> A" if "?m > l"
      using Suc.IH [OF in_node_left [OF Suc.prems(1) that]]
        descend_left [OF Suc.prems(3,4) that] Suc.prems(2) that
      by (fastforce simp: A_def simp del: tree_value.simps)
    have B: "(r - max l ?m) * int (min 15 (length ?R2)) \<le> B" if "?m < r"
      using Suc.IH [OF in_node_right [OF Suc.prems(1) that]]
        descend_right [OF Suc.prems(3,4) that] Suc.prems(2) that
      by (fastforce simp: B_def simp del: tree_value.simps)
    have "(r - l) * int (min 15 (length ?R2)) \<le> A + B"
      by (rule split_weight [OF Suc.prems(2) A _ B]) (simp_all add: A_def B_def)
    then have "(r - l) * int (min 15 (length R)) \<le> lz (Suc k, s) * (r - l) + (A + B)"
      by (rule join_weight [OF Suc.prems(4,2)])
    then show ?thesis
      using False by (simp only: tree_value.simps(2) [of _ _ "Suc k"] if_False A_def B_def)
  qed
qed

end
