(* ===== verification/Level_Table.thy ===== *)
theory Level_Table
  imports Block_Table Access_Range Detail Dyadic
begin

section \<open>Counter tables by level\<close>

text \<open>
  What \<open>gxj_range_frequency_sketch\<close> (\<open>gxj_frequency_sketch.hpp\<close>) and \<open>interval_sketch\<close>
  (\<open>interval_sketch.hpp\<close>) have in common, text for text: the members, \<open>change_capacity\<close>, the private
  accessors of one counter table and the reads and increments of a node of the dyadic tree over the
  blocks of a unit. Level \<open>l\<close> of the tree has its own table, half as large as the one below; a
  64-bit word holds eight \<open>dyadic\<close> counters in its lower and eight \<open>lazy\<close> ones in its upper half. Every
  access to a level or a table word is checked: outside the vectors the value is \<^const>\<open>None\<close>.
\<close>

subsection \<open>State\<close>

record mix_sketch =
  mx_mix_counters :: "u64 list list"
  mx_counter_level :: int
  mx_size :: int
  mx_ref_cnt :: int
  mx_capacity :: int
  mx_soft_reset_idx :: int
  mx_doing_reset :: bool
  mx_granularity :: u64
  mx_unit_size :: u64

text \<open>\<open>log2\<close> of a positive 32-bit number in \<open>double\<close>, truncated to an integer; for a power of two the
  result is exact.\<close>

fun log2_floor :: "nat \<Rightarrow> nat" where
  "log2_floor n = (if n < 2 then 0 else Suc (log2_floor (n div 2)))"

declare log2_floor.simps [simp del]

text \<open>The loop of \<open>change_capacity\<close>. A negative \<open>table_size\<close> becomes a huge \<open>size_t\<close>, which
  \<open>std::vector\<close> rejects.\<close>

fun mx_push_levels :: "nat \<Rightarrow> int \<Rightarrow> u64 list list \<Rightarrow> cpp_error + u64 list list" where
  "mx_push_levels 0 table_size tables = Inr tables"
| "mx_push_levels (Suc i) table_size tables =
     (if table_size < 0 then Inl Length_error
      else mx_push_levels i (table_size sdiv 2) (tables @ [replicate (nat table_size) 0]))"

text \<open>The parameters \<open>granularity\<close> and \<open>unit_size\<close> shadow the members, which keep their values.
  \<open>log2(0)\<close> is minus infinity, whose conversion to \<open>int\<close> is undefined.\<close>

definition mx_change_capacity :: "mix_sketch \<Rightarrow> int \<Rightarrow> u64 \<Rightarrow> u64 \<Rightarrow> cpp_error + mix_sketch" where
  "mx_change_capacity s n granularity unit_size =
     (if n \<le> 0 then Inl Invalid_argument
      else case udiv unit_size granularity of
        None \<Rightarrow> Inl Undefined_behaviour
      | Some q \<Rightarrow>
          let p = nearest_power_of_two (ucast q) in
          if p = 0 then Inl Undefined_behaviour
          else
            let counter_level = log2_floor (unat p) + 1;
                table_size = i32 (uint (nearest_power_of_two (word_of_int n)))
            in case mx_push_levels counter_level table_size [] of
                 Inl e \<Rightarrow> Inl e
               | Inr tables \<Rightarrow>
                   Inr (s\<lparr>mx_counter_level := int counter_level, mx_mix_counters := tables,
                          mx_soft_reset_idx := 0, mx_size := 0, mx_ref_cnt := 0,
                          mx_capacity := n\<rparr>))"

definition mx_new :: "int \<Rightarrow> u64 \<Rightarrow> u64 \<Rightarrow> cpp_error + mix_sketch" where
  "mx_new capacity granularity unit_size =
     mx_change_capacity
       \<lparr>mx_mix_counters = [], mx_counter_level = 0, mx_size = 0, mx_ref_cnt = 0, mx_capacity = 0,
        mx_soft_reset_idx = 0, mx_doing_reset = False, mx_granularity = granularity,
        mx_unit_size = unit_size\<rparr>
       capacity granularity unit_size"

subsection \<open>One table\<close>

definition mx_offset_multiplier :: "u32 \<Rightarrow> nat" where
  "mx_offset_multiplier hash = unat (push_bit 2 (hash AND 1))"

definition mx_counter_offset :: "u32 \<Rightarrow> nat \<Rightarrow> bool \<Rightarrow> nat" where
  "mx_counter_offset hash counter_index is_lazy =
     (let offset = push_bit 2 (mx_offset_multiplier hash + counter_index)
      in if is_lazy then offset + 32 else offset)"

definition mx_get_count :: "u64 list \<Rightarrow> bool \<Rightarrow> u32 \<Rightarrow> nat \<Rightarrow> int option" where
  "mx_get_count table is_lazy hash counter_index =
     (let offset = mx_counter_offset hash counter_index is_lazy
      in map_option (\<lambda>w. int_of_u64 (drop_bit offset w AND 15))
           (vec_at table (table_index table hash counter_index)))"

text \<open>Saturates at 15; returns \<open>true\<close> in every case.\<close>

definition mx_try_increment_counter_at_with_value ::
    "u64 list \<Rightarrow> bool \<Rightarrow> u32 \<Rightarrow> nat \<Rightarrow> int \<Rightarrow> (u64 list \<times> bool) option" where
  "mx_try_increment_counter_at_with_value table is_lazy hash counter_index inc_value =
     (let index = table_index table hash counter_index;
          offset = mx_counter_offset hash counter_index is_lazy
      in do {
        w \<leftarrow> vec_at table index;
        let now_value = int_of_u64 (drop_bit offset w AND 15);
        if now_value < 15
        then
          let now_value = i32 (now_value + inc_value) in
          if now_value \<ge> 15
          then Some (table[nat index := w OR push_bit offset 15], True)
          else Some (table[nat index := w + push_bit offset (word_of_int inc_value)], True)
        else Some (table, True)
      })"

subsection \<open>Nodes\<close>

text \<open>\<open>sketchdetail::hash(unit_id, base + start)\<close>: the \<open>int\<close> sum is sign-extended to \<open>size_t\<close>.\<close>

definition mx_hash :: "u64 \<Rightarrow> int \<Rightarrow> int \<Rightarrow> u32" where
  "mx_hash unit_id base start = sketch_hash (le_bytes 8 unit_id) (word_of_int (i32 (base + start)))"

definition mx_min_count :: "u64 list \<Rightarrow> bool \<Rightarrow> u32 \<Rightarrow> int option" where
  "mx_min_count table is_lazy hash =
     fold_opt (\<lambda>j block_frequency.
         map_option (min block_frequency) (mx_get_count table is_lazy hash j))
       [0..<4] INT_MAX"

definition mx_get_lazy_add_cnt :: "mix_sketch \<Rightarrow> u64 \<Rightarrow> int \<Rightarrow> int \<Rightarrow> int \<Rightarrow> int \<Rightarrow> int option" where
  "mx_get_lazy_add_cnt s unit_id base start end level =
     do {
       table \<leftarrow> vec_at (mx_mix_counters s) level;
       mx_min_count table True (mx_hash unit_id base start)
     }"

definition mx_get_dyadic_cnt :: "mix_sketch \<Rightarrow> u64 \<Rightarrow> int \<Rightarrow> int \<Rightarrow> int \<Rightarrow> int \<Rightarrow> int option" where
  "mx_get_dyadic_cnt s unit_id base start end level =
     do {
       let range = i32 (end - start);
       table \<leftarrow> vec_at (mx_mix_counters s) level;
       block_frequency \<leftarrow> mx_min_count table False (mx_hash unit_id base start);
       Some (i32 (block_frequency * range))
     }"

definition mx_increment_four ::
    "u64 list \<Rightarrow> bool \<Rightarrow> u32 \<Rightarrow> int \<Rightarrow> (u64 list \<times> bool) option" where
  "mx_increment_four table is_lazy hash value =
     fold_opt (\<lambda>j (table, was_added).
         map_option (\<lambda>(table, b). (table, was_added \<or> b))
           (mx_try_increment_counter_at_with_value table is_lazy hash j value))
       [0..<4] (table, False)"

definition mx_inc_lazy_add_cnt ::
    "mix_sketch \<Rightarrow> u64 \<Rightarrow> int \<Rightarrow> int \<Rightarrow> int \<Rightarrow> int \<Rightarrow> mix_sketch option" where
  "mx_inc_lazy_add_cnt s unit_id base start end level =
     do {
       let range = i32 (end - start);
       table \<leftarrow> vec_at (mx_mix_counters s) level;
       (table, was_added) \<leftarrow> mx_increment_four table True (mx_hash unit_id base start) 1;
       let s = s\<lparr>mx_mix_counters := (mx_mix_counters s)[nat level := table]\<rparr>;
       Some (if was_added then s\<lparr>mx_size := i32 (mx_size s + range)\<rparr> else s)
     }"

definition mx_inc_dyadic_cnt ::
    "mix_sketch \<Rightarrow> u64 \<Rightarrow> int \<Rightarrow> int \<Rightarrow> int \<Rightarrow> int \<Rightarrow> int \<Rightarrow> mix_sketch option" where
  "mx_inc_dyadic_cnt s unit_id base start end value level =
     do {
       table \<leftarrow> vec_at (mx_mix_counters s) level;
       (table, was_added) \<leftarrow> mx_increment_four table False (mx_hash unit_id base start) value;
       let s = s\<lparr>mx_mix_counters := (mx_mix_counters s)[nat level := table]\<rparr>;
       Some (if was_added then s\<lparr>mx_size := i32 (mx_size s + value)\<rparr> else s)
     }"

text \<open>The probability is derived from the number of accesses so far.\<close>

definition mx_try_est_add :: "mix_sketch \<Rightarrow> int \<Rightarrow> int \<Rightarrow> int \<Rightarrow> int \<Rightarrow> bool" where
  "mx_try_est_add s left right start end =
     (let hash = (word_of_int (mx_ref_cnt s) :: u32);
          mask = i32 (end - start - 1);
          rand_v = i32 (uint (hash AND word_of_int mask))
      in rand_v < right - left)"

subsection \<open>Aging\<close>

definition mx_reset :: "mix_sketch \<Rightarrow> mix_sketch" where
  "mx_reset s = s\<lparr>mx_mix_counters := map reset_table (mx_mix_counters s),
                  mx_size := mx_size s sdiv 2, mx_ref_cnt := mx_ref_cnt s sdiv 2\<rparr>"

definition mx_soft_reset :: "mix_sketch \<Rightarrow> mix_sketch" where
  "mx_soft_reset s =
     (let reset_idx = mx_soft_reset_idx s
      in s\<lparr>mx_mix_counters := map reset_table (mx_mix_counters s),
            mx_size := mx_size s sdiv 2, mx_ref_cnt := mx_ref_cnt s sdiv 2\<rparr>)"

definition mx_must_reset :: "mix_sketch \<Rightarrow> mix_sketch" where
  "mx_must_reset s = mx_reset s"

definition mx_sampling_size :: "mix_sketch \<Rightarrow> int" where
  "mx_sampling_size s = i32 (mx_capacity s * 2)"

subsection \<open>The addressing meets the contract of hashed tables\<close>

text \<open>An item of a table is a half of the word and a hash value.\<close>

definition mx_slot :: "bool \<Rightarrow> u32 \<Rightarrow> nat \<Rightarrow> nat" where
  "mx_slot is_lazy h i = 4 * (unat h mod 2) + i + (if is_lazy then 8 else 0)"

definition mx_addr :: "nat \<Rightarrow> bool \<times> u32 \<Rightarrow> cell_addr list" where
  "mx_addr n x =
     map (\<lambda>i. (nat (table_index (replicate n 0) (snd x) i), mx_slot (fst x) (snd x) i)) [0..<4]"

lemma mx_slot_lt: "i < 4 \<Longrightarrow> mx_slot l h i < 16"
proof -
  assume "i < 4"
  moreover have "unat h mod 2 < 2" by simp
  ultimately show ?thesis unfolding mx_slot_def by (cases l; simp only: if_True if_False; linarith)
qed

lemma mx_addr_range: "k \<le> 31 \<Longrightarrow> a \<in> set (mx_addr (2 ^ k) x) \<Longrightarrow> fst a < 2 ^ k \<and> snd a < 16"
proof -
  assume k: "k \<le> 31" and a: "a \<in> set (mx_addr (2 ^ k) x)"
  have "table_ok (replicate (2 ^ k) 0)" using k by (auto simp: table_ok_def)
  from table_index_range [OF this] a show ?thesis
    by (auto simp: mx_addr_def nat_less_iff mx_slot_lt)
qed

interpretation mx: hashed_table mx_addr
proof
  show "\<And>k a x. k \<le> 31 \<Longrightarrow> a \<in> set (mx_addr (2 ^ k) x) \<Longrightarrow> fst a < 2 ^ k \<and> snd a < 16"
    by (rule mx_addr_range)
  show "distinct (mx_addr n x)" for n x
    by (auto simp: mx_addr_def mx_slot_def distinct_map intro!: inj_onI)
  show "mx_addr n x \<noteq> []" for n x by (simp add: mx_addr_def)
qed

lemma mx_counter_offset_slot: "mx_counter_offset h i l = 4 * mx_slot l h i"
proof -
  have "h AND 1 = take_bit 1 h" by (simp add: take_bit_eq_mask mask_eq_exp_minus_1)
  moreover have "unat (take_bit 1 h) = unat h mod 2"
    by (simp only: unsigned_take_bit_eq) (simp add: take_bit_eq_mod)
  ultimately have u: "unat (h AND 1) = unat h mod 2" by simp
  have "unat (push_bit 2 (h AND 1)) = take_bit 32 (push_bit 2 (unat h mod 2))"
    by (simp only: unsigned_push_bit_eq u) simp
  also have "\<dots> = 4 * (unat h mod 2)"
    by (simp add: take_bit_nat_eq_self push_bit_eq_mult)
  finally show ?thesis
    by (simp add: mx_counter_offset_def mx_offset_multiplier_def mx_slot_def push_bit_eq_mult Let_def)
qed

lemma mx_get_count_cell:
  assumes "table_ok t"
  shows "mx_get_count t l h i = Some (int (cell t (nat (table_index t h i), mx_slot l h i)))"
  using table_index_range [OF assms, of h i]
  by (simp add: mx_get_count_def Let_def vec_at_def int_of_u64_nibble cell_def mx_counter_offset_slot)

text \<open>With the increment 1 that every caller passes, the saturating update is \<^const>\<open>bump\<close>.\<close>

lemma mx_try_increment_bump:
  assumes "table_ok t" and "i < 4"
  shows "mx_try_increment_counter_at_with_value t l h i 1
           = Some (bump (nat (table_index t h i), mx_slot l h i) t, True)"
proof -
  let ?n = "nat (table_index t h i)" and ?j = "mx_slot l h i"
  have at: "vec_at t (table_index t h i) = Some (t ! ?n)"
    using table_index_range [OF assms(1), of h i] by (simp add: vec_at_def)
  have j: "?j < 16" using assms(2) by (rule mx_slot_lt)
  have le: "nibble (t ! ?n) (4 * ?j) \<le> 15" by (rule nibble_le)
  consider "nibble (t ! ?n) (4 * ?j) = 15" | "nibble (t ! ?n) (4 * ?j) = 14"
    | "nibble (t ! ?n) (4 * ?j) < 14" using le by linarith
  then show ?thesis
  proof cases
    case 2
    then have "t ! ?n OR push_bit (4 * ?j) 15 = t ! ?n + 2 ^ (4 * ?j)"
      using j by (rule saturate_eq_add)
    then show ?thesis
      using 2 by (simp add: mx_try_increment_counter_at_with_value_def Let_def at
          mx_counter_offset_slot int_of_u64_nibble bump_def cell_def)
  qed (simp_all add: mx_try_increment_counter_at_with_value_def Let_def at
          mx_counter_offset_slot int_of_u64_nibble bump_def cell_def)
qed

lemma mx_min_count_est:
  assumes "table_ok t"
  shows "mx_min_count t l h = Some (int (mx.est t (l, h)))"
proof -
  have c: "min INT_MAX (int (cell t k)) = int (cell t k)" for k
    using cell_le [of t k] by simp
  show ?thesis
    unfolding mx_min_count_def upt_4
    by (simp add: mx_get_count_cell [OF assms] c mx.est_def mx_addr_def upt_4 of_nat_min
        table_index_length min.assoc [symmetric] del: One_nat_def)
qed

lemma mx_increment_four_hit:
  assumes "table_ok t"
  shows "mx_increment_four t l h 1 = Some (mx.hit (l, h) t, True)"
proof -
  have ok: "table_ok (bump k t')" if "table_ok t'" for k t' using that by (simp add: table_ok_def)
  show ?thesis
    unfolding mx_increment_four_def upt_4
    by (simp add: mx_try_increment_bump assms ok mx.hit_def mx_addr_def upt_4 table_index_length
        del: One_nat_def)
qed

subsection \<open>All levels\<close>

type_synonym node = "nat \<times> bool \<times> u32"

definition levels_ok :: "u64 list list \<Rightarrow> bool" where
  "levels_ok tabs \<longleftrightarrow> (\<forall>t\<in>set tabs. table_ok t)"

definition lv_hit :: "node \<Rightarrow> u64 list list \<Rightarrow> u64 list list" where
  "lv_hit x tabs = tabs[fst x := mx.hit (snd x) (tabs ! fst x)]"

definition lv_est :: "u64 list list \<Rightarrow> node \<Rightarrow> nat" where
  "lv_est tabs x = mx.est (tabs ! fst x) (snd x)"

lemma levels_ok_nth: "levels_ok tabs \<Longrightarrow> lv < length tabs \<Longrightarrow> table_ok (tabs ! lv)"
  by (simp add: levels_ok_def)

lemma length_lv_hit [simp]: "length (lv_hit x tabs) = length tabs"
  by (simp add: lv_hit_def)

lemma length_lv_hits [simp]: "length (fold lv_hit xs tabs) = length tabs"
  by (induction xs arbitrary: tabs) simp_all

lemma levels_ok_hit: "levels_ok tabs \<Longrightarrow> levels_ok (lv_hit x tabs)"
  by (cases "fst x < length tabs")
    (auto simp: levels_ok_def lv_hit_def list_update_beyond mx.invar_hit
      dest!: set_update_subset_insert [THEN subsetD])

lemma levels_ok_hits: "levels_ok tabs \<Longrightarrow> levels_ok (fold lv_hit xs tabs)"
  by (induction xs arbitrary: tabs) (simp_all add: levels_ok_hit)

lemma lv_est_le: "lv_est tabs x \<le> 15"
  by (simp add: lv_est_def mx.est_le)

text \<open>Each level sees the hits of its own nodes.\<close>

lemma lv_hits_nth:
  "lv < length tabs \<Longrightarrow>
     fold lv_hit xs tabs ! lv = fold mx.hit (map snd (filter (\<lambda>x. fst x = lv) xs)) (tabs ! lv)"
  by (induction xs arbitrary: tabs) (auto simp: lv_hit_def nth_list_update)

lemma count_list_level: "count_list (map snd (filter (\<lambda>x. fst x = lv) xs)) y = count_list xs (lv, y)"
  by (induction xs) auto

lemma lv_est_hits_ge:
  assumes "levels_ok tabs" and "fst x < length tabs"
  shows "min 15 (lv_est tabs x + count_list xs x) \<le> lv_est (fold lv_hit xs tabs) x"
proof -
  have t: "table_ok (tabs ! fst x)" using assms by (rule levels_ok_nth)
  have "count_list (map snd (filter (\<lambda>y. fst y = fst x) xs)) (snd x) = count_list xs x"
    by (simp add: count_list_level)
  then show ?thesis
    using mx.est_hits_ge [OF t, of "snd x" "map snd (filter (\<lambda>y. fst y = fst x) xs)"]
    by (simp add: lv_est_def lv_hits_nth assms(2))
qed

lemma lv_est_reset:
  "levels_ok tabs \<Longrightarrow> fst x < length tabs \<Longrightarrow>
     lv_est (map reset_table tabs) x = lv_est tabs x div 2"
  by (simp add: lv_est_def mx.est_halve levels_ok_nth)

lemma levels_ok_reset: "levels_ok tabs \<Longrightarrow> levels_ok (map reset_table tabs)"
  by (simp add: levels_ok_def table_ok_def)

subsection \<open>Node operations on a sketch\<close>

definition mx_node :: "u64 \<Rightarrow> int \<Rightarrow> bool \<Rightarrow> nat \<times> int \<Rightarrow> node" where
  "mx_node unit_id base is_lazy x = (fst x, is_lazy, mx_hash unit_id base (snd x))"

lemma fst_mx_node [simp]: "fst (mx_node unit_id base l x) = fst x"
  by (simp add: mx_node_def)

lemma vec_at_nat: "lv < length xs \<Longrightarrow> vec_at xs (int lv) = Some (xs ! lv)"
  by (simp add: vec_at_def)

lemma mx_levelD:
  assumes "levels_ok (mx_mix_counters s)" and "lv < length (mx_mix_counters s)"
  shows "vec_at (mx_mix_counters s) (int lv) = Some (mx_mix_counters s ! lv)"
    and "table_ok (mx_mix_counters s ! lv)"
  using assms by (simp_all add: vec_at_nat levels_ok_nth)

lemma mx_get_lazy_eq:
  assumes "levels_ok (mx_mix_counters s)" and "lv < length (mx_mix_counters s)"
  shows "mx_get_lazy_add_cnt s unit_id base start end (int lv)
     = Some (int (lv_est (mx_mix_counters s) (mx_node unit_id base True (lv, start))))"
  using mx_min_count_est [OF mx_levelD(2) [OF assms]]
  by (simp add: mx_get_lazy_add_cnt_def mx_levelD(1) [OF assms] lv_est_def mx_node_def)

lemma mx_get_dyadic_eq:
  assumes "levels_ok (mx_mix_counters s)" and "lv < length (mx_mix_counters s)"
  shows "mx_get_dyadic_cnt s unit_id base start end (int lv)
     = Some (i32 (int (lv_est (mx_mix_counters s) (mx_node unit_id base False (lv, start)))
               * i32 (end - start)))"
  using mx_min_count_est [OF mx_levelD(2) [OF assms]]
  by (simp add: mx_get_dyadic_cnt_def mx_levelD(1) [OF assms] lv_est_def mx_node_def)

lemma mx_inc_lazy_eq:
  assumes "levels_ok (mx_mix_counters s)" and "lv < length (mx_mix_counters s)"
  shows "mx_inc_lazy_add_cnt s unit_id base start end (int lv) = Some (s\<lparr>
     mx_mix_counters := lv_hit (mx_node unit_id base True (lv, start)) (mx_mix_counters s),
     mx_size := i32 (mx_size s + i32 (end - start))\<rparr>)"
  using mx_increment_four_hit [OF mx_levelD(2) [OF assms]]
  by (simp add: mx_inc_lazy_add_cnt_def mx_levelD(1) [OF assms] lv_hit_def mx_node_def)

lemma mx_inc_dyadic_eq:
  assumes "levels_ok (mx_mix_counters s)" and "lv < length (mx_mix_counters s)"
  shows "mx_inc_dyadic_cnt s unit_id base start end 1 (int lv) = Some (s\<lparr>
     mx_mix_counters := lv_hit (mx_node unit_id base False (lv, start)) (mx_mix_counters s),
     mx_size := i32 (mx_size s + 1)\<rparr>)"
  using mx_increment_four_hit [OF mx_levelD(2) [OF assms]]
  by (simp add: mx_inc_dyadic_cnt_def mx_levelD(1) [OF assms] lv_hit_def mx_node_def)

subsection \<open>Invariant\<close>

text \<open>Every level has a table of a power of two of words, the tree is deep enough for the blocks of a
  unit, and no sum of counters leaves \<open>int\<close>.\<close>

definition mx_blocks :: "mix_sketch \<Rightarrow> int" where
  "mx_blocks s = int (unat (mx_unit_size s div mx_granularity s))"

definition mx_depth :: "mix_sketch \<Rightarrow> nat" where
  "mx_depth s = length (mx_mix_counters s) - 1"

definition mx_ok :: "mix_sketch \<Rightarrow> bool" where
  "mx_ok s \<longleftrightarrow> levels_ok (mx_mix_counters s) \<and> 0 < length (mx_mix_counters s) \<and>
     mx_counter_level s = int (length (mx_mix_counters s)) \<and>
     unit_ok (mx_granularity s) (mx_unit_size s) \<and> mx_blocks s \<le> 2 ^ mx_depth s"

lemma log2_floor_power: "log2_floor (2 ^ k) = k"
proof (induction k)
  case 0
  then show ?case by (simp add: log2_floor.simps [of "Suc 0"])
next
  case (Suc k)
  have "\<not> (2 :: nat) ^ Suc k < 2" by simp
  then show ?case using Suc by (simp add: log2_floor.simps [of "2 * 2 ^ k"])
qed

lemma mx_push_levels_ok:
  "i \<le> Suc k \<Longrightarrow> k \<le> 30 \<Longrightarrow> levels_ok tabs \<Longrightarrow>
     \<exists>tabs'. mx_push_levels i (2 ^ k) tabs = Inr tabs' \<and> levels_ok tabs' \<and>
        length tabs' = length tabs + i \<and> (\<forall>t\<in>set tabs'. t \<in> set tabs \<or> set t \<subseteq> {0})"
proof (induction i arbitrary: k tabs)
  case (Suc i)
  have t: "table_ok (replicate (2 ^ k) 0)"
    using Suc.prems(2) by (auto simp: table_ok_def)
  have ok: "levels_ok (tabs @ [replicate (2 ^ k) 0])" using Suc.prems(3) t by (simp add: levels_ok_def)
  show ?case
  proof (cases i)
    case 0
    then show ?thesis using ok by (auto simp: nat_power_eq)
  next
    case (Suc j)
    then obtain k' where k': "k = Suc k'" using Suc.prems(1) by (cases k) auto
    have half: "(2 :: int) ^ k sdiv 2 = 2 ^ k'" by (simp add: k' signed_divide_int_def sgn_if)
    obtain tabs' where "mx_push_levels i (2 ^ k') (tabs @ [replicate (2 ^ k) 0]) = Inr tabs'"
        "levels_ok tabs'" "length tabs' = Suc (length tabs) + i"
        "\<forall>t\<in>set tabs'. t \<in> set (tabs @ [replicate (2 ^ k) 0]) \<or> set t \<subseteq> {0}"
      using Suc.IH [of k', OF _ _ ok] Suc.prems(1,2) k' by auto
    then show ?thesis by (auto simp: half nat_power_eq)
  qed
qed simp

text \<open>A table without a set bit counts nothing.\<close>

lemma lv_est_zero:
  assumes "levels_ok tabs" and "\<forall>t\<in>set tabs. set t \<subseteq> {0}" and "fst x < length tabs"
  shows "lv_est tabs x = 0"
proof -
  let ?t = "tabs ! fst x"
  have ok: "table_ok ?t" using assms(1,3) by (rule levels_ok_nth)
  have "cell ?t k = 0" if "k \<in> set (mx_addr (length ?t) (snd x))" for k
  proof -
    have "?t ! fst k \<in> set ?t" using mx.addr_in [OF ok that] by simp
    then have "?t ! fst k = 0" using assms(2,3) by auto
    then show ?thesis by (simp add: cell_def)
  qed
  then have "\<not> 1 \<le> lv_est tabs x"
    unfolding lv_est_def mx.est_ge_iff using mx.addr_nonempty [of "length ?t" "snd x"]
    by (metis One_nat_def last_in_set not_less_eq_eq zero_le)
  then show ?thesis by simp
qed

text \<open>The constructor establishes the invariant when the lowest table has at least as many words as
  the tree has leaves.\<close>

lemma mx_new_ok:
  assumes "0 < n" and "n \<le> 2 ^ 30" and "unit_ok g u" and "int (unat (u div g)) \<le> n"
  shows "\<exists>s. mx_new n g u = Inr s \<and> mx_ok s \<and>
    (\<forall>x. fst x < length (mx_mix_counters s) \<longrightarrow> lv_est (mx_mix_counters s) x = 0) \<and>
    mx_granularity s = g \<and> mx_unit_size s = u \<and> \<not> mx_doing_reset s"
proof -
  obtain k where k: "k \<le> 31" "unat (nearest_power_of_two (word_of_int n)) = 2 ^ k"
      "n \<le> 2 ^ k" "\<And>j. n \<le> 2 ^ j \<Longrightarrow> k \<le> j"
    using capacity_pow2 [of n] assms(1,2) by auto
  have k30: "k \<le> 30" using k(4) [of 30] assms(2) by simp
  have g: "g \<noteq> 0" "0 < unat g" "0 < unat u" "unat g dvd unat u"
    using assms(3) by (auto simp: unit_ok_def unat_gt_0)
  define N where "N = unat (u div g)"
  have N1: "1 \<le> N" using g by (auto simp: N_def unat_div_mod Suc_le_eq div_greater_zero_iff dvd_imp_le)
  have "int N \<le> 2 ^ 30" by (rule order_trans [OF assms(4) [folded N_def] assms(2)])
  then have N2: "N \<le> 2 ^ 30" by simp
  have Nu: "unat (ucast (u div g) :: u32) = N"
    using N2 by (simp add: unsigned_ucast_eq take_bit_nat_eq_self N_def)
  obtain d where d: "nearest_power_of_two (ucast (u div g)) = 2 ^ d" "d \<le> 31" "N \<le> 2 ^ d"
      "\<And>j. N \<le> 2 ^ j \<Longrightarrow> d \<le> j"
    using nearest_power_of_two_least [of "ucast (u div g)"] N1 N2 by (auto simp: Nu)
  have "int N \<le> 2 ^ d" using d(3) by simp
  then have dN: "int (unat (u div g)) \<le> 2 ^ d" by (simp only: N_def)
  have dk: "d \<le> k"
  proof (rule d(4))
    have "int N \<le> 2 ^ k" using assms(4) k(3) by (simp add: N_def)
    then show "N \<le> 2 ^ k" by simp
  qed
  have ud: "unat (2 ^ d :: u32) = 2 ^ d" and nz: "(2 ^ d :: u32) \<noteq> 0"
    using d(2) by (simp_all add: unat_2_power)
  have "(2 :: int) ^ k \<le> 2 ^ 30" using k30 by (intro power_increasing) simp_all
  then have ub: "(2 :: int) ^ k \<le> 1073741824" by simp
  have lb: "0 \<le> (2 :: int) ^ k" by simp
  have eq: "uint (nearest_power_of_two (word_of_int n)) = 2 ^ k"
    using k(2) by (metis of_nat_numeral of_nat_power uint_nat)
  have size: "i32 (uint (nearest_power_of_two (word_of_int n))) = 2 ^ k"
    unfolding eq by (rule i32_id) (use lb ub in linarith)+
  obtain tabs where tabs: "mx_push_levels (Suc d) (2 ^ k) [] = Inr tabs" "levels_ok tabs"
      "length tabs = Suc d" "\<forall>t\<in>set tabs. set t \<subseteq> {0}"
    using mx_push_levels_ok [of "Suc d" k "[]"] dk k30 by (auto simp: levels_ok_def)
  let ?s = "\<lparr>mx_mix_counters = tabs, mx_counter_level = int (Suc d), mx_size = 0, mx_ref_cnt = 0,
        mx_capacity = n, mx_soft_reset_idx = 0, mx_doing_reset = False, mx_granularity = g,
        mx_unit_size = u\<rparr>"
  have "mx_new n g u = Inr ?s"
    using assms(1) g(1) d(1) nz tabs(1)
    by (simp add: mx_new_def mx_change_capacity_def cpp_simps Let_def ud log2_floor_power size
        del: mx_push_levels.simps)
  moreover have "mx_ok ?s"
    using tabs(2,3) assms(3) dN by (simp add: mx_ok_def mx_blocks_def mx_depth_def)
  moreover have "lv_est (mx_mix_counters ?s) x = 0" if "fst x < length (mx_mix_counters ?s)" for x
    using lv_est_zero [OF tabs(2,4), of x] that by simp
  ultimately show ?thesis by (intro exI [of _ ?s]) simp
qed

subsection \<open>Geometry of an access\<close>

definition mx_left :: "mix_sketch \<Rightarrow> u64 \<Rightarrow> int" where
  "mx_left s t = int (unat t mod unat (mx_unit_size s) div unat (mx_granularity s))"

definition mx_right :: "mix_sketch \<Rightarrow> u64 \<Rightarrow> u64 \<Rightarrow> int" where
  "mx_right s t sz = int (unat (t + sz) mod unat (mx_unit_size s) div unat (mx_granularity s))"

definition mx_base :: "mix_sketch \<Rightarrow> u64 \<Rightarrow> int" where
  "mx_base s t = int_of_u64 (t div mx_unit_size s * (mx_unit_size s div mx_granularity s))"

lemma mx_access:
  assumes "mx_ok s"
  shows "block_bounds (mx_granularity s) (mx_unit_size s) t sz = Some (mx_left s t, mx_right s t sz)"
    and "unit_base (mx_granularity s) (mx_unit_size s) t = Some (mx_base s t)"
    and "unit_end (mx_granularity s) (mx_unit_size s) = Some (mx_blocks s)"
    and "in_node (mx_depth s) (mx_left s t) (mx_right s t sz) 0 (mx_blocks s)"
    and "0 < mx_blocks s" and "mx_blocks s \<le> INT_MAX"
proof -
  let ?g = "mx_granularity s" and ?u = "mx_unit_size s"
  have ok: "unit_ok ?g ?u" using assms by (simp add: mx_ok_def)
  then have u: "?u \<noteq> 0" by (simp add: unit_ok_def)
  obtain l r where lr: "block_bounds ?g ?u t sz = Some (l, r)" "0 \<le> l" "l < int (unat (?u div ?g))"
      "0 \<le> r" "r < int (unat (?u div ?g))"
      "l = int (unat t mod unat ?u div unat ?g)" "r = int (unat (t + sz) mod unat ?u div unat ?g)"
    using block_bounds_ok [OF ok] by metis
  then show "block_bounds ?g ?u t sz = Some (mx_left s t, mx_right s t sz)"
    by (simp add: mx_left_def mx_right_def)
  show "in_node (mx_depth s) (mx_left s t) (mx_right s t sz) 0 (mx_blocks s)"
    using lr(2-5) assms unfolding lr(6,7) by (simp add: in_node_def mx_left_def mx_right_def
        mx_blocks_def mx_ok_def)
  show "0 < mx_blocks s" using lr(2,3) unfolding mx_blocks_def by linarith
  have "unat (?u div ?g) < 2147483647" using ok by (simp add: unit_ok_def unat_div_mod)
  then show "mx_blocks s \<le> INT_MAX" unfolding mx_blocks_def by linarith
  show "unit_base ?g ?u t = Some (mx_base s t)"
    using unit_blocks_Some [OF ok] u by (simp add: unit_base_def cpp_simps mx_base_def)
  show "unit_end ?g ?u = Some (mx_blocks s)"
    using unit_blocks_Some [OF ok] \<open>unat (?u div ?g) < 2147483647\<close>
    by (simp add: unit_end_def int_of_u64_small mx_blocks_def)
qed

text \<open>How many accesses of a history cover block \<open>x\<close> of the unit with id \<open>unit_id\<close> at \<open>base\<close>.\<close>

type_synonym access = "u64 \<times> u64 \<times> u64"

definition covering :: "mix_sketch \<Rightarrow> access list \<Rightarrow> u64 \<Rightarrow> int \<Rightarrow> int \<Rightarrow> nat" where
  "covering s as unit_id base x = length (filter (\<lambda>(u, t, sz).
     u = unit_id \<and> mx_base s t = base \<and> mx_left s t \<le> x \<and> x < mx_right s t sz) as)"

text \<open>Two sketches of the same shape.\<close>

definition mx_same :: "mix_sketch \<Rightarrow> mix_sketch \<Rightarrow> bool" where
  "mx_same s s' \<longleftrightarrow> mx_granularity s' = mx_granularity s \<and> mx_unit_size s' = mx_unit_size s \<and>
     mx_counter_level s' = mx_counter_level s \<and> mx_doing_reset s' = mx_doing_reset s \<and>
     length (mx_mix_counters s') = length (mx_mix_counters s)"

lemma mx_same_geometry:
  assumes "mx_same s s'"
  shows "mx_left s' = mx_left s" "mx_right s' = mx_right s" "mx_base s' = mx_base s"
    "mx_blocks s' = mx_blocks s" "mx_depth s' = mx_depth s"
  using assms
  by (simp_all add: mx_same_def mx_left_def mx_right_def mx_base_def mx_blocks_def mx_depth_def fun_eq_iff)

lemma mx_same_ok: "mx_same s s' \<Longrightarrow> mx_ok s \<Longrightarrow> levels_ok (mx_mix_counters s') \<Longrightarrow> mx_ok s'"
  using mx_same_geometry [of s s'] by (auto simp: mx_ok_def mx_same_def)

lemma mx_ok_depth:
  assumes "mx_ok s"
  shows "mx_counter_level s = int (Suc (mx_depth s))" and "mx_depth s < length (mx_mix_counters s)"
    and "levels_ok (mx_mix_counters s)"
  using assms by (simp_all add: mx_ok_def mx_depth_def)

text \<open>\<open>int mid = start + (end - start)/2\<close> does not overflow on block numbers.\<close>

lemma mid_eq:
  assumes "0 \<le> s" and "s < e" and "e \<le> INT_MAX"
  shows "i32 (s + i32 (e - s) sdiv 2) = midpoint s e"
proof -
  have "i32 (e - s) = e - s" by (rule i32_id) (use assms in linarith)+
  moreover have "(e - s) sdiv 2 = (e - s) div 2"
    using assms by (simp add: signed_divide_int_def sgn_if)
  moreover have "i32 (midpoint s e) = midpoint s e"
    by (rule i32_id) (use assms midpoint_bounds [of s e] in linarith)+
  ultimately show ?thesis by (simp add: midpoint_def)
qed

subsection \<open>A small sketch for examples\<close>

abbreviation mx_demo :: mix_sketch where
  "mx_demo \<equiv> \<lparr>mx_mix_counters = [[0, 0, 0, 0], [0, 0], [0]], mx_counter_level = 3, mx_size = 0,
     mx_ref_cnt = 0, mx_capacity = 4, mx_soft_reset_idx = 0, mx_doing_reset = False,
     mx_granularity = 4, mx_unit_size = 16\<rparr>"

lemma mx_demo_new: "mx_new 4 4 16 = Inr mx_demo"
  by code_simp

lemma mx_demo_geometry:
  "mx_left mx_demo 0 = 0" "mx_right mx_demo 0 8 = 2" "mx_base mx_demo 0 = 0" "mx_blocks mx_demo = 4"
  by (simp_all add: mx_left_def mx_right_def mx_base_def mx_blocks_def int_of_u64_def)

lemma mx_demo_ok: "mx_ok mx_demo"
proof -
  have "unit_ok 4 16" by (simp add: unit_ok_def)
  then show ?thesis using mx_new_ok [of 4 4 16] mx_demo_new by simp
qed

subsection \<open>Aging, on counts\<close>

lemma mx_reset_ok: "mx_ok s \<Longrightarrow> mx_ok (mx_reset s)"
  by (simp add: mx_ok_def mx_reset_def levels_ok_reset mx_blocks_def mx_depth_def)

lemma mx_reset_est:
  "mx_ok s \<Longrightarrow> fst x < length (mx_mix_counters s) \<Longrightarrow>
     lv_est (mx_mix_counters (mx_reset s)) x = lv_est (mx_mix_counters s) x div 2"
  by (simp add: mx_ok_def mx_reset_def lv_est_reset)

end
