(* ===== verification/Interval.thy ===== *)
theory Interval
  imports Level_Table
begin

section \<open>The interval sketch (\<open>benchmark/structures/interval_sketch.hpp\<close>)\<close>

text \<open>
  The class \<open>interval_sketch<uint64_t>\<close>. An access increments the dyadic counter of every node of the
  tree that it visits on the way to its blocks; a query adds up, over the nodes that make up the
  queried range, the counter of the node times its number of blocks. The recursions are partial
  functions: a failed assertion, an access outside the tables and a recursion that does not return
  are all \<^const>\<open>None\<close>, and the lemmas show that from the class's own entry points they return.
\<close>

subsection \<open>Operations\<close>

text \<open>The members that the class has in common with \<open>gxj_range_frequency_sketch\<close>, text for text, are
  those of \<open>Level_Table\<close>.\<close>

abbreviation iv_change_capacity where "iv_change_capacity \<equiv> mx_change_capacity"
abbreviation iv_new where "iv_new \<equiv> mx_new"
abbreviation iv_table_index where "iv_table_index \<equiv> table_index"
abbreviation iv_offset_multiplier where "iv_offset_multiplier \<equiv> mx_offset_multiplier"
abbreviation iv_counter_offset where "iv_counter_offset \<equiv> mx_counter_offset"
abbreviation iv_get_count where "iv_get_count \<equiv> mx_get_count"
abbreviation iv_try_increment_counter_at_with_value where "iv_try_increment_counter_at_with_value \<equiv> mx_try_increment_counter_at_with_value"
abbreviation iv_get_dyadic_cnt where "iv_get_dyadic_cnt \<equiv> mx_get_dyadic_cnt"
abbreviation iv_inc_dyadic_cnt where "iv_inc_dyadic_cnt \<equiv> mx_inc_dyadic_cnt"
abbreviation iv_soft_reset where "iv_soft_reset \<equiv> mx_soft_reset"
abbreviation iv_must_reset where "iv_must_reset \<equiv> mx_must_reset"
abbreviation iv_reset where "iv_reset \<equiv> mx_reset"
abbreviation iv_sampling_size where "iv_sampling_size \<equiv> mx_sampling_size"

partial_function (option) iv_inner_frequency ::
    "mix_sketch \<Rightarrow> u64 \<Rightarrow> int \<Rightarrow> int \<Rightarrow> int \<Rightarrow> int \<Rightarrow> int \<Rightarrow> int \<Rightarrow> int option" where
  "iv_inner_frequency s unit_id base left right start end upper_level =
     (if \<not> (start \<le> left \<and> right \<le> end) then None
      else if left = start \<and> right = end
      then do {
        dyadic_cnt \<leftarrow> iv_get_dyadic_cnt s unit_id base start end (upper_level - 1);
        Some (i32 (0 + dyadic_cnt))
      }
      else
        let mid = i32 (start + i32 (end - start) sdiv 2)
        in do {
          sum_frequency \<leftarrow>
            (if mid > left
             then do {
               f \<leftarrow> iv_inner_frequency s unit_id base left (min mid right) start mid (upper_level - 1);
               Some (i32 (0 + f))
             }
             else Some 0);
          if mid < right
          then do {
            f \<leftarrow> iv_inner_frequency s unit_id base (max left mid) right mid end (upper_level - 1);
            Some (i32 (sum_frequency + f))
          }
          else Some sum_frequency
        })"

definition iv_frequency :: "mix_sketch \<Rightarrow> u64 \<Rightarrow> u64 \<Rightarrow> u64 \<Rightarrow> int option" where
  "iv_frequency s unit_id t sz =
     do {
       (left, right) \<leftarrow> block_bounds (mx_granularity s) (mx_unit_size s) t sz;
       base \<leftarrow> unit_base (mx_granularity s) (mx_unit_size s) t;
       end \<leftarrow> unit_end (mx_granularity s) (mx_unit_size s);
       iv_inner_frequency s unit_id base left right 0 end (mx_counter_level s)
     }"

definition iv_avg_frequency :: "mix_sketch \<Rightarrow> u64 \<Rightarrow> u64 \<Rightarrow> u64 \<Rightarrow> int option" where
  "iv_avg_frequency s unit_id t sz =
     do {
       (left, right) \<leftarrow> block_bounds (mx_granularity s) (mx_unit_size s) t sz;
       let cnt = right - left;
       sum_frequency \<leftarrow> iv_frequency s unit_id t sz;
       idiv sum_frequency cnt
     }"

partial_function (option) iv_inner_record_access ::
    "mix_sketch \<Rightarrow> u64 \<Rightarrow> int \<Rightarrow> int \<Rightarrow> int \<Rightarrow> int \<Rightarrow> int \<Rightarrow> int \<Rightarrow> mix_sketch option" where
  "iv_inner_record_access s unit_id base left right start end upper_level =
     (if \<not> (start \<le> left \<and> right \<le> end) then None
      else do {
        s \<leftarrow> iv_inc_dyadic_cnt s unit_id base start end 1 (upper_level - 1);
        if start = i32 (end - 1) then Some s
        else
          let mid = i32 (start + i32 (end - start) sdiv 2)
          in do {
            s \<leftarrow>
              (if mid > left
               then iv_inner_record_access s unit_id base left (min mid right) start mid (upper_level - 1)
               else Some s);
            if mid < right
            then iv_inner_record_access s unit_id base (max left mid) right mid end (upper_level - 1)
            else Some s
          }
      })"

definition iv_record_access :: "mix_sketch \<Rightarrow> u64 \<Rightarrow> u64 \<Rightarrow> u64 \<Rightarrow> mix_sketch option" where
  "iv_record_access s unit_id t sz =
     (if mx_doing_reset s then Some s
      else do {
        (left, right) \<leftarrow> block_bounds (mx_granularity s) (mx_unit_size s) t sz;
        base \<leftarrow> unit_base (mx_granularity s) (mx_unit_size s) t;
        end \<leftarrow> unit_end (mx_granularity s) (mx_unit_size s);
        let s = s\<lparr>mx_ref_cnt := i32 (mx_ref_cnt s + 1)\<rparr>;
        iv_inner_record_access s unit_id base left right 0 end (mx_counter_level s)
      })"

declare iv_inner_frequency.simps [code]
declare iv_inner_record_access.simps [code]

subsection \<open>The recursions return\<close>

abbreviation iv_count :: "mix_sketch \<Rightarrow> u64 \<Rightarrow> int \<Rightarrow> nat \<times> int \<Rightarrow> nat" where
  "iv_count s unit_id base x \<equiv> lv_est (mx_mix_counters s) (mx_node unit_id base False x)"

lemma iv_inner_frequency_eq:
  assumes "levels_ok (mx_mix_counters s)" and "k < length (mx_mix_counters s)"
    and "in_node k l r st en" and "0 \<le> st" and "15 * en \<le> INT_MAX"
  shows "iv_inner_frequency s unit_id base l r st en (int (Suc k))
           = Some (cover_weight (iv_count s unit_id base) (Suc k) l r st en)"
  using assms(2-5)
proof (induction k arbitrary: l r st en)
  case 0
  let ?c = "iv_count s unit_id base"
  have en: "en = st + 1" "l = st" "r = st \<or> r = en" using in_node_0 [OF 0(2)] by auto
  have m: "i32 (st + i32 (en - st) sdiv 2) = midpoint st en"
    using 0 en by (intro mid_eq) auto
  have c: "0 \<le> int (?c (0, st))" "int (?c (0, st)) \<le> 15" using lv_est_le by simp_all
  have "mx_get_dyadic_cnt s unit_id base st en 0 = Some (int (?c (0, st)))"
    using mx_get_dyadic_eq [OF assms(1), of 0] 0(1) en(1) c by simp
  then show ?case
    using en m c by (subst iv_inner_frequency.simps)
      (auto simp: cover_weight_Suc midpoint_unit Let_def)
next
  case (Suc k)
  let ?c = "iv_count s unit_id base" and ?m = "midpoint st en"
  have w: "0 \<le> cover_weight ?c (Suc k') l' r' s' e' \<and>
      cover_weight ?c (Suc k') l' r' s' e' \<le> 15 * (if l' < r' then r' - l' else 0)"
    if "in_node k' l' r' s' e'" for k' l' r' s' e'
    using that lv_est_le by (rule cover_weight_bounds)
  have n: "st \<le> l" "l < en" "st \<le> r" "r \<le> en" using Suc.prems(2) by (auto simp: in_node_def)
  have mb: "st \<le> ?m" "?m < en" using midpoint_bounds [of st en] n by auto
  have m: "i32 (st + i32 (en - st) sdiv 2) = ?m" using Suc.prems n by (intro mid_eq) auto
  show ?case
  proof (cases "l = st \<and> r = en")
    case True
    have e: "i32 (en - st) = en - st" by (rule i32_id) (use Suc.prems n in linarith)+
    define X where "X = int (?c (Suc k, st)) * (en - st)"
    from w [OF \<open>in_node (Suc k) l r st en\<close>] True n have b: "0 \<le> X" "X \<le> 15 * (en - st)"
      by (simp_all only: cover_weight_Suc X_def) auto
    have "X \<le> 15 * en" using b(2) Suc.prems(3) by simp
    then have i: "i32 X = X" using b(1) Suc.prems(4) by simp
    have "mx_get_dyadic_cnt s unit_id base st en (int (Suc k)) = Some X"
      using mx_get_dyadic_eq [OF assms(1) Suc.prems(1)] by (simp only: e X_def [symmetric] i)
    then show ?thesis
      using True i n by (subst iv_inner_frequency.simps)
        (simp add: cover_weight_Suc X_def [symmetric])
  next
    case False
    define A where "A = (if ?m > l then cover_weight ?c (Suc k) l (min ?m r) st ?m else 0)"
    define B where "B = (if ?m < r then cover_weight ?c (Suc k) (max l ?m) r ?m en else 0)"
    have A: "iv_inner_frequency s unit_id base l (min ?m r) st ?m (int (Suc k)) = Some A"
        "0 \<le> A" "A \<le> 15 * ?m" if "?m > l"
      using Suc.IH [OF _ in_node_left [OF Suc.prems(2) that]] w [OF in_node_left [OF Suc.prems(2) that]]
        Suc.prems mb that n by (auto simp: A_def split: if_splits)
    have B: "iv_inner_frequency s unit_id base (max l ?m) r ?m en (int (Suc k)) = Some B"
        "0 \<le> B" "B \<le> 15 * (en - ?m)" if "?m < r"
      using Suc.IH [OF _ in_node_right [OF Suc.prems(2) that]] w [OF in_node_right [OF Suc.prems(2) that]]
        Suc.prems mb that n by (auto simp: B_def split: if_splits)
    have A0: "0 \<le> A" "A \<le> 15 * ?m" using A(2,3) mb Suc.prems(3) by (cases "?m > l"; simp add: A_def)+
    have B0: "0 \<le> B" "B \<le> 15 * (en - ?m)" using B(2,3) mb by (cases "?m < r"; simp add: B_def)+
    have "A + B \<le> 15 * en" using A0(2) B0(2) by simp
    then have i: "i32 A = A" "i32 (A + B) = A + B" using A0(1) B0(1) Suc.prems(4) by simp_all
    have "(if ?m > l then do {
               f \<leftarrow> iv_inner_frequency s unit_id base l (min ?m r) st ?m (int (Suc k));
               Some (i32 (0 + f))
             } else Some 0) = Some A"
      using A(1) i(1) by (auto simp: A_def)
    moreover have "(if ?m < r then do {
            f \<leftarrow> iv_inner_frequency s unit_id base (max l ?m) r ?m en (int (Suc k));
            Some (i32 (A + f))
          } else Some A) = Some (A + B)"
      using B(1) i(2) by (auto simp: B_def)
    moreover have "int (Suc (Suc k)) - 1 = int (Suc k)" by simp
    moreover have "cover_weight ?c (Suc (Suc k)) l r st en = A + B"
      using False by (simp only: cover_weight_Suc [of _ "Suc k"] if_False A_def B_def)
    ultimately show ?thesis
      using False n by (subst iv_inner_frequency.simps) (simp only: m Let_def if_False if_True simp_thms
          Option.bind.bind_lunit)
  qed
qed

text \<open>The nodes an access increments, and the state it leaves.\<close>

abbreviation iv_hits :: "u64 \<Rightarrow> int \<Rightarrow> (nat \<times> int) list \<Rightarrow> mix_sketch \<Rightarrow> u64 list list" where
  "iv_hits unit_id base xs s \<equiv> fold lv_hit (map (mx_node unit_id base False) xs) (mx_mix_counters s)"

lemma iv_inner_record_eq:
  assumes "levels_ok (mx_mix_counters s)" and "k < length (mx_mix_counters s)"
    and "in_node k l r st en" and "0 \<le> st" and "en \<le> INT_MAX"
  shows "\<exists>z. iv_inner_record_access s unit_id base l r st en (int (Suc k))
           = Some (s\<lparr>mx_mix_counters := iv_hits unit_id base (visited (Suc k) l r st en) s, mx_size := z\<rparr>)"
  using assms
proof (induction k arbitrary: s l r st en)
  case 0
  have en: "en = st + 1" "l = st" "r = st \<or> r = en" using in_node_0 [OF 0(3)] by auto
  have "i32 (en - 1) = st" using 0 en by simp
  moreover have "mx_inc_dyadic_cnt s unit_id base st en 1 0 = Some (s\<lparr>
     mx_mix_counters := lv_hit (mx_node unit_id base False (0, st)) (mx_mix_counters s),
     mx_size := i32 (mx_size s + 1)\<rparr>)"
    using mx_inc_dyadic_eq [OF 0(1,2)] by simp
  ultimately show ?case
    using en by (subst iv_inner_record_access.simps) auto
next
  case (Suc k)
  let ?m = "midpoint st en" and ?nd = "mx_node unit_id base False"
  have n: "st \<le> l" "l < en" "st \<le> r" "r \<le> en" using Suc.prems(3) by (auto simp: in_node_def)
  have mb: "st \<le> ?m" "?m < en" using midpoint_bounds [of st en] n by auto
  have m: "i32 (st + i32 (en - st) sdiv 2) = ?m" using Suc.prems n by (intro mid_eq) auto
  have e1: "i32 (en - 1) = en - 1" by (rule i32_id) (use Suc.prems n in linarith)+
  define s1 where "s1 = s\<lparr>mx_mix_counters := lv_hit (?nd (Suc k, st)) (mx_mix_counters s),
      mx_size := i32 (mx_size s + 1)\<rparr>"
  have inc: "mx_inc_dyadic_cnt s unit_id base st en 1 (int (Suc k)) = Some s1"
    using mx_inc_dyadic_eq [OF Suc.prems(1,2), of unit_id base st en] by (simp add: s1_def)
  have s1: "levels_ok (mx_mix_counters s1)" "length (mx_mix_counters s1) = length (mx_mix_counters s)"
    using Suc.prems(1) by (simp_all add: s1_def levels_ok_hit)
  have lvl: "int (Suc (Suc k)) - 1 = int (Suc k)" by simp
  show ?case
  proof (cases "st = en - 1")
    case True
    then show ?thesis
      using n inc e1 by (subst iv_inner_record_access.simps)
        (auto simp: lvl s1_def intro: exI [of _ "i32 (mx_size s + 1)"])
  next
    case False
    let ?L = "visited (Suc k) l (min ?m r) st ?m" and ?R = "visited (Suc k) (max l ?m) r ?m en"
    obtain z where z: "(if ?m > l
          then iv_inner_record_access s1 unit_id base l (min ?m r) st ?m (int (Suc k)) else Some s1)
        = Some (s1\<lparr>mx_mix_counters := iv_hits unit_id base (if ?m > l then ?L else []) s1, mx_size := z\<rparr>)"
    proof (cases "?m > l")
      case True
      then show thesis
        using that Suc.IH [OF s1(1) _ in_node_left [OF Suc.prems(3) True]] Suc.prems s1(2) mb by auto
    next
      case False
      then show thesis using that [of "mx_size s1"] by simp
    qed
    define s2 where "s2 = s1\<lparr>mx_mix_counters := iv_hits unit_id base (if ?m > l then ?L else []) s1,
        mx_size := z\<rparr>"
    have s2: "levels_ok (mx_mix_counters s2)" "length (mx_mix_counters s2) = length (mx_mix_counters s)"
      using s1 by (simp_all add: s2_def levels_ok_hits)
    obtain z' where z': "(if ?m < r
          then iv_inner_record_access s2 unit_id base (max l ?m) r ?m en (int (Suc k)) else Some s2)
        = Some (s2\<lparr>mx_mix_counters := iv_hits unit_id base (if ?m < r then ?R else []) s2, mx_size := z'\<rparr>)"
    proof (cases "?m < r")
      case True
      then show thesis
        using that Suc.IH [OF s2(1) _ in_node_right [OF Suc.prems(3) True]] Suc.prems s2(2) mb by auto
    next
      case False
      then show thesis using that [of "mx_size s2"] by simp
    qed
    have "iv_inner_record_access s unit_id base l r st en (int (Suc (Suc k)))
        = Some (s2\<lparr>mx_mix_counters := iv_hits unit_id base (if ?m < r then ?R else []) s2, mx_size := z'\<rparr>)"
      using False n z z' by (subst iv_inner_record_access.simps)
        (simp only: inc m e1 Let_def lvl s2_def [symmetric] if_False if_True simp_thms
          Option.bind.bind_lunit)
    moreover have "visited (Suc (Suc k)) l r st en
        = (Suc k, st) # (if ?m > l then ?L else []) @ (if ?m < r then ?R else [])"
      using False by (simp only: visited.simps(2) [of "Suc k"] if_False)
    ultimately show ?thesis
      by (intro exI [of _ z']) (simp add: s2_def s1_def del: visited.simps)
  qed
qed

subsection \<open>Histories\<close>

definition iv_record :: "access \<Rightarrow> mix_sketch \<Rightarrow> mix_sketch option" where
  "iv_record a s = (case a of (unit_id, t, sz) \<Rightarrow> iv_record_access s unit_id t sz)"

text \<open>The nodes of a history, from the geometry of the sketch alone.\<close>

definition iv_events :: "mix_sketch \<Rightarrow> access list \<Rightarrow> node list" where
  "iv_events s as = concat (map (\<lambda>(u, t, sz). map (mx_node u (mx_base s t) False)
     (visited (Suc (mx_depth s)) (mx_left s t) (mx_right s t sz) 0 (mx_blocks s))) as)"

lemma iv_record_step:
  assumes "mx_ok s" and "\<not> mx_doing_reset s"
  shows "\<exists>s'. iv_record a s = Some s' \<and> mx_ok s' \<and> mx_same s s' \<and>
            mx_mix_counters s' = fold lv_hit (iv_events s [a]) (mx_mix_counters s)"
proof -
  obtain u t sz where a: "a = (u, t, sz)" by (cases a)
  let ?s1 = "s\<lparr>mx_ref_cnt := i32 (mx_ref_cnt s + 1)\<rparr>"
  have lv: "levels_ok (mx_mix_counters ?s1)" "mx_depth s < length (mx_mix_counters ?s1)"
    using mx_ok_depth [OF assms(1)] by simp_all
  obtain z where "iv_inner_record_access ?s1 u (mx_base s t) (mx_left s t) (mx_right s t sz) 0
        (mx_blocks s) (int (Suc (mx_depth s)))
      = Some (?s1\<lparr>mx_mix_counters := fold lv_hit (iv_events s [a]) (mx_mix_counters s), mx_size := z\<rparr>)"
    using iv_inner_record_eq [OF lv mx_access(4) [OF assms(1)] _ mx_access(6) [OF assms(1)],
        of u "mx_base s t" t sz]
    by (auto simp: iv_events_def a simp del: visited.simps)
  then have "iv_record a s
      = Some (?s1\<lparr>mx_mix_counters := fold lv_hit (iv_events s [a]) (mx_mix_counters s), mx_size := z\<rparr>)"
    using assms(2) mx_access(1-3) [OF assms(1)] mx_ok_depth(1) [OF assms(1)]
    by (simp add: iv_record_def a iv_record_access_def)
  moreover have "mx_same s (?s1\<lparr>mx_mix_counters := fold lv_hit (iv_events s [a]) (mx_mix_counters s),
      mx_size := z\<rparr>)" by (simp add: mx_same_def)
  ultimately show ?thesis
    using mx_same_ok assms(1) lv(1) levels_ok_hits by auto
qed

lemma iv_events_Cons: "iv_events s (a # as) = iv_events s [a] @ iv_events s as"
  by (simp add: iv_events_def)

lemma iv_records:
  assumes "mx_ok s" and "\<not> mx_doing_reset s"
  shows "\<exists>s'. fold_opt iv_record as s = Some s' \<and> mx_ok s' \<and> mx_same s s' \<and>
            mx_mix_counters s' = fold lv_hit (iv_events s as) (mx_mix_counters s)"
  using assms
proof (induction as arbitrary: s)
  case Nil
  then show ?case by (simp add: mx_same_def iv_events_def)
next
  case (Cons a as)
  obtain s1 where s1: "iv_record a s = Some s1" "mx_ok s1" "mx_same s s1"
      "mx_mix_counters s1 = fold lv_hit (iv_events s [a]) (mx_mix_counters s)"
    using iv_record_step [OF Cons.prems] by blast
  have nr: "\<not> mx_doing_reset s1" using s1(3) Cons.prems(2) by (simp add: mx_same_def)
  have ev: "iv_events s1 as = iv_events s as"
    by (simp add: iv_events_def mx_same_geometry [OF s1(3)])
  obtain s' where "fold_opt iv_record as s1 = Some s'" "mx_ok s'" "mx_same s1 s'"
      "mx_mix_counters s' = fold lv_hit (iv_events s as) (mx_mix_counters s1)"
    using Cons.IH [OF s1(2) nr] by (auto simp: ev)
  moreover from this(3) s1(3) have "mx_same s s'" by (simp add: mx_same_def)
  ultimately show ?case using s1 by (subst iv_events_Cons) simp
qed

text \<open>An access that covers a block increments every node above the block.\<close>

lemma iv_events_count:
  assumes "mx_ok s" and "(j, a, b) \<in> set (cover (Suc (mx_depth s)) l r 0 (mx_blocks s))"
    and "in_node (mx_depth s) l r 0 (mx_blocks s)" and "l < r" and "a \<le> x" and "x < b"
  shows "covering s as unit_id base x \<le> count_list (iv_events s as) (mx_node unit_id base False (j, a))"
proof (induction as)
  case Nil
  then show ?case by (simp add: covering_def)
next
  case (Cons c cs)
  obtain u t sz where c: "c = (u, t, sz)" by (cases c)
  have "1 \<le> count_list (iv_events s [c]) (mx_node unit_id base False (j, a))"
    if "u = unit_id" "mx_base s t = base" "mx_left s t \<le> x" "x < mx_right s t sz"
  proof -
    have "(j, a) \<in> set (visited (Suc (mx_depth s)) (mx_left s t) (mx_right s t sz) 0 (mx_blocks s))"
      using cover_visited [OF assms(3,4,2,5,6) that(3,4)] .
    then have "mx_node unit_id base False (j, a) \<in> set (iv_events s [c])"
      using that(1,2) by (auto simp: iv_events_def c simp del: visited.simps)
    then show ?thesis by (rule count_list_pos)
  qed
  then show ?case
    using Cons by (subst iv_events_Cons) (auto simp: covering_def c count_list_append)
qed

subsection \<open>Properties\<close>

lemma iv_frequency_eq:
  assumes "mx_ok s" and "15 * mx_blocks s \<le> INT_MAX"
  shows "iv_frequency s unit_id t sz = Some (cover_weight (iv_count s unit_id (mx_base s t))
           (Suc (mx_depth s)) (mx_left s t) (mx_right s t sz) 0 (mx_blocks s))"
  using iv_inner_frequency_eq [OF mx_ok_depth(3,2) [OF assms(1)] mx_access(4) [OF assms(1)] _ assms(2)]
    mx_access(1-3) [OF assms(1)] mx_ok_depth(1) [OF assms(1)]
  by (simp add: iv_frequency_def)

text \<open>C4. The interval sketch never underestimates: after any sequence of accesses on a new sketch, no
  operation having failed, a query over the blocks from \<open>left\<close> up to \<open>right\<close> returns at least the sum
  over these blocks of the number of accesses that covered the block, each up to 15, and at most
  15 per block.\<close>

theorem iv_never_underestimates:
  assumes "0 < n" and "n \<le> 2 ^ 30" and "unit_ok g u" and "int (unat (u div g)) \<le> n"
    and "15 * int (unat (u div g)) \<le> INT_MAX" and "mx_new n g u = Inr s"
    and "mx_left s t < mx_right s t sz"
  shows "\<exists>s' f. fold_opt iv_record as s = Some s' \<and> iv_frequency s' unit_id t sz = Some f \<and>
     (\<Sum>x\<leftarrow>[mx_left s t..mx_right s t sz - 1]. int (min 15 (covering s as unit_id (mx_base s t) x))) \<le> f \<and>
     f \<le> 15 * (mx_right s t sz - mx_left s t)"
proof -
  have s: "mx_ok s" "\<not> mx_doing_reset s" "mx_blocks s = int (unat (u div g))"
      "\<And>x. fst x < length (mx_mix_counters s) \<Longrightarrow> lv_est (mx_mix_counters s) x = 0"
    using mx_new_ok [OF assms(1-4)] assms(6) by (auto simp: mx_blocks_def)
  obtain s' where s': "fold_opt iv_record as s = Some s'" "mx_ok s'" "mx_same s s'"
      "mx_mix_counters s' = fold lv_hit (iv_events s as) (mx_mix_counters s)"
    using iv_records [OF s(1,2)] by blast
  note geo = mx_same_geometry [OF s'(3)]
  let ?l = "mx_left s t" and ?r = "mx_right s t sz" and ?D = "Suc (mx_depth s)"
  let ?c = "iv_count s' unit_id (mx_base s t)"
  have nd: "in_node (mx_depth s) ?l ?r 0 (mx_blocks s)" using mx_access(4) [OF s(1)] .
  have freq: "iv_frequency s' unit_id t sz = Some (cover_weight ?c ?D ?l ?r 0 (mx_blocks s))"
    using iv_frequency_eq [OF s'(2), of unit_id t sz] assms(5) s(3) by (simp add: geo)
  have low: "int (min 15 (covering s as unit_id (mx_base s t) x)) \<le> int (?c (j, a))"
    if n: "(j, a, b) \<in> set (cover ?D ?l ?r 0 (mx_blocks s))" and x: "a \<le> x" "x < b" for j a b x
  proof -
    have j: "j < length (mx_mix_counters s)"
      using cover_in [OF nd assms(7) n] mx_ok_depth(2) [OF s(1)] by simp
    have "covering s as unit_id (mx_base s t) x
        \<le> count_list (iv_events s as) (mx_node unit_id (mx_base s t) False (j, a))"
      using iv_events_count [OF s(1) n nd assms(7) x] .
    then show ?thesis
      using lv_est_hits_ge [OF mx_ok_depth(3) [OF s(1)], of "mx_node unit_id (mx_base s t) False (j, a)"
          "iv_events s as"] j s(4) [of "mx_node unit_id (mx_base s t) False (j, a)"] s'(4)
      by simp
  qed
  have "(\<Sum>x\<leftarrow>[?l..?r - 1]. int (min 15 (covering s as unit_id (mx_base s t) x)))
      \<le> cover_weight ?c ?D ?l ?r 0 (mx_blocks s)"
    by (intro cover_weight_ge [OF nd assms(7)] low)
  moreover have "cover_weight ?c ?D ?l ?r 0 (mx_blocks s) \<le> 15 * (?r - ?l)"
    using cover_weight_bounds [OF nd, of ?c] lv_est_le assms(7) by simp
  ultimately show ?thesis using s'(1) freq by blast
qed

theorem iv_never_underestimates_witness:
  "\<exists>s' f. fold_opt iv_record [(7, 0, 8), (7, 4, 8)] mx_demo = Some s' \<and>
     iv_frequency s' 7 0 8 = Some f \<and>
     (\<Sum>x\<leftarrow>[0..1]. int (min 15 (covering mx_demo [(7, 0, 8), (7, 4, 8)] 7 0 x))) \<le> f \<and> f \<le> 30"
proof -
  have "unit_ok 4 16" by (simp add: unit_ok_def)
  then show ?thesis
    using iv_never_underestimates [of 4 4 16 mx_demo 0 8 "[(7, 0, 8), (7, 4, 8)]" 7] mx_demo_new
    by (simp add: mx_demo_geometry del: fold_opt.simps)
qed

text \<open>An access or query whose end falls on or before the block of its start, because it stays
  inside one block or because it ends in the next unit (on its boundary included), is not seen: its
  frequency is 0 whatever was recorded, and its average divides by zero inside one block.\<close>

theorem iv_wrapped_query:
  assumes "mx_ok s" and "15 * mx_blocks s \<le> INT_MAX" and "mx_right s t sz \<le> mx_left s t"
  shows "iv_frequency s unit_id t sz = Some 0 \<and>
         iv_avg_frequency s unit_id t sz = (if mx_right s t sz = mx_left s t then None else Some 0)"
proof -
  have "cover (Suc (mx_depth s)) (mx_left s t) (mx_right s t sz) 0 (mx_blocks s) = []"
    using assms(3) mx_access(4,5) [OF assms(1)] by (intro cover_empty) (auto simp: in_node_def)
  then have "iv_frequency s unit_id t sz = Some 0"
    using iv_frequency_eq [OF assms(1,2)] by (simp add: cover_weight_def)
  then show ?thesis
    using mx_access(1) [OF assms(1)]
    by (simp add: iv_avg_frequency_def idiv_def signed_divide_int_def)
qed

theorem iv_wrapped_query_witness:
  "iv_frequency mx_demo 7 8 8 = Some 0 \<and> iv_avg_frequency mx_demo 7 8 8 = Some 0"
proof -
  have "mx_left mx_demo 8 = 2" "mx_right mx_demo 8 8 = 0" "mx_blocks mx_demo = 4"
    by (simp_all add: mx_left_def mx_right_def mx_blocks_def)
  then show ?thesis using iv_wrapped_query [OF mx_demo_ok, of 8 8 7] by simp
qed

end
