(* ===== verification/Gxj.thy ===== *)
theory Gxj
  imports Level_Table
begin

section \<open>The lazy tree sketch (\<open>benchmark/structures/gxj_frequency_sketch.hpp\<close>)\<close>

text \<open>
  The class \<open>gxj_range_frequency_sketch<uint64_t>\<close>. An access increments the lazy counter of each
  maximal node of its range and, on the nodes it only meets, the dyadic counter with a probability
  that stands in for the covered share; the decision is taken from the low bits of the number of
  accesses. A query adds on its way down the lazy counts of the nodes above the range and the
  dyadic counts of the nodes that make it up. As in \<open>Interval\<close>, \<^const>\<open>None\<close> is a failed assertion,
  an access outside the tables or a recursion without end.
\<close>

subsection \<open>Operations\<close>

partial_function (option) gx_inner_frequency ::
    "mix_sketch \<Rightarrow> u64 \<Rightarrow> int \<Rightarrow> int \<Rightarrow> int \<Rightarrow> int \<Rightarrow> int \<Rightarrow> int \<Rightarrow> int option" where
  "gx_inner_frequency s unit_id base left right start end upper_level =
     (if \<not> (start \<le> left \<and> right \<le> end) then None
      else do {
        lazy_add_cnt \<leftarrow> mx_get_lazy_add_cnt s unit_id base start end (upper_level - 1);
        let sum_frequency = i32 (0 + i32 (lazy_add_cnt * i32 (right - left)));
        if left = start \<and> right = end
        then do {
          dyadic_cnt \<leftarrow> mx_get_dyadic_cnt s unit_id base start end (upper_level - 1);
          Some (i32 (sum_frequency + dyadic_cnt))
        }
        else
          let mid = i32 (start + i32 (end - start) sdiv 2)
          in do {
            sum_frequency \<leftarrow>
              (if mid > left
               then do {
                 f \<leftarrow> gx_inner_frequency s unit_id base left (min mid right) start mid (upper_level - 1);
                 Some (i32 (sum_frequency + f))
               }
               else Some sum_frequency);
            if mid < right
            then do {
              f \<leftarrow> gx_inner_frequency s unit_id base (max left mid) right mid end (upper_level - 1);
              Some (i32 (sum_frequency + f))
            }
            else Some sum_frequency
          }
      })"

definition gx_frequency :: "mix_sketch \<Rightarrow> u64 \<Rightarrow> u64 \<Rightarrow> u64 \<Rightarrow> int option" where
  "gx_frequency s unit_id t sz =
     do {
       (left, right) \<leftarrow> block_bounds (mx_granularity s) (mx_unit_size s) t sz;
       base \<leftarrow> unit_base (mx_granularity s) (mx_unit_size s) t;
       end \<leftarrow> unit_end (mx_granularity s) (mx_unit_size s);
       gx_inner_frequency s unit_id base left right 0 end (mx_counter_level s)
     }"

definition gx_avg_frequency :: "mix_sketch \<Rightarrow> u64 \<Rightarrow> u64 \<Rightarrow> u64 \<Rightarrow> int option" where
  "gx_avg_frequency s unit_id t sz =
     do {
       (left, right) \<leftarrow> block_bounds (mx_granularity s) (mx_unit_size s) t sz;
       let cnt = right - left;
       sum_frequency \<leftarrow> gx_frequency s unit_id t sz;
       idiv sum_frequency cnt
     }"

partial_function (option) gx_inner_record_access ::
    "mix_sketch \<Rightarrow> u64 \<Rightarrow> int \<Rightarrow> int \<Rightarrow> int \<Rightarrow> int \<Rightarrow> int \<Rightarrow> int \<Rightarrow> mix_sketch option" where
  "gx_inner_record_access s unit_id base left right start end upper_level =
     (if \<not> (start \<le> left \<and> right \<le> end) then None
      else if left = start \<and> right = end
      then mx_inc_lazy_add_cnt s unit_id base start end (upper_level - 1)
      else do {
        s \<leftarrow>
          (if mx_try_est_add s left right start end
           then mx_inc_dyadic_cnt s unit_id base start end 1 (upper_level - 1)
           else Some s);
        let mid = i32 (start + i32 (end - start) sdiv 2);
        s \<leftarrow>
          (if mid > left
           then gx_inner_record_access s unit_id base left (min mid right) start mid (upper_level - 1)
           else Some s);
        if mid < right
        then gx_inner_record_access s unit_id base (max left mid) right mid end (upper_level - 1)
        else Some s
      })"

definition gx_record_access :: "mix_sketch \<Rightarrow> u64 \<Rightarrow> u64 \<Rightarrow> u64 \<Rightarrow> mix_sketch option" where
  "gx_record_access s unit_id t sz =
     (if mx_doing_reset s then Some s
      else do {
        (left, right) \<leftarrow> block_bounds (mx_granularity s) (mx_unit_size s) t sz;
        base \<leftarrow> unit_base (mx_granularity s) (mx_unit_size s) t;
        end \<leftarrow> unit_end (mx_granularity s) (mx_unit_size s);
        let s = s\<lparr>mx_ref_cnt := i32 (mx_ref_cnt s + 1)\<rparr>;
        gx_inner_record_access s unit_id base left right 0 end (mx_counter_level s)
      })"

declare gx_inner_frequency.simps [code]
declare gx_inner_record_access.simps [code]

subsection \<open>Queries return\<close>

abbreviation gx_lazy :: "mix_sketch \<Rightarrow> u64 \<Rightarrow> int \<Rightarrow> nat \<times> int \<Rightarrow> int" where
  "gx_lazy s unit_id base x \<equiv> int (lv_est (mx_mix_counters s) (mx_node unit_id base True x))"

abbreviation gx_dyadic :: "mix_sketch \<Rightarrow> u64 \<Rightarrow> int \<Rightarrow> nat \<times> int \<Rightarrow> int" where
  "gx_dyadic s unit_id base x \<equiv> int (lv_est (mx_mix_counters s) (mx_node unit_id base False x))"

text \<open>Counters of at most 15 keep every partial sum small.\<close>

lemma count_times_abs:
  fixes c d w :: int
  assumes "0 \<le> c" and "c \<le> 15" and "\<bar>d\<bar> \<le> w"
  shows "\<bar>c * d\<bar> \<le> 15 * w"
proof -
  have "\<bar>c * d\<bar> = c * \<bar>d\<bar>" using assms(1) by (simp add: abs_mult)
  also have "\<dots> \<le> 15 * w" using assms by (intro mult_mono) auto
  finally show ?thesis .
qed

lemma tree_value_abs:
  assumes "in_node k l r s e" and "\<And>x. 0 \<le> lz x \<and> lz x \<le> 15" and "\<And>x. 0 \<le> dy x \<and> dy x \<le> 15"
  shows "\<bar>tree_value lz dy (Suc k) l r s e\<bar> \<le> 15 * (int k + 2) * (e - s)"
  using assms(1)
proof (induction k arbitrary: l r s e)
  case 0
  have e: "e = s + 1" "l = s" "r = s \<or> r = e" using in_node_0 [OF 0] by auto
  then show ?case
    using assms(2,3) [of "(0, s)"] midpoint_unit [of s e] by auto
next
  case (Suc k)
  let ?m = "midpoint s e"
  have n: "s \<le> l" "l < e" "s \<le> r" "r \<le> e" using Suc.prems by (auto simp: in_node_def)
  have mb: "s \<le> ?m" "?m < e" using midpoint_bounds [of s e] n by auto
  have top: "\<bar>lz (Suc k, s) * (r - l)\<bar> \<le> 15 * (e - s)"
    using assms(2) [of "(Suc k, s)"] n by (intro count_times_abs) auto
  show ?case
  proof (cases "l = s \<and> r = e")
    case True
    have "\<bar>dy (Suc k, s) * (e - s)\<bar> \<le> 15 * (e - s)"
      using assms(3) [of "(Suc k, s)"] n by (intro count_times_abs) auto
    then have "\<bar>tree_value lz dy (Suc (Suc k)) l r s e\<bar> \<le> 15 * 2 * (e - s)"
      using True top by (simp add: tree_value.simps(2) [of _ _ "Suc k"])
    also have "\<dots> \<le> 15 * (int (Suc k) + 2) * (e - s)" using n by (intro mult_right_mono) auto
    finally show ?thesis .
  next
    case False
    define A where "A = (if ?m > l then tree_value lz dy (Suc k) l (min ?m r) s ?m else 0)"
    define B where "B = (if ?m < r then tree_value lz dy (Suc k) (max l ?m) r ?m e else 0)"
    have A: "\<bar>A\<bar> \<le> 15 * (int k + 2) * (?m - s)"
      using Suc.IH [OF in_node_left [OF Suc.prems]] mb by (simp add: A_def del: tree_value.simps)
    have B: "\<bar>B\<bar> \<le> 15 * (int k + 2) * (e - ?m)"
      using Suc.IH [OF in_node_right [OF Suc.prems]] mb by (simp add: B_def del: tree_value.simps)
    have "tree_value lz dy (Suc (Suc k)) l r s e = lz (Suc k, s) * (r - l) + (A + B)"
      using False by (simp only: tree_value.simps(2) [of _ _ "Suc k"] if_False A_def B_def)
    moreover have "15 * (int k + 2) * (?m - s) + 15 * (int k + 2) * (e - ?m) + 15 * (e - s)
        = 15 * (int (Suc k) + 2) * (e - s)" by (simp add: algebra_simps)
    ultimately show ?thesis using A B top by linarith
  qed
qed

lemma gx_inner_frequency_eq:
  assumes "levels_ok (mx_mix_counters s)" and "k < length (mx_mix_counters s)"
    and "in_node k l r st en" and "0 \<le> st" and "en \<le> INT_MAX"
    and "15 * (int k + 2) * (en - st) \<le> INT_MAX"
  shows "gx_inner_frequency s unit_id base l r st en (int (Suc k))
    = Some (tree_value (gx_lazy s unit_id base) (gx_dyadic s unit_id base) (Suc k) l r st en)"
  using assms(2-6)
proof (induction k arbitrary: l r st en)
  case 0
  let ?lz = "gx_lazy s unit_id base" and ?dy = "gx_dyadic s unit_id base"
  have en: "en = st + 1" "l = st" "r = st \<or> r = en" using in_node_0 [OF 0(2)] by auto
  have m: "i32 (st + i32 (en - st) sdiv 2) = midpoint st en" using 0 en by (intro mid_eq) auto
  have c: "?lz (0, st) \<le> 15" "?dy (0, st) \<le> 15" using lv_est_le by simp_all
  show ?case
    using en m c mx_get_dyadic_eq [OF assms(1), of 0 unit_id base st en] 0(1)
      mx_get_lazy_eq [OF assms(1), of 0 unit_id base st en]
    by (subst gx_inner_frequency.simps) (auto simp: midpoint_unit Let_def)
next
  case (Suc k)
  let ?lz = "gx_lazy s unit_id base" and ?dy = "gx_dyadic s unit_id base" and ?m = "midpoint st en"
  let ?T = "tree_value ?lz ?dy"
  have n: "st \<le> l" "l < en" "st \<le> r" "r \<le> en" using Suc.prems(2) by (auto simp: in_node_def)
  have mb: "st \<le> ?m" "?m < en" using midpoint_bounds [of st en] n by auto
  have m: "i32 (st + i32 (en - st) sdiv 2) = ?m" using Suc.prems n by (intro mid_eq) auto
  have c15: "0 \<le> ?lz x \<and> ?lz x \<le> 15" "0 \<le> ?dy x \<and> ?dy x \<le> 15" for x
    using lv_est_le by simp_all
  define W where "W = 15 * (int k + 2)"
  have W: "0 \<le> W" "W * (?m - st) + W * (en - ?m) + 15 * (en - st) \<le> INT_MAX"
    using Suc.prems(5) by (simp_all add: W_def algebra_simps)
  define P Q where "P = W * (?m - st)" and "Q = W * (en - ?m)"
  have PQ: "0 \<le> P" "0 \<le> Q" "P + Q + 15 * (en - st) \<le> INT_MAX"
    using W mb by (simp_all add: P_def Q_def)
  have len: "0 \<le> 15 * (en - st)" using mb by simp
  have child: "W * (?m - st) \<le> INT_MAX" "W * (en - ?m) \<le> INT_MAX"
    unfolding P_def [symmetric] Q_def [symmetric] using PQ len by linarith+
  define X where "X = ?lz (Suc k, st) * (r - l)"
  have X: "\<bar>X\<bar> \<le> 15 * (en - st)" using c15 n unfolding X_def by (intro count_times_abs) auto
  have d: "i32 (r - l) = r - l" "i32 (en - st) = en - st" using n Suc.prems(3,4) by simp_all
  have X32: "i32 X = X" using X PQ by (intro i32_id) linarith+
  have lazy: "mx_get_lazy_add_cnt s unit_id base st en (int (Suc k)) = Some (?lz (Suc k, st))"
    using mx_get_lazy_eq [OF assms(1) Suc.prems(1)] .
  have lvl: "int (Suc (Suc k)) - 1 = int (Suc k)" by simp
  show ?case
  proof (cases "l = st \<and> r = en")
    case True
    have X': "?lz (Suc k, st) * (en - st) = X" using True by (simp add: X_def)
    define Y where "Y = ?dy (Suc k, st) * (en - st)"
    have Y: "\<bar>Y\<bar> \<le> 15 * (en - st)" using c15 n unfolding Y_def by (intro count_times_abs) auto
    have "15 * (en - st) \<le> W * (en - st)" using n unfolding W_def by (intro mult_right_mono) auto
    then have "\<bar>X\<bar> + \<bar>Y\<bar> \<le> INT_MAX"
      using X Y W(2) by (simp add: algebra_simps)
    then have "i32 Y = Y" and "i32 (X + Y) = X + Y" by simp_all
    moreover have "mx_get_dyadic_cnt s unit_id base st en (int (Suc k)) = Some (i32 Y)"
      using mx_get_dyadic_eq [OF assms(1) Suc.prems(1)] by (simp only: d Y_def)
    moreover have "?T (Suc (Suc k)) l r st en = X + Y"
      using True by (simp only: tree_value.simps(2) [of _ _ "Suc k"] if_True X_def Y_def simp_thms)
    ultimately show ?thesis
      using n by (subst gx_inner_frequency.simps)
        (simp only: lvl lazy d X' X32 add_0 Let_def True if_True simp_thms
          Option.bind.bind_lunit if_False order_refl)
  next
    case False
    define A where "A = (if ?m > l then ?T (Suc k) l (min ?m r) st ?m else 0)"
    define B where "B = (if ?m < r then ?T (Suc k) (max l ?m) r ?m en else 0)"
    have A: "gx_inner_frequency s unit_id base l (min ?m r) st ?m (int (Suc k)) = Some A" if "?m > l"
      using Suc.IH [OF _ in_node_left [OF Suc.prems(2) that]] Suc.prems child(1) mb that
      by (simp add: A_def W_def del: tree_value.simps)
    have B: "gx_inner_frequency s unit_id base (max l ?m) r ?m en (int (Suc k)) = Some B" if "?m < r"
      using Suc.IH [OF _ in_node_right [OF Suc.prems(2) that]] Suc.prems child(2) mb that
      by (simp add: B_def W_def del: tree_value.simps)
    have A': "\<bar>A\<bar> \<le> P" "\<bar>B\<bar> \<le> Q"
      using tree_value_abs [OF in_node_left [OF Suc.prems(2)] c15] mb W(1)
        tree_value_abs [OF in_node_right [OF Suc.prems(2)] c15]
      by (simp_all add: A_def B_def W_def P_def Q_def del: tree_value.simps)
    have i: "i32 (X + A) = X + A" "i32 (X + A + B) = X + A + B"
      using A' X PQ(3) by (intro i32_id; linarith)+
    have "(if ?m > l then do {
                 f \<leftarrow> gx_inner_frequency s unit_id base l (min ?m r) st ?m (int (Suc k));
                 Some (i32 (X + f))
               } else Some X) = Some (X + A)"
      using A i(1) by (cases "?m > l") (simp_all add: A_def del: tree_value.simps)
    moreover have "(if ?m < r then do {
              f \<leftarrow> gx_inner_frequency s unit_id base (max l ?m) r ?m en (int (Suc k));
              Some (i32 (X + A + f))
            } else Some (X + A)) = Some (X + A + B)"
      using B i(2) by (cases "?m < r") (simp_all add: B_def del: tree_value.simps)
    moreover have "?T (Suc (Suc k)) l r st en = X + A + B"
      using False by (simp only: tree_value.simps(2) [of _ _ "Suc k"] if_False A_def B_def X_def add.assoc)
    ultimately show ?thesis
      using False n by (subst gx_inner_frequency.simps)
        (simp only: lvl lazy d(1) X_def [symmetric] X32 add_0 m Let_def if_False if_True simp_thms
          Option.bind.bind_lunit)
  qed
qed

subsection \<open>Records return\<close>

text \<open>The counters an access touches, for a fixed outcome of the probabilistic choices.\<close>

fun gx_nodes :: "(int \<Rightarrow> int \<Rightarrow> int \<Rightarrow> int \<Rightarrow> bool) \<Rightarrow> nat \<Rightarrow> int \<Rightarrow> int \<Rightarrow> int \<Rightarrow> int \<Rightarrow>
    (bool \<times> nat \<times> int) list" where
  "gx_nodes p 0 l r s e = []"
| "gx_nodes p (Suc k) l r s e =
     (if l = s \<and> r = e then [(True, k, s)]
      else (if p l r s e then [(False, k, s)] else []) @
           (if midpoint s e > l then gx_nodes p k l (min (midpoint s e) r) s (midpoint s e) else []) @
           (if midpoint s e < r then gx_nodes p k (max l (midpoint s e)) r (midpoint s e) e else []))"

text \<open>The lazy ones are the cover of the range.\<close>

lemma gx_nodes_lazy: "map snd (filter fst (gx_nodes p k l r s e)) = cover_nodes k l r s e"
  by (induction k arbitrary: l r s e) (simp_all add: cover_nodes_def)

definition gx_node :: "u64 \<Rightarrow> int \<Rightarrow> bool \<times> nat \<times> int \<Rightarrow> node" where
  "gx_node unit_id base x = mx_node unit_id base (fst x) (snd x)"

abbreviation gx_hits :: "u64 \<Rightarrow> int \<Rightarrow> (bool \<times> nat \<times> int) list \<Rightarrow> mix_sketch \<Rightarrow> u64 list list" where
  "gx_hits unit_id base xs s \<equiv> fold lv_hit (map (gx_node unit_id base) xs) (mx_mix_counters s)"

lemma try_est_add_cong: "mx_ref_cnt s = mx_ref_cnt s' \<Longrightarrow> mx_try_est_add s = mx_try_est_add s'"
  by (simp add: mx_try_est_add_def fun_eq_iff)

lemma gx_inner_record_eq:
  assumes "levels_ok (mx_mix_counters s)" and "k < length (mx_mix_counters s)"
    and "in_node k l r st en" and "0 \<le> st" and "en \<le> INT_MAX"
  shows "\<exists>z. gx_inner_record_access s unit_id base l r st en (int (Suc k))
     = Some (s\<lparr>mx_mix_counters := gx_hits unit_id base (gx_nodes (mx_try_est_add s) (Suc k) l r st en) s,
               mx_size := z\<rparr>)"
  using assms
proof (induction k arbitrary: s l r st en)
  case 0
  have en: "en = st + 1" "l = st" "r = st \<or> r = en" using in_node_0 [OF 0(3)] by auto
  have m: "i32 (st + i32 (en - st) sdiv 2) = midpoint st en" using 0 en by (intro mid_eq) auto
  show ?case
    using en m mx_inc_lazy_eq [OF 0(1,2), of unit_id base st en]
      mx_inc_dyadic_eq [OF 0(1,2), of unit_id base st en]
    by (subst gx_inner_record_access.simps)
      (auto simp: midpoint_unit Let_def gx_node_def intro: exI [of _ "mx_size s"])
next
  case (Suc k)
  let ?m = "midpoint st en" and ?p = "mx_try_est_add s" and ?nd = "gx_node unit_id base"
  have n: "st \<le> l" "l < en" "st \<le> r" "r \<le> en" using Suc.prems(3) by (auto simp: in_node_def)
  have mb: "st \<le> ?m" "?m < en" using midpoint_bounds [of st en] n by auto
  have m: "i32 (st + i32 (en - st) sdiv 2) = ?m" using Suc.prems n by (intro mid_eq) auto
  have lvl: "int (Suc (Suc k)) - 1 = int (Suc k)" by simp
  show ?case
  proof (cases "l = st \<and> r = en")
    case True
    then show ?thesis
      using mx_inc_lazy_eq [OF Suc.prems(1,2), of unit_id base st en] n
      by (subst gx_inner_record_access.simps)
        (auto simp: lvl gx_node_def intro: exI [of _ "i32 (mx_size s + i32 (en - st))"])
  next
    case False
    let ?H = "if ?p l r st en then [(False, Suc k, st)] else []"
    let ?L = "if ?m > l then gx_nodes ?p (Suc k) l (min ?m r) st ?m else []"
    let ?R = "if ?m < r then gx_nodes ?p (Suc k) (max l ?m) r ?m en else []"
    define s1 where "s1 = s\<lparr>mx_mix_counters := gx_hits unit_id base ?H s,
        mx_size := (if ?p l r st en then i32 (mx_size s + 1) else mx_size s)\<rparr>"
    have h: "(if ?p l r st en then mx_inc_dyadic_cnt s unit_id base st en 1 (int (Suc k)) else Some s)
        = Some s1"
      using mx_inc_dyadic_eq [OF Suc.prems(1,2), of unit_id base st en]
      by (simp add: s1_def gx_node_def)
    have "mx_try_est_add s1 = ?p" by (rule try_est_add_cong) (simp add: s1_def)
    then have s1: "levels_ok (mx_mix_counters s1)"
        "length (mx_mix_counters s1) = length (mx_mix_counters s)" "mx_try_est_add s1 = ?p"
      using Suc.prems(1) by (simp_all add: s1_def levels_ok_hit)
    obtain z where z: "(if ?m > l
          then gx_inner_record_access s1 unit_id base l (min ?m r) st ?m (int (Suc k)) else Some s1)
        = Some (s1\<lparr>mx_mix_counters := gx_hits unit_id base ?L s1, mx_size := z\<rparr>)"
    proof (cases "?m > l")
      case True
      then show thesis
        using that Suc.IH [OF s1(1) _ in_node_left [OF Suc.prems(3) True]] Suc.prems s1(2,3) mb by auto
    next
      case False
      then show thesis using that [of "mx_size s1"] by simp
    qed
    define s2 where "s2 = s1\<lparr>mx_mix_counters := gx_hits unit_id base ?L s1, mx_size := z\<rparr>"
    have "mx_try_est_add s2 = mx_try_est_add s1" by (rule try_est_add_cong) (simp add: s2_def)
    then have s2: "levels_ok (mx_mix_counters s2)"
        "length (mx_mix_counters s2) = length (mx_mix_counters s)" "mx_try_est_add s2 = ?p"
      using s1 by (simp_all add: s2_def levels_ok_hits del: gx_nodes.simps)
    obtain z' where z': "(if ?m < r
          then gx_inner_record_access s2 unit_id base (max l ?m) r ?m en (int (Suc k)) else Some s2)
        = Some (s2\<lparr>mx_mix_counters := gx_hits unit_id base ?R s2, mx_size := z'\<rparr>)"
    proof (cases "?m < r")
      case True
      then show thesis
        using that Suc.IH [OF s2(1) _ in_node_right [OF Suc.prems(3) True]] Suc.prems s2(2,3) mb by auto
    next
      case False
      then show thesis using that [of "mx_size s2"] by simp
    qed
    have "gx_inner_record_access s unit_id base l r st en (int (Suc (Suc k)))
        = Some (s2\<lparr>mx_mix_counters := gx_hits unit_id base ?R s2, mx_size := z'\<rparr>)"
      using False n z z' by (subst gx_inner_record_access.simps)
        (simp only: lvl h m Let_def s2_def [symmetric] if_False if_True simp_thms
          Option.bind.bind_lunit)
    moreover have "gx_nodes ?p (Suc (Suc k)) l r st en = ?H @ ?L @ ?R"
      using False by (simp only: gx_nodes.simps(2) [of _ "Suc k"] if_False)
    ultimately show ?thesis
      by (intro exI [of _ z']) (simp add: s2_def s1_def del: gx_nodes.simps)
  qed
qed

subsection \<open>Histories\<close>

definition gx_record :: "access \<Rightarrow> mix_sketch \<Rightarrow> mix_sketch option" where
  "gx_record a s = (case a of (unit_id, t, sz) \<Rightarrow> gx_record_access s unit_id t sz)"

text \<open>The ranges of a history that fall into the unit with id \<open>unit_id\<close> at \<open>base\<close>.\<close>

definition unit_ranges :: "mix_sketch \<Rightarrow> u64 \<Rightarrow> int \<Rightarrow> access list \<Rightarrow> (int \<times> int) list" where
  "unit_ranges s unit_id base as = map (\<lambda>(u, t, sz). (mx_left s t, mx_right s t sz))
     (filter (\<lambda>(u, t, sz). u = unit_id \<and> mx_base s t = base) as)"

text \<open>The counters of a history hit the lazy counter of a node at least once for every range that has
  the node in its cover.\<close>

definition hits_covers :: "mix_sketch \<Rightarrow> access list \<Rightarrow> node list \<Rightarrow> bool" where
  "hits_covers s as evs \<longleftrightarrow> (\<forall>unit_id base x.
     cover_count (Suc (mx_depth s)) (unit_ranges s unit_id base as) 0 (mx_blocks s) x
       \<le> count_list evs (mx_node unit_id base True x))"

lemma hits_covers_append:
  "hits_covers s [a] evs \<Longrightarrow> hits_covers s as evs' \<Longrightarrow> hits_covers s (a # as) (evs @ evs')"
proof -
  assume a: "hits_covers s [a] evs" and b: "hits_covers s as evs'"
  have "cover_count k (unit_ranges s i b (a # as)) 0 e x
      = cover_count k (unit_ranges s i b [a]) 0 e x + cover_count k (unit_ranges s i b as) 0 e x"
    for k i b e x by (cases a) (simp add: cover_count_def unit_ranges_def)
  then show ?thesis
    using a b unfolding hits_covers_def by (simp only: count_list_append) (meson add_mono)
qed

lemma count_list_map_ge: "count_list xs x \<le> count_list (map f xs) (f x)"
  by (induction xs) auto

lemma count_lazy: "count_list (map snd (filter fst xs)) x = count_list xs (True, x)"
  by (induction xs) auto

lemma gx_record_step:
  assumes "mx_ok s" and "\<not> mx_doing_reset s"
  shows "\<exists>s' evs. gx_record a s = Some s' \<and> mx_ok s' \<and> mx_same s s' \<and>
            mx_mix_counters s' = fold lv_hit evs (mx_mix_counters s) \<and> hits_covers s [a] evs"
proof -
  obtain u t sz where a: "a = (u, t, sz)" by (cases a)
  let ?s1 = "s\<lparr>mx_ref_cnt := i32 (mx_ref_cnt s + 1)\<rparr>"
  let ?b = "mx_base s t" and ?l = "mx_left s t" and ?r = "mx_right s t sz"
  let ?xs = "gx_nodes (mx_try_est_add ?s1) (Suc (mx_depth s)) ?l ?r 0 (mx_blocks s)"
  let ?evs = "map (gx_node u ?b) ?xs"
  have lv: "levels_ok (mx_mix_counters ?s1)" "mx_depth s < length (mx_mix_counters ?s1)"
    using mx_ok_depth [OF assms(1)] by simp_all
  obtain z where z: "gx_inner_record_access ?s1 u ?b ?l ?r 0 (mx_blocks s) (int (Suc (mx_depth s)))
      = Some (?s1\<lparr>mx_mix_counters := fold lv_hit ?evs (mx_mix_counters s), mx_size := z\<rparr>)"
    using gx_inner_record_eq [OF lv mx_access(4) [OF assms(1)] _ mx_access(6) [OF assms(1)],
        of u ?b t sz] by (auto simp del: gx_nodes.simps)
  let ?s' = "?s1\<lparr>mx_mix_counters := fold lv_hit ?evs (mx_mix_counters s), mx_size := z\<rparr>"
  have "gx_record a s = Some ?s'"
    using z assms(2) mx_access(1-3) [OF assms(1)] mx_ok_depth(1) [OF assms(1)]
    by (simp add: gx_record_def a gx_record_access_def del: gx_nodes.simps)
  moreover have "mx_same s ?s'" by (simp add: mx_same_def)
  moreover from this have "mx_ok ?s'" using mx_same_ok assms(1) lv(1) levels_ok_hits by simp
  moreover have "hits_covers s [a] ?evs"
    unfolding hits_covers_def
  proof (intro allI)
    fix i b x
    have "count_list (cover_nodes (Suc (mx_depth s)) ?l ?r 0 (mx_blocks s)) x
        \<le> count_list ?evs (gx_node u ?b (True, x))"
      unfolding gx_nodes_lazy [symmetric, of _ _ _ _ _ "mx_try_est_add ?s1"] count_lazy
      by (rule count_list_map_ge)
    then show "cover_count (Suc (mx_depth s)) (unit_ranges s i b [a]) 0 (mx_blocks s) x
        \<le> count_list ?evs (mx_node i b True x)"
      by (auto simp: cover_count_def unit_ranges_def a gx_node_def simp del: gx_nodes.simps)
  qed
  ultimately show ?thesis by (intro exI [of _ ?s'] exI [of _ ?evs]) simp
qed

lemma gx_records:
  assumes "mx_ok s" and "\<not> mx_doing_reset s"
  shows "\<exists>s' evs. fold_opt gx_record as s = Some s' \<and> mx_ok s' \<and> mx_same s s' \<and>
            mx_mix_counters s' = fold lv_hit evs (mx_mix_counters s) \<and> hits_covers s as evs"
  using assms
proof (induction as arbitrary: s)
  case Nil
  then show ?case
    by (intro exI [of _ s] exI [of _ "[]"])
      (simp add: mx_same_def hits_covers_def unit_ranges_def cover_count_def)
next
  case (Cons a as)
  obtain s1 evs where s1: "gx_record a s = Some s1" "mx_ok s1" "mx_same s s1"
      "mx_mix_counters s1 = fold lv_hit evs (mx_mix_counters s)" "hits_covers s [a] evs"
    using gx_record_step [OF Cons.prems] by blast
  have nr: "\<not> mx_doing_reset s1" using s1(3) Cons.prems(2) by (simp add: mx_same_def)
  obtain s' evs' where s': "fold_opt gx_record as s1 = Some s'" "mx_ok s'" "mx_same s1 s'"
      "mx_mix_counters s' = fold lv_hit evs' (mx_mix_counters s1)" "hits_covers s1 as evs'"
    using Cons.IH [OF s1(2) nr] by blast
  have "hits_covers s as evs'"
    using s'(5) by (simp add: hits_covers_def unit_ranges_def mx_same_geometry [OF s1(3)])
  then have "hits_covers s (a # as) (evs @ evs')" using s1(5) by (rule hits_covers_append [rotated])
  moreover have "mx_same s s'" using s'(3) s1(3) by (simp add: mx_same_def)
  ultimately show ?case
    using s1 s' by (intro exI [of _ s'] exI [of _ "evs @ evs'"]) simp
qed

subsection \<open>Properties\<close>

lemma gx_frequency_eq:
  assumes "mx_ok s" and "15 * (int (mx_depth s) + 2) * mx_blocks s \<le> INT_MAX"
  shows "gx_frequency s unit_id t sz = Some (tree_value (gx_lazy s unit_id (mx_base s t))
           (gx_dyadic s unit_id (mx_base s t)) (Suc (mx_depth s)) (mx_left s t) (mx_right s t sz) 0
           (mx_blocks s))"
  using gx_inner_frequency_eq [OF mx_ok_depth(3,2) [OF assms(1)] mx_access(4) [OF assms(1)] _
      mx_access(6) [OF assms(1)]] mx_access(1-3) [OF assms(1)] mx_ok_depth(1) [OF assms(1)] assms(2)
  by (simp add: gx_frequency_def del: tree_value.simps)

text \<open>The accesses of a history to the unit of \<open>t\<close> that contain the blocks of the query.\<close>

definition containing_ranges :: "mix_sketch \<Rightarrow> access list \<Rightarrow> u64 \<Rightarrow> u64 \<Rightarrow> u64 \<Rightarrow> (int \<times> int) list" where
  "containing_ranges s as unit_id t sz =
     filter (\<lambda>(l, r). l \<le> mx_left s t \<and> mx_right s t sz \<le> r) (unit_ranges s unit_id (mx_base s t) as)"

text \<open>C6. Whatever the probabilistic choices are, no operation of the lazy sketch fails and an access is
  never missed by a query inside it: after any sequence of accesses on a new sketch, a query over
  the blocks from \<open>left\<close> up to \<open>right\<close> returns at least the number of accesses whose range contains
  the queried one (up to 15) for each of its blocks.\<close>

theorem gx_sees_containing:
  assumes "0 < n" and "n \<le> 2 ^ 30" and "unit_ok g u" and "int (unat (u div g)) \<le> n"
    and "mx_new n g u = Inr s" and "15 * (int (mx_depth s) + 2) * mx_blocks s \<le> INT_MAX"
    and "mx_left s t < mx_right s t sz"
  shows "\<exists>s' f. fold_opt gx_record as s = Some s' \<and> gx_frequency s' unit_id t sz = Some f \<and>
     (mx_right s t sz - mx_left s t) * int (min 15 (length (containing_ranges s as unit_id t sz))) \<le> f"
proof -
  have s: "mx_ok s" "\<not> mx_doing_reset s"
      "\<And>x. fst x < length (mx_mix_counters s) \<Longrightarrow> lv_est (mx_mix_counters s) x = 0"
    using mx_new_ok [OF assms(1-4)] assms(5) by auto
  obtain s' evs where s': "fold_opt gx_record as s = Some s'" "mx_ok s'" "mx_same s s'"
      "mx_mix_counters s' = fold lv_hit evs (mx_mix_counters s)" "hits_covers s as evs"
    using gx_records [OF s(1,2)] by blast
  note geo = mx_same_geometry [OF s'(3)]
  let ?l = "mx_left s t" and ?r = "mx_right s t sz" and ?D = "Suc (mx_depth s)" and ?b = "mx_base s t"
  let ?R = "containing_ranges s as unit_id t sz"
  have nd: "in_node (mx_depth s) ?l ?r 0 (mx_blocks s)" using mx_access(4) [OF s(1)] .
  have "containing ?R ?l ?r 0 (mx_blocks s)"
    using mx_access(4) [OF s(1)]
    by (fastforce simp: containing_def containing_ranges_def unit_ranges_def in_node_def)
  moreover have "counted (gx_lazy s' unit_id ?b) ?D ?R 0 (mx_blocks s)"
    unfolding counted_def
  proof
    fix x
    let ?n = "mx_node unit_id ?b True x"
    have "cover_count ?D ?R 0 (mx_blocks s) x \<le> count_list evs ?n"
      using s'(5) cover_count_filter [of ?D _ "unit_ranges s unit_id ?b as" 0 "mx_blocks s" x]
      unfolding hits_covers_def containing_ranges_def by (meson le_trans)
    moreover have "min 15 (lv_est (mx_mix_counters s) ?n + count_list evs ?n) \<le> lv_est (mx_mix_counters s') ?n"
      if "fst x < length (mx_mix_counters s)"
      using lv_est_hits_ge [OF mx_ok_depth(3) [OF s(1)]] that by (simp add: s'(4))
    moreover have "cover_count ?D ?R 0 (mx_blocks s) x = 0" if "\<not> fst x < length (mx_mix_counters s)"
    proof -
      have "x \<notin> set (cover_nodes ?D l r 0 (mx_blocks s))" if "(l, r) \<in> set ?R" for l r
        using cover_level [of x ?D] \<open>\<not> fst x < _\<close> mx_ok_depth(2) [OF s(1)] by fastforce
      then show ?thesis by (auto simp: cover_count_def count_list_0_iff)
    qed
    ultimately show "int (min 15 (cover_count ?D ?R 0 (mx_blocks s) x)) \<le> gx_lazy s' unit_id ?b x"
      by (cases "fst x < length (mx_mix_counters s)") auto
  qed
  ultimately have "(?r - ?l) * int (min 15 (length ?R))
      \<le> tree_value (gx_lazy s' unit_id ?b) (gx_dyadic s' unit_id ?b) ?D ?l ?r 0 (mx_blocks s)"
    using nd assms(7) by (intro tree_value_ge) auto
  then show ?thesis
    using s'(1) gx_frequency_eq [OF s'(2), of unit_id t sz] assms(6)
    by (simp add: geo del: tree_value.simps)
qed

theorem gx_sees_containing_witness:
  "\<exists>s' f. fold_opt gx_record [(7, 0, 12), (7, 4, 8), (7, 0, 8)] mx_demo = Some s' \<and>
     gx_frequency s' 7 0 8 = Some f \<and> 4 \<le> f"
proof -
  have "unit_ok 4 16" by (simp add: unit_ok_def)
  moreover have "length (containing_ranges mx_demo [(7, 0, 12), (7, 4, 8), (7, 0, 8)] 7 0 8) = 2"
    by (simp add: containing_ranges_def unit_ranges_def mx_left_def mx_right_def mx_base_def
        int_of_u64_def)
  moreover have "mx_depth mx_demo = 2" by (simp add: mx_depth_def)
  ultimately show ?thesis
    using gx_sees_containing [of 4 4 16 mx_demo 0 8 "[(7, 0, 12), (7, 4, 8), (7, 0, 8)]" 7] mx_demo_new
    by (simp add: mx_demo_geometry del: fold_opt.simps)
qed

end
