(* ===== verification/Reset_Thread.thy ===== *)
theory Reset_Thread
  imports Interval Gxj
begin

section \<open>Aging in a background thread\<close>

text \<open>
  \<open>try_reset\<close> of \<open>gxj_range_frequency_sketch\<close> and \<open>interval_sketch\<close> sets \<open>doing_reset\<close>, starts a
  detached thread that halves the counters and then clears the flag, and returns; accesses that
  arrive while the flag is set are dropped. The step relation below interleaves the calls of the
  owner with the two steps of every started thread, \<open>reset\<close> as a whole being one step: the code has
  no synchronisation, so this is the most favourable schedule. The locale \<open>tree_sketch\<close> states what
  the relation needs of a class's \<open>record_access\<close>; both classes are instances. Starting a thread is taken
  to succeed: if the constructor of \<open>std::thread\<close> throws, the flag is already set and stays so for ever.
\<close>

subsection \<open>The calls and the threads\<close>

text \<open>The result \<open>true\<close> means that a thread was started.\<close>

definition mx_try_reset :: "mix_sketch \<Rightarrow> mix_sketch \<times> bool" where
  "mx_try_reset s =
     (if mx_size s \<ge> mx_sampling_size s then (s\<lparr>mx_doing_reset := True\<rparr>, True) else (s, False))"

text \<open>What a started thread does next: \<open>reset()\<close>, then \<open>doing_reset = false\<close>.\<close>

datatype reset_pc = Run_reset | Clear_flag

type_synonym rs_state = "mix_sketch \<times> reset_pc list"

datatype rs_label = Record access | Try_reset | Must_reset | Thread nat

inductive rs_step ::
    "(access \<Rightarrow> mix_sketch \<Rightarrow> mix_sketch option) \<Rightarrow> rs_state \<Rightarrow> rs_label \<Rightarrow> rs_state \<Rightarrow> bool"
  for record_access where
  accessed: "record_access a s = Some s' \<Longrightarrow> rs_step record_access (s, ths) (Record a) (s', ths)"
| try_reset: "mx_try_reset s = (s', started) \<Longrightarrow>
    rs_step record_access (s, ths) Try_reset (s', if started then ths @ [Run_reset] else ths)"
| must_reset: "rs_step record_access (s, ths) Must_reset (mx_must_reset s, ths)"
| run_reset: "i < length ths \<Longrightarrow> ths ! i = Run_reset \<Longrightarrow>
    rs_step record_access (s, ths) (Thread i) (mx_reset s, ths[i := Clear_flag])"
| clear_flag: "i < length ths \<Longrightarrow> ths ! i = Clear_flag \<Longrightarrow>
    rs_step record_access (s, ths) (Thread i)
      (s\<lparr>mx_doing_reset := False\<rparr>, take i ths @ drop (Suc i) ths)"

inductive_cases rs_stepE: "rs_step f c l c'"

inductive rs_run ::
    "(access \<Rightarrow> mix_sketch \<Rightarrow> mix_sketch option) \<Rightarrow> rs_state \<Rightarrow> rs_label list \<Rightarrow> rs_state \<Rightarrow> bool"
  for record_access where
  stop: "rs_run record_access c [] c"
| step: "rs_step record_access c l c' \<Longrightarrow> rs_run record_access c' ls c'' \<Longrightarrow>
    rs_run record_access c (l # ls) c''"

lemma rs_run_append:
  "rs_run f c ls c' \<Longrightarrow> rs_run f c' ls' c'' \<Longrightarrow> rs_run f c (ls @ ls') c''"
  by (induction rule: rs_run.induct) (auto intro: rs_run.intros)

lemma mx_reset_frame [simp]:
  "mx_doing_reset (mx_reset s) = mx_doing_reset s"
  "length (mx_mix_counters (mx_reset s)) = length (mx_mix_counters s)"
  by (simp_all add: mx_reset_def)

subsection \<open>The contract of a class\<close>

locale tree_sketch =
  fixes record_access :: "access \<Rightarrow> mix_sketch \<Rightarrow> mix_sketch option"
  assumes record_dropped: "mx_doing_reset s \<Longrightarrow> record_access a s = Some s"
    and record_total: "mx_ok s \<Longrightarrow> \<not> mx_doing_reset s \<Longrightarrow>
      \<exists>s'. record_access a s = Some s' \<and> mx_ok s' \<and> mx_same s s'"
begin

lemma record_keeps:
  assumes "mx_ok s" and "record_access a s = Some s'"
  shows "mx_ok s' \<and> mx_same s s'"
  using assms record_dropped [of s a] record_total [of s a]
  by (cases "mx_doing_reset s") (auto simp: mx_same_def)

text \<open>The flag is set only while some thread will still clear it.\<close>

definition rs_inv :: "rs_state \<Rightarrow> bool" where
  "rs_inv c \<longleftrightarrow> mx_ok (fst c) \<and> (mx_doing_reset (fst c) \<longrightarrow> snd c \<noteq> [])"

lemma flag_irrelevant: "mx_ok (s\<lparr>mx_doing_reset := b\<rparr>) = mx_ok s"
  by (simp add: mx_ok_def mx_blocks_def mx_depth_def)

lemma rs_step_inv: "rs_step record_access c l c' \<Longrightarrow> rs_inv c \<Longrightarrow> rs_inv c'"
proof (induction rule: rs_step.induct)
  case (accessed a s s' ths)
  then show ?case using record_keeps [of s a s'] by (simp add: rs_inv_def mx_same_def)
qed (auto simp: rs_inv_def mx_try_reset_def flag_irrelevant mx_reset_ok mx_must_reset_def
    split: if_splits)

lemma rs_run_inv: "rs_run record_access c ls c' \<Longrightarrow> rs_inv c \<Longrightarrow> rs_inv c'"
  by (induction rule: rs_run.induct) (auto dest: rs_step_inv)

text \<open>While the flag is set, accesses change nothing.\<close>

lemma rs_record_dropped:
  "rs_step record_access (s, ths) (Record a) c' \<Longrightarrow> mx_doing_reset s \<Longrightarrow> c' = (s, ths)"
  by (erule rs_stepE) (simp_all add: record_dropped)

end

lemma iv_record_dropped: "mx_doing_reset s \<Longrightarrow> iv_record a s = Some s"
  by (cases a) (simp add: iv_record_def iv_record_access_def)

lemma gx_record_dropped: "mx_doing_reset s \<Longrightarrow> gx_record a s = Some s"
  by (cases a) (simp add: gx_record_def gx_record_access_def)

interpretation iv: tree_sketch iv_record
proof
  show "mx_ok s \<Longrightarrow> \<not> mx_doing_reset s \<Longrightarrow>
      \<exists>s'. iv_record a s = Some s' \<and> mx_ok s' \<and> mx_same s s'" for s a
    using iv_record_step [of s a] by blast
qed (rule iv_record_dropped)

interpretation gx: tree_sketch gx_record
proof
  show "mx_ok s \<Longrightarrow> \<not> mx_doing_reset s \<Longrightarrow>
      \<exists>s'. gx_record a s = Some s' \<and> mx_ok s' \<and> mx_same s s'" for s a
    using gx_record_step [of s a] by blast
qed (rule gx_record_dropped)

subsection \<open>Running the threads\<close>

text \<open>A thread that runs to its end halves every counter once.\<close>

lemma thread_runs:
  "rs_run f (s, Run_reset # ths) [Thread 0, Thread 0] ((mx_reset s)\<lparr>mx_doing_reset := False\<rparr>, ths)"
proof -
  have "rs_step f (s, Run_reset # ths) (Thread 0) (mx_reset s, Clear_flag # ths)"
    using rs_step.run_reset [of 0 "Run_reset # ths" f s] by simp
  moreover have "rs_step f (mx_reset s, Clear_flag # ths) (Thread 0)
      ((mx_reset s)\<lparr>mx_doing_reset := False\<rparr>, ths)"
    using rs_step.clear_flag [of 0 "Clear_flag # ths" f "mx_reset s"] by simp
  ultimately show ?thesis by (blast intro: rs_run.intros)
qed

definition halved :: "nat \<Rightarrow> mix_sketch \<Rightarrow> mix_sketch \<Rightarrow> bool" where
  "halved n s s' \<longleftrightarrow> mx_ok s' \<and> length (mx_mix_counters s') = length (mx_mix_counters s) \<and>
     (\<forall>x. fst x < length (mx_mix_counters s) \<longrightarrow>
        lv_est (mx_mix_counters s') x = lv_est (mx_mix_counters s) x div 2 ^ n)"

text \<open>The steps that the threads have left, and the halvings among them.\<close>

fun steps_left :: "reset_pc \<Rightarrow> nat" where
  "steps_left Run_reset = 2"
| "steps_left Clear_flag = 1"

abbreviation thread_steps :: "reset_pc list \<Rightarrow> nat" where
  "thread_steps ths \<equiv> sum_list (map steps_left ths)"

abbreviation resets_left :: "reset_pc list \<Rightarrow> nat" where
  "resets_left ths \<equiv> count_list ths Run_reset"

lemma list_split_at: "i < length xs \<Longrightarrow> xs = take i xs @ xs ! i # drop (Suc i) xs"
  by (rule id_take_nth_drop)

lemma thread_steps_advance:
  assumes "i < length ths" and "ths ! i = Run_reset"
  shows "thread_steps ths = Suc (thread_steps (ths[i := Clear_flag]))"
    and "resets_left ths = Suc (resets_left (ths[i := Clear_flag]))"
proof -
  obtain a b where "ths = a @ Run_reset # b" "length a = i"
    using list_split_at [OF assms(1)] assms by (metis length_take less_imp_le min_absorb2)
  then show "thread_steps ths = Suc (thread_steps (ths[i := Clear_flag]))"
    and "resets_left ths = Suc (resets_left (ths[i := Clear_flag]))"
    by (auto simp: list_update_append)
qed

lemma thread_steps_end:
  assumes "i < length ths" and "ths ! i = Clear_flag"
  shows "thread_steps ths = Suc (thread_steps (take i ths @ drop (Suc i) ths))"
    and "resets_left ths = resets_left (take i ths @ drop (Suc i) ths)"
proof -
  obtain a b where "ths = a @ Clear_flag # b" "length a = i"
    using list_split_at [OF assms(1)] assms by (metis length_take less_imp_le min_absorb2)
  then show "thread_steps ths = Suc (thread_steps (take i ths @ drop (Suc i) ths))"
    and "resets_left ths = resets_left (take i ths @ drop (Suc i) ths)"
    by auto
qed

lemma halved_0: "mx_ok s \<Longrightarrow> halved 0 s s"
  by (simp add: halved_def)

lemma halved_trans: "halved m s t \<Longrightarrow> halved n t u \<Longrightarrow> halved (m + n) s u"
  by (auto simp: halved_def power_add div_mult2_eq)

lemma halved_flag: "halved n s t \<Longrightarrow> halved n s (t\<lparr>mx_doing_reset := b\<rparr>)"
proof -
  have "mx_ok (t\<lparr>mx_doing_reset := b\<rparr>) = mx_ok t" by (simp add: mx_ok_def mx_blocks_def mx_depth_def)
  then show "halved n s t \<Longrightarrow> halved n s (t\<lparr>mx_doing_reset := b\<rparr>)" by (simp add: halved_def)
qed

lemma halved_reset: "mx_ok s \<Longrightarrow> halved 1 s (mx_reset s)"
  using mx_reset_ok [of s] mx_reset_est [of s] by (simp add: halved_def)

text \<open>One step of a thread, and any number of them.\<close>

lemma thread_step:
  assumes "rs_step f (s, ths) (Thread i) (s', ths')" and "mx_ok s"
  shows "thread_steps ths = Suc (thread_steps ths') \<and> resets_left ths' \<le> resets_left ths \<and>
     halved (resets_left ths - resets_left ths') s s' \<and> (ths' = [] \<longrightarrow> \<not> mx_doing_reset s')"
  using assms(1)
proof (cases rule: rs_step.cases)
  case run_reset
  then show ?thesis
    using thread_steps_advance [of i ths] halved_reset [OF assms(2)] by auto
next
  case clear_flag
  then show ?thesis
    using thread_steps_end [of i ths] halved_flag [OF halved_0 [OF assms(2)]] by simp
qed

lemma thread_steps_run:
  assumes "rs_run f c ls c'" and "\<forall>l\<in>set ls. \<exists>i. l = Thread i" and "mx_ok (fst c)"
    and "snd c = [] \<Longrightarrow> \<not> mx_doing_reset (fst c)"
  shows "thread_steps (snd c) = length ls + thread_steps (snd c') \<and> resets_left (snd c') \<le> resets_left (snd c) \<and>
     halved (resets_left (snd c) - resets_left (snd c')) (fst c) (fst c') \<and>
     (snd c' = [] \<longrightarrow> \<not> mx_doing_reset (fst c'))"
  using assms
proof (induction rule: rs_run.induct)
  case (stop c)
  then show ?case using halved_0 by simp
next
  case (step c l c' ls c'')
  obtain i where "rs_step f (fst c, snd c) (Thread i) (fst c', snd c')" using step.hyps(1) step.prems(1) by auto
  note one = thread_step [OF this step.prems(2)]
  then have "mx_ok (fst c')" by (simp add: halved_def)
  with step.IH step.prems(1) one
  have "thread_steps (snd c') = length ls + thread_steps (snd c'')" "resets_left (snd c'') \<le> resets_left (snd c')"
    and rest: "halved (resets_left (snd c') - resets_left (snd c'')) (fst c') (fst c'')"
    and "snd c'' = [] \<longrightarrow> \<not> mx_doing_reset (fst c'')"
    by auto
  moreover have "halved (resets_left (snd c) - resets_left (snd c')) (fst c) (fst c')" using one by simp
  note halved_trans [OF this rest]
  ultimately show ?case using one by simp
qed

lemma thread_can_step: "ths \<noteq> [] \<Longrightarrow> \<exists>c. rs_step f (s, ths) (Thread 0) c"
  using rs_step.run_reset [of 0 ths f s] rs_step.clear_flag [of 0 ths f s]
  by (cases "ths ! 0") fastforce+

subsection \<open>Properties\<close>

text \<open>C26. In every interleaving of calls and threads that starts from a sketch in good order with no
  thread running, the counter tables keep their shape, the flag is set only while some started
  thread is still going to clear it, and an access made while it is set changes nothing. The
  statement is the one for the lazy sketch.\<close>

theorem gx_reset_invariant:
  assumes "rs_run gx_record (s0, []) ls (s, ths)" and "mx_ok s0" and "\<not> mx_doing_reset s0"
  shows "mx_ok s \<and> (mx_doing_reset s \<longrightarrow> ths \<noteq> []) \<and>
    (\<forall>a c. mx_doing_reset s \<longrightarrow> rs_step gx_record (s, ths) (Record a) c \<longrightarrow> c = (s, ths))"
proof -
  have "gx.rs_inv (s0, [])" using assms(2,3) by (simp add: gx.rs_inv_def)
  from gx.rs_run_inv [OF assms(1) this] show ?thesis
    using gx.rs_record_dropped by (auto simp: gx.rs_inv_def)
qed

lemma mx_demo_try_reset:
  "mx_try_reset (mx_demo\<lparr>mx_size := 8\<rparr>) = (mx_demo\<lparr>mx_size := 8, mx_doing_reset := True\<rparr>, True)"
  by (simp add: mx_try_reset_def mx_sampling_size_def)

lemma mx_demo_size_ok: "mx_ok (mx_demo\<lparr>mx_size := z\<rparr>)"
  using mx_demo_ok by (simp add: mx_ok_def mx_blocks_def mx_depth_def)

lemma mx_demo_run:
  "rs_run f (mx_demo\<lparr>mx_size := 8\<rparr>, []) [Try_reset]
     (mx_demo\<lparr>mx_size := 8, mx_doing_reset := True\<rparr>, [Run_reset])"
  using rs_step.try_reset [OF mx_demo_try_reset, of f "[]"] by (auto intro: rs_run.intros)

theorem gx_reset_invariant_witness:
  "mx_ok (mx_demo\<lparr>mx_size := 8, mx_doing_reset := True\<rparr>)"
  using gx_reset_invariant [OF mx_demo_run mx_demo_size_ok] by simp

text \<open>C27. Aging completes under every schedule: whatever the started threads have done so far, as long as
  only they run, they can go on until each has taken its remaining steps (two before \<open>reset\<close>, one
  after it) and no longer, and then the flag is clear, no thread is left, and every counter has been
  divided by two once for each thread that had not called \<open>reset\<close> yet.\<close>

theorem reset_threads_complete:
  assumes "mx_ok s" and "ths \<noteq> []" and "rs_run record_access (s, ths) ls (s', ths')"
    and "\<forall>l\<in>set ls. \<exists>i. l = Thread i"
  shows "length ls \<le> sum_list (map steps_left ths) \<and>
    (length ls < sum_list (map steps_left ths) \<longrightarrow> (\<exists>i c. rs_step record_access (s', ths') (Thread i) c)) \<and>
    (length ls = sum_list (map steps_left ths) \<longrightarrow> ths' = [] \<and> \<not> mx_doing_reset s' \<and> mx_ok s' \<and>
       (\<forall>x. fst x < length (mx_mix_counters s) \<longrightarrow>
          lv_est (mx_mix_counters s') x = lv_est (mx_mix_counters s) x div 2 ^ count_list ths Run_reset))"
proof -
  note run = thread_steps_run [OF assms(3,4), unfolded fst_conv snd_conv, OF assms(1), rule_format]
  have "ths' = []" if "thread_steps ths' = 0" using that by (cases ths'; cases "hd ths'") auto
  then show ?thesis
    using run assms(2) thread_can_step [of ths' record_access s'] by (fastforce simp: halved_def)
qed

text \<open>Two threads whose steps alternate.\<close>

theorem reset_threads_complete_witness:
  "\<exists>s'. rs_run iv_record (mx_demo, [Run_reset, Run_reset]) [Thread 1, Thread 0, Thread 1, Thread 0] (s', []) \<and>
    \<not> mx_doing_reset s' \<and>
    (\<forall>x. fst x < length (mx_mix_counters mx_demo) \<longrightarrow>
       lv_est (mx_mix_counters s') x = lv_est (mx_mix_counters mx_demo) x div 4)"
proof -
  let ?s = "mx_reset (mx_reset mx_demo)"
  let ?s' = "?s\<lparr>mx_doing_reset := False\<rparr>"
  have "rs_step iv_record (mx_demo, [Run_reset, Run_reset]) (Thread 1) (mx_reset mx_demo, [Run_reset, Clear_flag])"
    and "rs_step iv_record (mx_reset mx_demo, [Run_reset, Clear_flag]) (Thread 0) (?s, [Clear_flag, Clear_flag])"
    and "rs_step iv_record (?s, [Clear_flag, Clear_flag]) (Thread 1) (?s', [Clear_flag])"
    and "rs_step iv_record (?s', [Clear_flag]) (Thread 0) (?s', [])"
    using rs_step.run_reset [of 1 "[Run_reset, Run_reset]"] rs_step.run_reset [of 0 "[Run_reset, Clear_flag]"]
      rs_step.clear_flag [of 1 "[Clear_flag, Clear_flag]"] rs_step.clear_flag [of 0 "[Clear_flag]" iv_record ?s']
    by simp_all
  then have run: "rs_run iv_record (mx_demo, [Run_reset, Run_reset]) [Thread 1, Thread 0, Thread 1, Thread 0] (?s', [])"
    by (blast intro: rs_run.intros)
  from reset_threads_complete [OF mx_demo_ok _ this] show ?thesis
    by (intro exI [of _ ?s'] conjI run) simp_all
qed

text \<open>The flag does not exclude a second reset: \<open>try_reset\<close> does not test it, so two calls in a row
  start two threads, and when the first of them has finished the flag is clear, accesses are
  recorded again, and the second thread is still going to halve the counters under them.\<close>

theorem reset_flag_not_exclusive:
  assumes "mx_sampling_size s \<le> mx_size s"
  shows "\<exists>s'. rs_run record_access (s, []) [Try_reset, Try_reset, Thread 0, Thread 0]
           (s', [Run_reset]) \<and> \<not> mx_doing_reset s'"
proof -
  let ?s1 = "s\<lparr>mx_doing_reset := True\<rparr>"
  have "mx_try_reset s = (?s1, True)" "mx_try_reset ?s1 = (?s1, True)"
    using assms by (simp_all add: mx_try_reset_def mx_sampling_size_def)
  then have "rs_step record_access (s, []) Try_reset (?s1, [Run_reset])"
    and "rs_step record_access (?s1, [Run_reset]) Try_reset (?s1, [Run_reset, Run_reset])"
    using rs_step.try_reset [of s ?s1 True record_access "[]"]
      rs_step.try_reset [of ?s1 ?s1 True record_access "[Run_reset]"] by simp_all
  then have "rs_run record_access (s, []) [Try_reset, Try_reset] (?s1, [Run_reset, Run_reset])"
    by (blast intro: rs_run.intros)
  from rs_run_append [OF this thread_runs] show ?thesis by fastforce
qed

theorem reset_flag_not_exclusive_witness:
  "\<exists>s'. rs_run gx_record (mx_demo\<lparr>mx_size := 8\<rparr>, []) [Try_reset, Try_reset, Thread 0, Thread 0]
           (s', [Run_reset]) \<and> \<not> mx_doing_reset s'"
  by (rule reset_flag_not_exclusive) (simp add: mx_sampling_size_def)

end
