(* ===== verification/Md5.thy ===== *)
theory Md5
  imports Detail
begin

section \<open>Route keys (\<open>include/rest_rpc/md5.hpp\<close>)\<close>

text \<open>
  The namespace \<open>MD5\<close>: the hash that turns the name of a remote function into its 32-bit key. The
  first part follows the functions of the struct \<open>MD5CE\<close>; a message is a list of bytes with its
  32-bit length beside it, as in the code. The second part is the algorithm as RFC 1321 describes it
  (padding of the whole message, the four auxiliary functions, the operations on rotating registers),
  and the lemmas show that the code computes it for messages below \<open>2 ^ 29\<close> bytes.
\<close>

subsection \<open>Data\<close>

record intermediate_data =
  md_a :: u32
  md_b :: u32
  md_c :: u32
  md_d :: u32

definition kConstants :: "u32 list" where
  "kConstants =
    [0xd76aa478, 0xe8c7b756, 0x242070db, 0xc1bdceee, 0xf57c0faf, 0x4787c62a,
     0xa8304613, 0xfd469501, 0x698098d8, 0x8b44f7af, 0xffff5bb1, 0x895cd7be,
     0x6b901122, 0xfd987193, 0xa679438e, 0x49b40821, 0xf61e2562, 0xc040b340,
     0x265e5a51, 0xe9b6c7aa, 0xd62f105d, 0x02441453, 0xd8a1e681, 0xe7d3fbc8,
     0x21e1cde6, 0xc33707d6, 0xf4d50d87, 0x455a14ed, 0xa9e3e905, 0xfcefa3f8,
     0x676f02d9, 0x8d2a4c8a, 0xfffa3942, 0x8771f681, 0x6d9d6122, 0xfde5380c,
     0xa4beea44, 0x4bdecfa9, 0xf6bb4b60, 0xbebfbc70, 0x289b7ec6, 0xeaa127fa,
     0xd4ef3085, 0x04881d05, 0xd9d4d039, 0xe6db99e5, 0x1fa27cf8, 0xc4ac5665,
     0xf4292244, 0x432aff97, 0xab9423a7, 0xfc93a039, 0x655b59c3, 0x8f0ccc92,
     0xffeff47d, 0x85845dd1, 0x6fa87e4f, 0xfe2ce6e0, 0xa3014314, 0x4e0811a1,
     0xf7537e82, 0xbd3af235, 0x2ad7d2bb, 0xeb86d391]"

definition kShifts :: "nat list" where
  "kShifts = [7, 12, 17, 22, 5, 9, 14, 20, 4, 11, 16, 23, 6, 10, 15, 21]"

definition kInitialIntermediateData :: intermediate_data where
  "kInitialIntermediateData =
     \<lparr>md_a = 0x67452301, md_b = 0xefcdab89, md_c = 0x98badcfe, md_d = 0x10325476\<rparr>"

subsection \<open>Padded message\<close>

definition get_padded_message_length :: "u32 \<Rightarrow> u32" where
  "get_padded_message_length n = (n + 1 + 8 + 63) div 64 * 64"

definition extract_byte :: "u64 \<Rightarrow> u32 \<Rightarrow> u8" where
  "extract_byte value i = ucast (drop_bit (unat i * 8) value AND 0xff)"

text \<open>The product \<open>n * 8\<close> is taken in 32 bits before it is widened.\<close>

definition get_padded_message_byte :: "u8 list \<Rightarrow> u32 \<Rightarrow> u32 \<Rightarrow> u32 \<Rightarrow> u8" where
  "get_padded_message_byte data n m i =
     (if i < n then data ! unat i
      else if i = n then 0x80
      else if i \<ge> m - 8 then extract_byte (ucast (n * 8)) (i - (m - 8))
      else 0)"

definition get_padded_message_word :: "u8 list \<Rightarrow> u32 \<Rightarrow> u32 \<Rightarrow> u32 \<Rightarrow> u32" where
  "get_padded_message_word data n m i =
     ucast (get_padded_message_byte data n m i) OR
     push_bit 8 (ucast (get_padded_message_byte data n m (i + 1))) OR
     push_bit 16 (ucast (get_padded_message_byte data n m (i + 2))) OR
     push_bit 24 (ucast (get_padded_message_byte data n m (i + 3)))"

definition get_round_data :: "u8 list \<Rightarrow> u32 \<Rightarrow> u32 \<Rightarrow> u32 \<Rightarrow> u32 list" where
  "get_round_data data n m i =
     map (\<lambda>j. get_padded_message_word data n m (i + of_nat (4 * j))) [0..<16]"

subsection \<open>Mixing\<close>

definition calc_f :: "nat \<Rightarrow> u32 \<Rightarrow> u32 \<Rightarrow> u32 \<Rightarrow> u32" where
  "calc_f i b c d =
     (if i < 16 then d XOR (b AND (c XOR d))
      else if i < 32 then c XOR (d AND (b XOR c))
      else if i < 48 then b XOR c XOR d
      else c XOR (b OR NOT d))"

definition calc_g :: "nat \<Rightarrow> nat" where
  "calc_g i =
     (if i < 16 then i
      else if i < 32 then (5 * i + 1) mod 16
      else if i < 48 then (3 * i + 5) mod 16
      else (7 * i) mod 16)"

definition get_shift :: "nat \<Rightarrow> nat" where
  "get_shift i = kShifts ! ((i div 16) * 4 + i mod 4)"

definition left_rotate :: "u32 \<Rightarrow> nat \<Rightarrow> u32" where
  "left_rotate value bits = push_bit bits value OR drop_bit (32 - bits) value"

definition apply_step :: "nat \<Rightarrow> u32 list \<Rightarrow> intermediate_data \<Rightarrow> intermediate_data" where
  "apply_step i data im =
     (let g = calc_g i;
          f = calc_f i (md_b im) (md_c im) (md_d im) + md_a im + kConstants ! i + data ! g;
          s = get_shift i
      in \<lparr>md_a = md_d im, md_b = md_b im + left_rotate f s, md_c = md_b im, md_d = md_c im\<rparr>)"

definition md_add :: "intermediate_data \<Rightarrow> intermediate_data \<Rightarrow> intermediate_data" where
  "md_add x y = \<lparr>md_a = md_a x + md_a y, md_b = md_b x + md_b y, md_c = md_c x + md_c y,
                 md_d = md_d x + md_d y\<rparr>"

text \<open>\<open>m\<close> is a multiple of 64, so the offsets are the multiples of 64 below it.\<close>

definition process_message :: "u8 list \<Rightarrow> u32 \<Rightarrow> intermediate_data" where
  "process_message message n =
     (let m = get_padded_message_length n
      in fold (\<lambda>k intermediate0.
                 let data = get_round_data message n m (of_nat (64 * k));
                     intermediate1 = fold (\<lambda>i im. apply_step i data im) [0..<64] intermediate0
                 in md_add intermediate0 intermediate1)
           [0..<unat m div 64] kInitialIntermediateData)"

subsection \<open>Wrappers\<close>

definition string_length :: "u8 list \<Rightarrow> u32" where
  "string_length string = of_nat (length (takeWhile (\<lambda>c. c \<noteq> 0) string))"

definition swap_endian :: "u32 \<Rightarrow> u32" where
  "swap_endian a =
     push_bit 24 (a AND 0xff) OR push_bit 16 (drop_bit 8 a AND 0xff) OR
     push_bit 8 (drop_bit 16 a AND 0xff) OR (drop_bit 24 a AND 0xff)"

definition hash64 :: "u8 list \<Rightarrow> u32 \<Rightarrow> u64" where
  "hash64 data n =
     (let im = process_message data n
      in push_bit 32 (ucast (swap_endian (md_a im))) OR ucast (swap_endian (md_b im)))"

definition hash32 :: "u8 list \<Rightarrow> u32 \<Rightarrow> u32" where
  "hash32 data n = swap_endian (md_a (process_message data n))"

definition md5_hash32 :: "u8 list \<Rightarrow> u32" where
  "md5_hash32 string = hash32 string (string_length string)"

definition md5_hash32_n :: "u8 list \<Rightarrow> u32 \<Rightarrow> u32" where
  "md5_hash32_n string len = hash32 string len"

subsection \<open>The algorithm of RFC 1321\<close>

text \<open>Step 1 and 2: a one bit, zero bits up to 448 modulo 512, and the length in bits as 64 bits.\<close>

definition rfc_pad :: "u8 list \<Rightarrow> u8 list" where
  "rfc_pad msg = msg @ [0x80] @ replicate ((119 - length msg mod 64) mod 64) 0 @
     le_bytes 8 (of_nat (8 * length msg) :: u64)"

text \<open>A block of sixteen words, low-order byte first.\<close>

definition rfc_word :: "u8 list \<Rightarrow> nat \<Rightarrow> u32" where
  "rfc_word bytes i = ucast (bytes ! i) + 0x100 * ucast (bytes ! (i + 1)) +
     0x10000 * ucast (bytes ! (i + 2)) + 0x1000000 * ucast (bytes ! (i + 3))"

definition rfc_block :: "u8 list \<Rightarrow> nat \<Rightarrow> u32 list" where
  "rfc_block bytes k = map (\<lambda>j. rfc_word bytes (64 * k + 4 * j)) [0..<16]"

definition rfc_function :: "nat \<Rightarrow> u32 \<Rightarrow> u32 \<Rightarrow> u32 \<Rightarrow> u32" where
  "rfc_function round x y z =
     (if round = 0 then (x AND y) OR (NOT x AND z)
      else if round = 1 then (x AND z) OR (y AND NOT z)
      else if round = 2 then x XOR y XOR z
      else y XOR (x OR NOT z))"

text \<open>The word indices and rotations of the 64 operations, as the RFC lists them.\<close>

definition rfc_index :: "nat list" where
  "rfc_index =
     [0, 1, 2, 3, 4, 5, 6, 7, 8, 9, 10, 11, 12, 13, 14, 15,
      1, 6, 11, 0, 5, 10, 15, 4, 9, 14, 3, 8, 13, 2, 7, 12,
      5, 8, 11, 14, 1, 4, 7, 10, 13, 0, 3, 6, 9, 12, 15, 2,
      0, 7, 14, 5, 12, 3, 10, 1, 8, 15, 6, 13, 4, 11, 2, 9]"

definition rfc_rotation :: "nat list" where
  "rfc_rotation =
     concat (replicate 4 [7, 12, 17, 22]) @ concat (replicate 4 [5, 9, 14, 20]) @
     concat (replicate 4 [4, 11, 16, 23]) @ concat (replicate 4 [6, 10, 15, 21])"

text \<open>Operation \<open>i\<close>, \<open>[abcd k s i]\<close>: the registers \<open>A B C D\<close> keep their places and the roles move
  through \<open>ABCD\<close>, \<open>DABC\<close>, \<open>CDAB\<close>, \<open>BCDA\<close>.\<close>

definition rfc_role :: "nat \<Rightarrow> nat \<Rightarrow> nat" where
  "rfc_role i j = (j + 3 * i) mod 4"

definition rfc_operation :: "u32 list \<Rightarrow> nat \<Rightarrow> u32 list \<Rightarrow> u32 list" where
  "rfc_operation x i regs =
     (let a = rfc_role i 0; b = rfc_role i 1; c = rfc_role i 2; d = rfc_role i 3
      in regs[a := regs ! b + word_rotl (rfc_rotation ! i)
           (regs ! a + rfc_function (i div 16) (regs ! b) (regs ! c) (regs ! d) +
            x ! (rfc_index ! i) + kConstants ! i)])"

definition rfc_md5 :: "u8 list \<Rightarrow> u32 list" where
  "rfc_md5 msg =
     (let bytes = rfc_pad msg
      in fold (\<lambda>k regs. map2 (+) regs (fold (rfc_operation (rfc_block bytes k)) [0..<64] regs))
           [0..<length bytes div 64] [0x67452301, 0xefcdab89, 0x98badcfe, 0x10325476])"

subsection \<open>One operation\<close>

lemma calc_f_rfc: "calc_f i b c d = rfc_function (i div 16) b c d"
proof -
  have f: "d XOR (b AND (c XOR d)) = (b AND c) OR (NOT b AND d)"
    by (rule bit_word_eqI) (auto simp: bit_simps)
  have g: "c XOR (d AND (b XOR c)) = (b AND d) OR (c AND NOT d)"
    by (rule bit_word_eqI) (auto simp: bit_simps)
  have "i div 16 = 0 \<longleftrightarrow> i < 16" and "i div 16 = 1 \<longleftrightarrow> 16 \<le> i \<and> i < 32"
    and "i div 16 = 2 \<longleftrightarrow> 32 \<le> i \<and> i < 48" by linarith+
  then show ?thesis by (simp add: calc_f_def rfc_function_def f g)
qed

lemma left_rotate_rotl:
  assumes "0 < s" and "s < 32"
  shows "left_rotate w s = word_rotl s w"
proof (rule bit_word_eqI)
  fix n assume "n < LENGTH(32)"
  then have n: "n < 32" by simp
  have "(n + (32 - s)) mod 32 = (if s \<le> n then n - s else n + (32 - s))"
  proof (cases "s \<le> n")
    case True
    then have "n + (32 - s) = (n - s) + 32" using assms by simp
    moreover have "(n - s + 32) mod 32 = n - s" using n by simp
    ultimately show ?thesis using True by (simp only: if_True)
  qed (use n assms in simp)
  then show "bit (left_rotate w s) n = bit (word_rotl s w) n"
    using n assms by (auto simp: left_rotate_def bit_simps bit_word_rotl_iff
        dest: bit_imp_le_length) (simp_all add: add.commute [of 32 n])
qed

lemma tables_rfc:
  assumes "i < 64"
  shows "calc_g i = rfc_index ! i" and "get_shift i = rfc_rotation ! i"
    and "0 < rfc_rotation ! i" and "rfc_rotation ! i < 32"
proof -
  have "\<forall>i\<in>set [0..<64]. calc_g i = rfc_index ! i \<and> get_shift i = rfc_rotation ! i \<and>
      0 < rfc_rotation ! i \<and> rfc_rotation ! i < 32" by code_simp
  then show "calc_g i = rfc_index ! i" "get_shift i = rfc_rotation ! i" "0 < rfc_rotation ! i"
    "rfc_rotation ! i < 32" using assms by simp_all
qed

text \<open>The code renames the registers in every step instead of moving the roles.\<close>

definition roles_match :: "nat \<Rightarrow> intermediate_data \<Rightarrow> u32 list \<Rightarrow> bool" where
  "roles_match i im regs \<longleftrightarrow> length regs = 4 \<and>
     md_a im = regs ! rfc_role i 0 \<and> md_b im = regs ! rfc_role i 1 \<and>
     md_c im = regs ! rfc_role i 2 \<and> md_d im = regs ! rfc_role i 3"

lemma rfc_role_mod: "rfc_role i j = (j + 3 * (i mod 4)) mod 4"
  unfolding rfc_role_def by (metis mod_add_right_eq mod_mult_right_eq)

lemma rfc_role_cases:
  "(rfc_role i 0, rfc_role i 1, rfc_role i 2, rfc_role i 3) \<in>
     {(0, 1, 2, 3), (3, 0, 1, 2), (2, 3, 0, 1), (1, 2, 3, 0)} \<and>
   rfc_role (Suc i) 0 = rfc_role i 3 \<and> rfc_role (Suc i) 1 = rfc_role i 0 \<and>
   rfc_role (Suc i) 2 = rfc_role i 1 \<and> rfc_role (Suc i) 3 = rfc_role i 2"
proof -
  have "i mod 4 < 4" by simp
  then consider "i mod 4 = 0" | "i mod 4 = 1" | "i mod 4 = 2" | "i mod 4 = 3" by linarith
  then show ?thesis
    by cases (simp_all add: rfc_role_mod mod_Suc)
qed

lemma apply_step_rfc:
  assumes "i < 64" and "roles_match i im regs"
  shows "roles_match (Suc i) (apply_step i x im) (rfc_operation x i regs)"
proof -
  note t = tables_rfc [OF assms(1)]
  have "left_rotate w (get_shift i) = word_rotl (rfc_rotation ! i) w" for w
    unfolding t(2) using t(3,4) by (rule left_rotate_rotl)
  then show ?thesis
    using assms(2) rfc_role_cases [of i]
    by (auto simp: roles_match_def apply_step_def rfc_operation_def Let_def t(1) calc_f_rfc ac_simps)
qed

lemma apply_steps_rfc:
  assumes "roles_match 0 im regs" and "n \<le> 64"
  shows "roles_match n (fold (\<lambda>i im. apply_step i x im) [0..<n] im) (fold (rfc_operation x) [0..<n] regs)"
  using assms(2) by (induction n) (auto simp: assms(1) intro: apply_step_rfc)

subsection \<open>Padding\<close>

definition padded_length :: "nat \<Rightarrow> nat" where
  "padded_length len = (len + 72) div 64 * 64"

lemma padded_length_split:
  "len + 9 + (119 - len mod 64) mod 64 = padded_length len"
proof -
  define q r where "q = len div 64" and "r = len mod 64"
  have len: "len = 64 * q + r" and r: "r < 64" by (simp_all add: q_def r_def)
  have m: "len mod 64 = r" by (simp add: r_def)
  show ?thesis
  proof (cases "r \<le> 55")
    case True
    then have "119 - r = (55 - r) + 64" by simp
    then have "(119 - r) mod 64 = 55 - r" by (simp only: mod_add_self2) simp
    moreover have "(len + 72) div 64 = q + 1" using True unfolding len by simp
    ultimately show ?thesis using True by (simp add: padded_length_def m len)
  next
    case False
    then have "(119 - r) mod 64 = 119 - r" by simp
    moreover have "(len + 72) div 64 = q + 2" using False r unfolding len by simp
    ultimately show ?thesis using False r by (simp add: padded_length_def m len)
  qed
qed

lemma length_rfc_pad: "length (rfc_pad msg) = padded_length (length msg)"
  using padded_length_split [of "length msg"] by (simp add: rfc_pad_def le_bytes_def)

lemma unat_of_nat_u32: "k < 2 ^ 32 \<Longrightarrow> unat (of_nat k :: u32) = k"
  by (simp add: unsigned_of_nat take_bit_nat_eq_self)

lemma get_padded_message_length_rfc:
  assumes "len < 2 ^ 32 - 72"
  shows "unat (get_padded_message_length (of_nat len)) = padded_length len"
proof -
  have e: "(of_nat len + 1 + 8 + 63 :: u32) = of_nat (len + 72)" by simp
  have d: "unat (of_nat (len + 72) div 64 :: u32) = (len + 72) div 64"
    using assms unat_of_nat_u32 [of "len + 72"] by (simp add: unat_div_mod(1) del: of_nat_add)
  have "(len + 72) div 64 * 64 \<le> len + 72" by simp
  then have b: "(len + 72) div 64 * 64 < 2 ^ 32" using assms by simp
  show ?thesis
    unfolding get_padded_message_length_def e padded_length_def
    using b by (simp add: unat_word_ariths(2) d del: of_nat_add)
qed

lemma extract_byte_le: "extract_byte v i = ucast (drop_bit (8 * unat i) v)"
proof (rule bit_word_eqI)
  fix n assume "n < LENGTH(8)"
  then have "bit (255 :: int) n"
    by (simp add: bit_iff_odd) (use mask_eq_exp_minus_1 [of 8, where 'a = int] bit_mask_iff [of 8 n, where 'a = int] in \<open>simp add: bit_iff_odd\<close>)
  then show "bit (extract_byte v i) n = bit (ucast (drop_bit (8 * unat i) v) :: u8) n"
    using \<open>n < LENGTH(8)\<close> by (simp add: extract_byte_def bit_simps mult.commute)
qed

lemma padded_byte_rfc:
  assumes "length msg < 2 ^ 29" and "i < padded_length (length msg)"
  shows "get_padded_message_byte msg (of_nat (length msg))
           (get_padded_message_length (of_nat (length msg))) (of_nat i) = rfc_pad msg ! i"
proof -
  let ?len = "length msg" and ?P = "padded_length (length msg)"
  define z where "z = (119 - ?len mod 64) mod 64"
  have P: "?P = ?len + 9 + z" using padded_length_split [of ?len] by (simp add: z_def)
  have "?P \<le> ?len + 72" by (simp add: padded_length_def)
  then have P32: "?P < 2 ^ 32" using assms(1) by simp
  define m where "m = get_padded_message_length (of_nat ?len)"
  have m: "unat m = ?P" using get_padded_message_length_rfc [of ?len] assms(1) by (simp add: m_def)
  have m8: "unat (m - 8) = ?P - 8" using m P by (simp add: unat_sub word_le_nat_alt)
  have i: "unat (of_nat i :: u32) = i" and n: "unat (of_nat ?len :: u32) = ?len"
    using assms P32 by (simp_all add: unat_of_nat_u32)
  have pad: "rfc_pad msg = msg @ [0x80] @ replicate z 0 @ le_bytes 8 (of_nat (8 * ?len) :: u64)"
    by (simp add: rfc_pad_def z_def)
  have lt: "(of_nat i :: u32) < of_nat ?len \<longleftrightarrow> i < ?len" by (simp add: word_less_nat_alt i n)
  have eq: "(of_nat i :: u32) = of_nat ?len \<longleftrightarrow> i = ?len" by (metis i n)
  have ge: "m - 8 \<le> of_nat i \<longleftrightarrow> ?P - 8 \<le> i" by (simp add: word_le_nat_alt i m8)
  consider "i < ?len" | "i = ?len" | "?len < i" "i < ?P - 8" | "?P - 8 \<le> i" "?len < i" by linarith
  then show ?thesis
  proof cases
    case 3
    then obtain j where j: "i = ?len + 1 + j" using less_imp_Suc_add [of ?len i] by auto
    then have "j < z" using 3 P by simp
    then have "rfc_pad msg ! i = 0" unfolding pad j by (simp add: nth_append)
    then show ?thesis using 3 by (simp add: get_padded_message_byte_def lt eq ge m_def [symmetric])
  next
    case 4
    then obtain j where j: "i = ?len + 1 + z + j" using le_Suc_ex [of "?P - 8" i] P by auto
    then have j8: "j < 8" using assms(2) P by simp
    have "unat (of_nat i - (m - 8)) = unat (of_nat i :: u32) - unat (m - 8)"
      using 4 ge by (intro unat_sub) simp
    then have s: "unat (of_nat i - (m - 8)) = j" using i m8 j P by linarith
    have l: "ucast (of_nat ?len * 8 :: u32) = (of_nat (8 * ?len) :: u64)"
    proof -
      have "unat (of_nat ?len * 8 :: u32) = 8 * ?len"
        using assms(1) n by (simp add: unat_word_ariths(2))
      moreover have "unat (of_nat (8 * ?len) :: u64) = 8 * ?len"
        using assms(1) by (simp add: unsigned_of_nat take_bit_nat_eq_self del: of_nat_mult)
      ultimately show ?thesis by (simp add: word_unat_eq_iff)
    qed
    have "rfc_pad msg ! i = ucast (drop_bit (8 * j) (of_nat (8 * ?len) :: u64))"
      unfolding pad j using j8 by (simp add: nth_append le_bytes_def)
    then show ?thesis
      using 4 by (simp add: get_padded_message_byte_def lt eq ge m_def [symmetric] extract_byte_le s l
          del: of_nat_mult)
  qed (simp_all add: get_padded_message_byte_def lt eq pad nth_append i)
qed

lemma four_bytes:
  fixes a b c d :: u8
  shows "ucast a OR push_bit 8 (ucast b) OR push_bit 16 (ucast c) OR push_bit 24 (ucast d)
     = (ucast a + 0x100 * ucast b + 0x10000 * ucast c + 0x1000000 * ucast d :: u32)"
proof -
  have m: "push_bit 8 x = 0x100 * x" "push_bit 16 x = 0x10000 * x" "push_bit 24 x = 0x1000000 * x"
    for x :: u32 by (simp_all add: push_bit_eq_mult)
  have ab: "ucast a + push_bit 8 (ucast b) = (ucast a OR push_bit 8 (ucast b) :: u32)"
    by (rule disjunctive_add) (auto simp: bit_simps dest: bit_imp_le_length)
  have abc: "(ucast a OR push_bit 8 (ucast b)) + push_bit 16 (ucast c)
      = (ucast a OR push_bit 8 (ucast b) OR push_bit 16 (ucast c) :: u32)"
    by (subst disjunctive_add) (auto simp: bit_simps or.assoc dest: bit_imp_le_length)
  have "(ucast a OR push_bit 8 (ucast b) OR push_bit 16 (ucast c)) + push_bit 24 (ucast d)
      = (ucast a OR push_bit 8 (ucast b) OR push_bit 16 (ucast c) OR push_bit 24 (ucast d) :: u32)"
    by (subst disjunctive_add) (auto simp: bit_simps or.assoc dest: bit_imp_le_length)
  then show ?thesis unfolding m [symmetric] ab [symmetric] abc [symmetric] by (simp only: add.assoc)
qed

lemma round_data_rfc:
  assumes "length msg < 2 ^ 29" and "k < padded_length (length msg) div 64"
  shows "get_round_data msg (of_nat (length msg))
           (get_padded_message_length (of_nat (length msg))) (of_nat (64 * k))
         = rfc_block (rfc_pad msg) k"
proof -
  let ?n = "of_nat (length msg) :: u32" and ?P = "padded_length (length msg)"
  let ?byte = "get_padded_message_byte msg ?n (get_padded_message_length ?n)"
  have "get_padded_message_word msg ?n (get_padded_message_length ?n) (of_nat (64 * k) + of_nat (4 * j))
      = rfc_word (rfc_pad msg) (64 * k + 4 * j)" if j: "j < 16" for j
  proof -
    let ?i = "64 * k + 4 * j"
    have "Suc k * 64 \<le> ?P div 64 * 64" using assms(2) by (intro mult_right_mono) simp_all
    also have "?P div 64 * 64 = ?P" by (simp add: padded_length_def)
    finally have lt: "?i + l < ?P" if "l < 4" for l using j that by simp
    have b: "?byte (of_nat ?i + of_nat l) = rfc_pad msg ! (?i + l)" if "l < 4" for l
      using padded_byte_rfc [OF assms(1) lt [OF that]] by simp
    show ?thesis
      using b [of 0] b [of 1] b [of 2] b [of 3]
      by (simp add: get_padded_message_word_def rfc_word_def four_bytes)
  qed
  then show ?thesis by (simp add: get_round_data_def rfc_block_def)
qed

subsection \<open>The whole message\<close>

definition md_list :: "intermediate_data \<Rightarrow> u32 list" where
  "md_list im = [md_a im, md_b im, md_c im, md_d im]"

lemma rfc_role_0: "rfc_role 0 0 = 0" "rfc_role 0 1 = 1" "rfc_role 0 2 = 2" "rfc_role 0 3 = 3"
  by (simp_all add: rfc_role_def)

lemma roles_match_0: "roles_match 0 im regs \<longleftrightarrow> regs = md_list im"
proof
  assume r: "roles_match 0 im regs"
  then obtain a b c d where "regs = [a, b, c, d]"
    by (auto simp: roles_match_def eval_nat_numeral length_Suc_conv)
  then show "regs = md_list im" using r unfolding roles_match_def rfc_role_0 by (simp add: md_list_def)
next
  assume "regs = md_list im"
  then show "roles_match 0 im regs" unfolding roles_match_def rfc_role_0 by (simp add: md_list_def)
qed

lemma roles_match_64: "roles_match 64 im regs \<longleftrightarrow> regs = md_list im"
proof -
  have "roles_match 64 im regs = roles_match 0 im regs" by (simp add: roles_match_def rfc_role_def)
  then show ?thesis by (simp only: roles_match_0)
qed

lemma round_rfc:
  "md_list (md_add im (fold (\<lambda>i im. apply_step i x im) [0..<64] im))
     = map2 (+) (md_list im) (fold (rfc_operation x) [0..<64] (md_list im))"
proof -
  have "fold (rfc_operation x) [0..<64] (md_list im)
      = md_list (fold (\<lambda>i im. apply_step i x im) [0..<64] im)"
    using apply_steps_rfc [of im "md_list im" 64 x] by (simp add: roles_match_0 roles_match_64)
  then show ?thesis by (simp add: md_list_def md_add_def)
qed

lemma process_message_rfc:
  assumes "length msg < 2 ^ 29"
  shows "md_list (process_message msg (of_nat (length msg))) = rfc_md5 msg"
proof -
  let ?P = "padded_length (length msg)"
  let ?f = "\<lambda>k im. md_add im (fold (\<lambda>i im. apply_step i (rfc_block (rfc_pad msg) k) im) [0..<64] im)"
  let ?g = "\<lambda>k regs. map2 (+) regs (fold (rfc_operation (rfc_block (rfc_pad msg) k)) [0..<64] regs)"
  have "md_list (fold ?f ks im) = fold ?g ks (md_list im)" for ks im
    by (induction ks arbitrary: im) (simp_all only: fold_simps round_rfc)
  moreover have "process_message msg (of_nat (length msg))
      = fold ?f [0..<?P div 64] kInitialIntermediateData"
    using round_data_rfc [OF assms]
      get_padded_message_length_rfc [of "length msg"] assms
    by (auto simp: process_message_def Let_def intro!: fold_cong)
  ultimately show ?thesis
    by (simp add: rfc_md5_def Let_def length_rfc_pad md_list_def kInitialIntermediateData_def)
qed

subsection \<open>The route key\<close>

text \<open>Reversing the bytes: the key is the first word of the digest in reading order.\<close>

lemma le_bytes_4: "le_bytes 4 w = [ucast w, ucast (drop_bit 8 w), ucast (drop_bit 16 w), ucast (drop_bit 24 w)]"
  by (simp add: le_bytes_def upt_rec)

lemma bit_255: "bit (255 :: int) n \<longleftrightarrow> n < 8"
proof -
  have "(255 :: int) = mask 8" by (simp add: mask_eq_exp_minus_1)
  then show ?thesis by (simp only: bit_mask_iff) auto
qed

lemma le_bytes_swap_endian: "le_bytes 4 (swap_endian a) = rev (le_bytes 4 a)"
  unfolding le_bytes_4 swap_endian_def
  by (auto intro!: bit_word_eqI simp: bit_simps bit_255)

text \<open>Evaluation of the mixing steps on concrete words.\<close>

lemma apply_step_eval:
  "apply_step i data \<lparr>md_a = a, md_b = b, md_c = c, md_d = d\<rparr> =
     \<lparr>md_a = d, md_b = b + left_rotate (calc_f i b c d + a + kConstants ! i + data ! calc_g i) (get_shift i),
      md_c = b, md_d = c\<rparr>"
  by (simp add: apply_step_def Let_def)

lemma left_rotate_eval:
  "left_rotate (numeral v) (numeral b)
     = push_bit (numeral b) (numeral v) OR drop_bit (32 - numeral b) (numeral v)"
  by (simp add: left_rotate_def)

definition abc_block :: "u32 list" where
  "abc_block = [2153996897, 0, 0, 0, 0, 0, 0, 0, 0, 0, 0, 0, 0, 0, 24, 0]"

lemma calc_f_eval:
  "calc_f i b c d =
     (if i < 16 then d XOR (b AND (c XOR d))
      else if i < 32 then c XOR (d AND (b XOR c))
      else if i < 48 then b XOR c XOR d
      else c XOR (b OR (4294967295 XOR d)))"
proof -
  have "(4294967295 :: u32) = - 1" by simp
  then have "4294967295 XOR d = NOT d" by (simp only: bit.xor_one_left)
  then show ?thesis by (simp add: calc_f_def)
qed

lemmas md_eval = apply_step_eval left_rotate_eval abc_block_def calc_g_def calc_f_eval kConstants_def
  get_shift_def kShifts_def upt_rec

lemma abc_round_1:
  "fold (\<lambda>i im. apply_step i abc_block im) [0..<16]
     \<lparr>md_a = 1732584193, md_b = 4023233417, md_c = 2562383102, md_d = 271733878\<rparr>
   = \<lparr>md_a = 3718887846, md_b = 1924133600, md_c = 3818292587, md_d = 2701465749\<rparr>"
  by (simp add: md_eval)

lemma abc_round_2:
  "fold (\<lambda>i im. apply_step i abc_block im) [16..<32]
     \<lparr>md_a = 3718887846, md_b = 1924133600, md_c = 3818292587, md_d = 2701465749\<rparr>
   = \<lparr>md_a = 2030729211, md_b = 1919107795, md_c = 2787673258, md_d = 2672289016\<rparr>"
  by (simp add: md_eval)

lemma abc_round_3:
  "fold (\<lambda>i im. apply_step i abc_block im) [32..<48]
     \<lparr>md_a = 2030729211, md_b = 1919107795, md_c = 2787673258, md_d = 2672289016\<rparr>
   = \<lparr>md_a = 2133741691, md_b = 2079037184, md_c = 2410570649, md_d = 2581161885\<rparr>"
  by (simp add: md_eval)

lemma abc_round_4:
  "fold (\<lambda>i im. apply_step i abc_block im) [48..<64]
     \<lparr>md_a = 2133741691, md_b = 2079037184, md_c = 2410570649, md_d = 2581161885\<rparr>
   = \<lparr>md_a = 822795919, md_b = 3229755059, md_c = 3833903576, md_d = 1649249458\<rparr>"
  by (simp add: md_eval)

lemma abc_block_eq: "rfc_block (rfc_pad [97, 98, 99]) 0 = abc_block"
  by code_simp

lemma md5_abc: "process_message [97, 98, 99] 3
   = \<lparr>md_a = 2555380112, md_b = 2958021180, md_c = 2101319382, md_d = 1920983336\<rparr>"
proof -
  have len: "length [97 :: u8, 98, 99] < 2 ^ 29" by simp
  have m: "unat (get_padded_message_length 3) = 64"
    by (simp add: get_padded_message_length_def)
  have d: "get_round_data [97, 98, 99] 3 (get_padded_message_length 3) 0 = abc_block"
    using round_data_rfc [OF len, of 0] by (simp add: padded_length_def abc_block_eq)
  have split: "[0..<64] = [0..<16] @ [16..<32] @ [32..<48] @ [48..<64]"
    by code_simp
  have "fold (\<lambda>i im. apply_step i abc_block im) [0..<64] kInitialIntermediateData
      = \<lparr>md_a = 822795919, md_b = 3229755059, md_c = 3833903576, md_d = 1649249458\<rparr>"
    unfolding split fold_append comp_apply kInitialIntermediateData_def
    using abc_round_1 abc_round_2 abc_round_3 abc_round_4 by simp
  then show ?thesis
    by (simp add: process_message_def Let_def m d md_add_def kInitialIntermediateData_def)
qed

subsection \<open>Properties\<close>

text \<open>C9. The code computes MD5: for every message below \<open>2 ^ 29\<close> bytes the four result words are those
  of the algorithm of RFC 1321, and the 32-bit key is the first four bytes of the digest, read as a
  big-endian number; the 64-bit hash starts with the same four bytes.\<close>

theorem md5_refines_rfc:
  assumes "length msg < 2 ^ 29"
  shows "md_list (process_message msg (of_nat (length msg))) = rfc_md5 msg \<and>
    rev (le_bytes 4 (hash32 msg (of_nat (length msg))))
      = take 4 (concat (map (le_bytes 4) (rfc_md5 msg))) \<and>
    ucast (drop_bit 32 (hash64 msg (of_nat (length msg)))) = hash32 msg (of_nat (length msg))"
proof -
  let ?im = "process_message msg (of_nat (length msg))"
  have l: "md_list ?im = rfc_md5 msg" using assms by (rule process_message_rfc)
  have "rev (le_bytes 4 (hash32 msg (of_nat (length msg)))) = le_bytes 4 (md_a ?im)"
    by (simp add: hash32_def le_bytes_swap_endian)
  moreover have "take 4 (concat (map (le_bytes 4) (rfc_md5 msg))) = le_bytes 4 (md_a ?im)"
    by (simp add: l [symmetric] md_list_def le_bytes_4)
  moreover have "(ucast (drop_bit 32 (push_bit 32 (ucast a) OR ucast b :: u64)) :: u32) = a" for a b :: u32
    by (rule bit_word_eqI) (auto simp: bit_simps dest: bit_imp_le_length)
  then have "ucast (drop_bit 32 (hash64 msg (of_nat (length msg)))) = hash32 msg (of_nat (length msg))"
    by (simp add: hash64_def hash32_def Let_def)
  ultimately show ?thesis using l by simp
qed

theorem md5_refines_rfc_witness:
  "rfc_md5 [97, 98, 99] = [0x98500190, 0xb04fd23c, 0x7d3f96d6, 0x727fe128] \<and>
   take 4 (concat (map (le_bytes 4) (rfc_md5 [97, 98, 99]))) = [0x90, 0x01, 0x50, 0x98]"
proof -
  have "md_list (process_message [97, 98, 99] 3) = rfc_md5 [97, 98, 99]"
    using md5_refines_rfc [of "[97, 98, 99]"] by simp
  then have "rfc_md5 [97, 98, 99] = [0x98500190, 0xb04fd23c, 0x7d3f96d6, 0x727fe128]"
    by (simp add: md5_abc md_list_def)
  moreover have "le_bytes 4 (0x98500190 :: u32) = [0x90, 0x01, 0x50, 0x98]" by code_simp
  ultimately show ?thesis by (simp add: le_bytes_4)
qed

text \<open>The length field of the padding is taken modulo \<open>2 ^ 32\<close>: for every length the code accepts
  without wrapping the padded size, the last eight bytes are those of \<open>8 * n mod 2 ^ 32\<close> where the
  RFC has \<open>8 * n\<close>; from \<open>2 ^ 29\<close> bytes on the two differ and the result is not MD5.\<close>

theorem md5_length_field:
  assumes "n < 2 ^ 32 - 72" and "j < 8"
  shows "get_padded_message_byte data (of_nat n) (get_padded_message_length (of_nat n))
           (get_padded_message_length (of_nat n) - 8 + of_nat j)
         = le_bytes 8 (of_nat (8 * n mod 2 ^ 32) :: u64) ! j"
proof -
  let ?P = "padded_length n"
  define m where "m = get_padded_message_length (of_nat n)"
  define z where "z = (119 - n mod 64) mod 64"
  have P: "?P = n + 9 + z" using padded_length_split [of n] by (simp add: z_def)
  have "?P \<le> n + 72" by (simp add: padded_length_def)
  then have P32: "?P < 2 ^ 32" using assms(1) by simp
  have m: "unat m = ?P" using get_padded_message_length_rfc [of n] assms(1) by (simp add: m_def)
  have n: "unat (of_nat n :: u32) = n" using assms(1) by (simp add: unat_of_nat_u32)
  define w where "w = (of_nat (n + 1 + z + j) :: u32)"
  have i: "m - 8 + of_nat j = w"
  proof -
    have "m = of_nat ?P" unfolding m [symmetric] by simp
    then show ?thesis by (simp add: P w_def)
  qed
  have u: "unat w = n + 1 + z + j"
    unfolding w_def using P P32 assms(2) by (intro unat_of_nat_u32) simp
  have m8: "unat (m - 8) = n + 1 + z" using m P by (simp add: unat_sub word_le_nat_alt)
  have ge: "m - 8 \<le> w" unfolding word_le_nat_alt m8 u by simp
  then have "unat (w - (m - 8)) = unat w - unat (m - 8)" by (rule unat_sub)
  then have s: "unat (w - (m - 8)) = j" using u m8 by linarith
  have "unat (of_nat n * 8 :: u32) = 8 * n mod 2 ^ 32" by (simp add: unat_word_ariths(2) n mult.commute)
  moreover have "unat (of_nat (8 * n mod 2 ^ 32) :: u64) = 8 * n mod 2 ^ 32"
    by (simp add: unsigned_of_nat take_bit_nat_eq_self)
  ultimately have l: "ucast (of_nat n * 8 :: u32) = (of_nat (8 * n mod 2 ^ 32) :: u64)"
    by (simp add: word_unat_eq_iff)
  have "\<not> w < of_nat n" and "w \<noteq> of_nat n"
    using u n by (auto simp: word_less_nat_alt)
  then have "get_padded_message_byte data (of_nat n) m w
      = ucast (drop_bit (8 * j) (of_nat (8 * n mod 2 ^ 32) :: u64))"
    using ge by (simp add: get_padded_message_byte_def extract_byte_le s l)
  then show ?thesis using assms(2) unfolding m_def [symmetric] i by (simp add: le_bytes_def)
qed

theorem md5_length_field_witness:
  "get_padded_message_byte [] (of_nat (2 ^ 29)) (get_padded_message_length (of_nat (2 ^ 29)))
           (get_padded_message_length (of_nat (2 ^ 29)) - 8 + of_nat 4)
         = le_bytes 8 (of_nat (8 * 2 ^ 29 mod 2 ^ 32) :: u64) ! 4"
  by (rule md5_length_field) simp_all

end
