(* ===== verification/Wire.thy ===== *)
theory Wire
  imports Md5
begin

section \<open>Frames on the wire (\<open>include/rest_rpc/const_vars.h\<close>)\<close>

text \<open>
  The constants of the protocol and the header \<open>rpc_header\<close> that precedes every message in both
  directions. The struct is sent as it lies in memory, packed to four bytes on a little-endian
  machine: the magic number, the request type, two bytes of padding whose contents the code does not
  set, the length of the body, the request id and the id of the called function. \<open>request_type\<close> is
  an \<open>enum class : uint8_t\<close> that is read from the network unchecked, so it is a byte here, with its
  two named values. The code has no function that writes or parses
  the header, it casts a pointer: \<open>encode_header\<close> and \<open>decode_header\<close> are the two readings of the struct's
  layout, and the lemma that they agree is a fact about the model that the components use.
\<close>

type_synonym bytes = "u8 list"

definition bytes_of :: "string \<Rightarrow> bytes" where
  "bytes_of s = map of_char s"

subsection \<open>Constants\<close>

datatype result_code = Result_OK | Result_FAIL

definition result_code_value :: "result_code \<Rightarrow> int" where
  "result_code_value c = (case c of Result_OK \<Rightarrow> 0 | Result_FAIL \<Rightarrow> 1)"

type_synonym request_type = u8

definition req_res :: request_type where
  "req_res = 0"

definition sub_pub :: request_type where
  "sub_pub = 1"

record message_type =
  msg_req_id :: u64
  msg_req_type :: request_type
  msg_content :: bytes

definition MAGIC_NUM :: u8 where
  "MAGIC_NUM = 39"

definition HEAD_LEN :: nat where
  "HEAD_LEN = 20"

definition MAX_BUF_LEN :: nat where
  "MAX_BUF_LEN = 1048576 * 10"

definition INIT_BUF_SIZE :: nat where
  "INIT_BUF_SIZE = 2 * 1024"

lemmas wire_consts = req_res_def sub_pub_def MAGIC_NUM_def HEAD_LEN_def MAX_BUF_LEN_def INIT_BUF_SIZE_def

lemma req_res_neq [simp]: "req_res \<noteq> sub_pub" "sub_pub \<noteq> req_res"
  by (simp_all add: wire_consts)

subsection \<open>The header in memory\<close>

record rpc_header =
  hd_magic :: u8
  hd_req_type :: request_type
  hd_body_len :: u32
  hd_req_id :: u64
  hd_func_id :: u32

text \<open>A word from its bytes, the least significant first; \<open>le_bytes\<close> goes the other way.\<close>

definition le_word :: "bytes \<Rightarrow> 'a::len word" where
  "le_word bs = foldr (\<lambda>b acc. ucast b OR push_bit 8 acc) bs 0"

text \<open>The twenty bytes of the struct; \<open>p\<close> and \<open>q\<close> are the padding.\<close>

definition encode_header :: "u8 \<Rightarrow> u8 \<Rightarrow> rpc_header \<Rightarrow> bytes" where
  "encode_header p q h =
     [hd_magic h, hd_req_type h, p, q] @ le_bytes 4 (hd_body_len h) @
     le_bytes 8 (hd_req_id h) @ le_bytes 4 (hd_func_id h)"

text \<open>\<open>(rpc_header *)(head_)\<close>.\<close>

definition decode_header :: "bytes \<Rightarrow> rpc_header" where
  "decode_header head =
     \<lparr>hd_magic = head ! 0, hd_req_type = head ! 1,
      hd_body_len = le_word (take 4 (drop 4 head)),
      hd_req_id = le_word (take 8 (drop 8 head)),
      hd_func_id = le_word (take 4 (drop 16 head))\<rparr>"

subsection \<open>Lemmas\<close>

lemma length_le_bytes [simp]: "length (le_bytes n w) = n"
  by (simp add: le_bytes_def)

lemma le_word_Nil [simp]: "le_word [] = 0"
  by (simp add: le_word_def)

lemma le_word_Cons: "le_word (b # bs) = ucast b OR push_bit 8 (le_word bs)"
  by (simp add: le_word_def)

lemma bit_le_word:
  "bit (le_word bs :: 'a::len word) i \<longleftrightarrow>
     i < LENGTH('a) \<and> i div 8 < length bs \<and> bit (bs ! (i div 8)) (i mod 8)"
proof (induction bs arbitrary: i)
  case Nil
  then show ?case by simp
next
  case (Cons b bs)
  show ?case
  proof (cases "i < 8")
    case True
    then show ?thesis by (auto simp: le_word_Cons bit_simps)
  next
    case False
    then have "i div 8 = Suc ((i - 8) div 8)" and "i mod 8 = (i - 8) mod 8"
      by (auto simp: le_div_geq le_mod_geq)
    moreover have "\<not> bit b i"
      using False by (auto dest: bit_imp_le_length)
    ultimately show ?thesis
      using False Cons.IH [of "i - 8"] by (auto simp: le_word_Cons bit_simps)
  qed
qed

lemma le_word_le_bytes:
  fixes w :: "'a::len word"
  assumes "LENGTH('a) \<le> 8 * n"
  shows "le_word (le_bytes n w) = w"
proof (rule bit_word_eqI)
  fix i
  assume i: "i < LENGTH('a)"
  have "i div 8 < n" using i assms by (simp add: div_less_iff_less_mult mult.commute)
  then show "bit (le_word (le_bytes n w) :: 'a word) i = bit w i"
    using i by (simp add: bit_le_word le_bytes_def bit_simps)
qed

lemma length_encode_header [simp]: "length (encode_header p q h) = HEAD_LEN"
  by (simp add: encode_header_def HEAD_LEN_def)

lemma decode_encode_header [simp]: "decode_header (encode_header p q h) = h"
proof -
  have 4: "le_word (le_bytes 4 (w :: u32)) = w" for w
    by (rule le_word_le_bytes) simp
  have 8: "le_word (le_bytes 8 (w :: u64)) = w" for w
    by (rule le_word_le_bytes) simp
  have "take 4 (le_bytes 4 (hd_body_len h) @ xs) = le_bytes 4 (hd_body_len h)"
    and "take 4 (drop 12 (le_bytes 4 (hd_body_len h) @ le_bytes 8 (hd_req_id h) @ le_bytes 4 (hd_func_id h)))
           = le_bytes 4 (hd_func_id h)" for xs
    by simp_all
  then show ?thesis
    by (simp add: decode_header_def encode_header_def 4 8)
qed

end
