(* ===== verification/Codec.thy ===== *)
theory Codec
  imports Wire
begin

section \<open>Codec and results (\<open>include/rest_rpc/codec.h\<close>, \<open>client_util.hpp\<close>)\<close>

text \<open>
  The serialisation is done by the msgpack library, which is not part of the program: it is the
  record \<open>msgpack\<close>, one function for each tuple type that the code packs or unpacks. The type
  variable \<open>'a\<close> stands for the argument tuples of remote functions and \<open>'r\<close> for their results; an
  unpacking function is \<^const>\<open>None\<close> where the library throws. \<open>msgpack_ok\<close> states the documented
  behaviour that the program relies on: what was packed is unpacked again, and a tuple can be
  unpacked as a shorter one. The rest of the theory is the wrapper \<open>msgpack_codec\<close>, the free functions
  that read a result, and the class \<open>req_result\<close> of the client.
\<close>

record ('a, 'r) msgpack =
  mp_pack_args :: "'a \<Rightarrow> bytes"
  mp_pack_key_token :: "bytes \<Rightarrow> bytes \<Rightarrow> bytes"
  mp_pack_key_token_data :: "bytes \<Rightarrow> bytes \<Rightarrow> bytes \<Rightarrow> bytes"
  mp_pack_value :: "'r \<Rightarrow> bytes"
  mp_pack_code :: "int \<Rightarrow> bytes"
  mp_pack_code_str :: "int \<Rightarrow> bytes \<Rightarrow> bytes"
  mp_pack_code_value :: "int \<Rightarrow> 'r \<Rightarrow> bytes"
  mp_pack_code_key_data :: "int \<Rightarrow> bytes \<Rightarrow> bytes \<Rightarrow> bytes"
  mp_unpack_args :: "bytes \<Rightarrow> 'a option"
  mp_unpack_key_token :: "bytes \<Rightarrow> (bytes \<times> bytes) option"
  mp_unpack_code :: "bytes \<Rightarrow> int option"
  mp_unpack_code_str :: "bytes \<Rightarrow> (int \<times> bytes) option"
  mp_unpack_code_value :: "bytes \<Rightarrow> (int \<times> 'r) option"
  mp_unpack_code_key_data :: "bytes \<Rightarrow> (int \<times> bytes \<times> bytes) option"

text \<open>The C++ exceptions of this part of the program, with the text of \<open>what()\<close>.\<close>

datatype exn =
    Exn_invalid_argument bytes
  | Exn_logic_error bytes
  | Exn_out_of_range bytes
  | Exn_other bytes

fun what :: "exn \<Rightarrow> bytes" where
  "what (Exn_invalid_argument m) = m"
| "what (Exn_logic_error m) = m"
| "what (Exn_out_of_range m) = m"
| "what (Exn_other m) = m"

subsection \<open>The wrapper\<close>

definition unpack_failed :: bytes where
  "unpack_failed = bytes_of ''unpack failed: Args not match!''"

definition codec_unpack :: "(bytes \<Rightarrow> 'b option) \<Rightarrow> bytes \<Rightarrow> exn + 'b" where
  "codec_unpack as_T data =
     (case as_T data of
        Some x \<Rightarrow> Inr x
      | None \<Rightarrow> Inl (Exn_invalid_argument unpack_failed))"

definition pack_args_str :: "('a, 'r, 'm) msgpack_scheme \<Rightarrow> result_code \<Rightarrow> bytes" where
  "pack_args_str mp arg = mp_pack_code mp (result_code_value arg)"

definition pack_args_str_string :: "('a, 'r, 'm) msgpack_scheme \<Rightarrow> result_code \<Rightarrow> bytes \<Rightarrow> bytes" where
  "pack_args_str_string mp arg s = mp_pack_code_str mp (result_code_value arg) s"

definition pack_args_str_value :: "('a, 'r, 'm) msgpack_scheme \<Rightarrow> result_code \<Rightarrow> 'r \<Rightarrow> bytes" where
  "pack_args_str_value mp arg r = mp_pack_code_value mp (result_code_value arg) r"

definition pack_args_str_key_data ::
    "('a, 'r, 'm) msgpack_scheme \<Rightarrow> result_code \<Rightarrow> bytes \<Rightarrow> bytes \<Rightarrow> bytes" where
  "pack_args_str_key_data mp arg key data =
     mp_pack_code_key_data mp (result_code_value arg) key data"

lemmas codec_defs = codec_unpack_def pack_args_str_def pack_args_str_string_def
  pack_args_str_value_def pack_args_str_key_data_def result_code_value_def

subsection \<open>Reading a result\<close>

definition has_error :: "('a, 'r, 'm) msgpack_scheme \<Rightarrow> bytes \<Rightarrow> exn + bool" where
  "has_error mp result =
     (if result = [] then Inr True
      else case codec_unpack (mp_unpack_code mp) result of
             Inl e \<Rightarrow> Inl e
           | Inr code \<Rightarrow> Inr (code \<noteq> 0))"

definition get_result :: "('a, 'r, 'm) msgpack_scheme \<Rightarrow> bytes \<Rightarrow> exn + 'r" where
  "get_result mp result =
     (case codec_unpack (mp_unpack_code_value mp) result of
        Inl e \<Rightarrow> Inl e
      | Inr tp \<Rightarrow> Inr (snd tp))"

definition get_error_msg :: "('a, 'r, 'm) msgpack_scheme \<Rightarrow> bytes \<Rightarrow> exn + bytes" where
  "get_error_msg mp result =
     (case codec_unpack (mp_unpack_code_str mp) result of
        Inl e \<Rightarrow> Inl e
      | Inr tp \<Rightarrow> Inr (snd tp))"

definition as_result :: "('a, 'r, 'm) msgpack_scheme \<Rightarrow> bytes \<Rightarrow> exn + 'r" where
  "as_result mp result =
     (case has_error mp result of
        Inl e \<Rightarrow> Inl e
      | Inr True \<Rightarrow>
          (case get_error_msg mp result of
             Inl e \<Rightarrow> Inl e
           | Inr err_msg \<Rightarrow> Inl (Exn_logic_error err_msg))
      | Inr False \<Rightarrow> get_result mp result)"

subsection \<open>\<open>req_result\<close>\<close>

record req_result =
  rr_data :: bytes

definition rr_success :: "('a, 'r, 'm) msgpack_scheme \<Rightarrow> req_result \<Rightarrow> exn + bool" where
  "rr_success mp r = (case has_error mp (rr_data r) of Inl e \<Rightarrow> Inl e | Inr b \<Rightarrow> Inr (\<not> b))"

text \<open>The message of the exception that both overloads of \<open>as\<close> throw on a failed call.\<close>

definition rr_err_msg :: "('a, 'r, 'm) msgpack_scheme \<Rightarrow> req_result \<Rightarrow> exn + bytes" where
  "rr_err_msg mp r = (if rr_data r = [] then Inr (rr_data r) else get_error_msg mp (rr_data r))"

definition rr_as :: "('a, 'r, 'm) msgpack_scheme \<Rightarrow> req_result \<Rightarrow> exn + 'r" where
  "rr_as mp r =
     (case has_error mp (rr_data r) of
        Inl e \<Rightarrow> Inl e
      | Inr True \<Rightarrow>
          (case rr_err_msg mp r of Inl e \<Rightarrow> Inl e | Inr err_msg \<Rightarrow> Inl (Exn_logic_error err_msg))
      | Inr False \<Rightarrow> get_result mp (rr_data r))"

definition rr_as_void :: "('a, 'r, 'm) msgpack_scheme \<Rightarrow> req_result \<Rightarrow> exn + unit" where
  "rr_as_void mp r =
     (case has_error mp (rr_data r) of
        Inl e \<Rightarrow> Inl e
      | Inr True \<Rightarrow>
          (case rr_err_msg mp r of Inl e \<Rightarrow> Inl e | Inr err_msg \<Rightarrow> Inl (Exn_logic_error err_msg))
      | Inr False \<Rightarrow> Inr ())"

lemmas result_defs = has_error_def get_result_def get_error_msg_def as_result_def rr_success_def
  rr_err_msg_def rr_as_def rr_as_void_def

subsection \<open>What the library promises\<close>

definition msgpack_ok :: "('a, 'r, 'm) msgpack_scheme \<Rightarrow> bool" where
  "msgpack_ok mp \<longleftrightarrow>
     (\<forall>a. mp_unpack_args mp (mp_pack_args mp a) = Some a) \<and>
     (\<forall>k t. mp_unpack_key_token mp (mp_pack_key_token mp k t) = Some (k, t)) \<and>
     (\<forall>c\<in>{0, 1}. mp_pack_code mp c \<noteq> [] \<and> mp_unpack_code mp (mp_pack_code mp c) = Some c \<and>
        (\<forall>s. mp_pack_code_str mp c s \<noteq> [] \<and> mp_unpack_code mp (mp_pack_code_str mp c s) = Some c \<and>
             mp_unpack_code_str mp (mp_pack_code_str mp c s) = Some (c, s)) \<and>
        (\<forall>r. mp_pack_code_value mp c r \<noteq> [] \<and> mp_unpack_code mp (mp_pack_code_value mp c r) = Some c \<and>
             mp_unpack_code_value mp (mp_pack_code_value mp c r) = Some (c, r)) \<and>
        (\<forall>k d. mp_unpack_code_key_data mp (mp_pack_code_key_data mp c k d) = Some (c, k, d)))"

lemma msgpack_okD:
  assumes "msgpack_ok mp"
  shows "mp_unpack_args mp (mp_pack_args mp a) = Some a"
    and "mp_unpack_key_token mp (mp_pack_key_token mp k t) = Some (k, t)"
    and "pack_args_str mp c \<noteq> []"
    and "pack_args_str_string mp c s \<noteq> []"
    and "pack_args_str_value mp c r \<noteq> []"
    and "mp_unpack_code mp (pack_args_str mp c) = Some (result_code_value c)"
    and "mp_unpack_code mp (pack_args_str_string mp c s) = Some (result_code_value c)"
    and "mp_unpack_code_str mp (pack_args_str_string mp c s) = Some (result_code_value c, s)"
    and "mp_unpack_code mp (pack_args_str_value mp c r) = Some (result_code_value c)"
    and "mp_unpack_code_value mp (pack_args_str_value mp c r) = Some (result_code_value c, r)"
    and "mp_unpack_code_key_data mp (pack_args_str_key_data mp c k t) = Some (result_code_value c, k, t)"
  using assms by (simp_all add: msgpack_ok_def codec_defs split: result_code.splits)

text \<open>C28. What a result means to the caller, for every kind of response that the server packs: a value
  is returned by \<open>as\<close>, a plain OK or a value completes a call without a result, a failure raises
  \<open>logic_error\<close> with the server's message, and \<open>success\<close> tells a failure from the others. An empty
  result (the value of a promise after a network error) is a failure too: \<open>req_result\<close> raises
  \<open>logic_error\<close> with an empty message, while the free function \<open>as\<close> tries to unpack the message and
  raises \<open>invalid_argument\<close> when the library cannot unpack an empty string. The value that \<open>as\<close> reads
  from a plain OK, which has none, is what the library unpacks.\<close>

theorem result_of_response:
  assumes "msgpack_ok mp"
  shows "(\<forall>r. as_result mp (pack_args_str_value mp Result_OK r) = Inr r \<and>
           rr_as mp \<lparr>rr_data = pack_args_str_value mp Result_OK r\<rparr> = Inr r \<and>
           rr_as_void mp \<lparr>rr_data = pack_args_str_value mp Result_OK r\<rparr> = Inr () \<and>
           rr_success mp \<lparr>rr_data = pack_args_str_value mp Result_OK r\<rparr> = Inr True) \<and>
         (let ok = pack_args_str mp Result_OK;
              value = map_sum id snd (codec_unpack (mp_unpack_code_value mp) ok)
          in as_result mp ok = value \<and> rr_as mp \<lparr>rr_data = ok\<rparr> = value \<and>
             rr_as_void mp \<lparr>rr_data = ok\<rparr> = Inr () \<and> rr_success mp \<lparr>rr_data = ok\<rparr> = Inr True) \<and>
         (\<forall>msg. as_result mp (pack_args_str_string mp Result_FAIL msg) = Inl (Exn_logic_error msg) \<and>
           rr_as mp \<lparr>rr_data = pack_args_str_string mp Result_FAIL msg\<rparr> = Inl (Exn_logic_error msg) \<and>
           rr_as_void mp \<lparr>rr_data = pack_args_str_string mp Result_FAIL msg\<rparr> = Inl (Exn_logic_error msg) \<and>
           rr_success mp \<lparr>rr_data = pack_args_str_string mp Result_FAIL msg\<rparr> = Inr False) \<and>
         as_result mp [] =
           Inl (case mp_unpack_code_str mp [] of
                  None \<Rightarrow> Exn_invalid_argument unpack_failed | Some (c, err_msg) \<Rightarrow> Exn_logic_error err_msg) \<and>
         rr_as mp \<lparr>rr_data = []\<rparr> = Inl (Exn_logic_error []) \<and>
         rr_as_void mp \<lparr>rr_data = []\<rparr> = Inl (Exn_logic_error []) \<and>
         rr_success mp \<lparr>rr_data = []\<rparr> = Inr False"
  using msgpack_okD [OF assms]
  by (auto simp: result_defs codec_unpack_def result_code_value_def Let_def split: option.splits)

subsection \<open>An instance\<close>

text \<open>A library with these properties, for arguments and results that are byte strings: a pair is
  written with a mark before every byte of its first component.\<close>

fun demo_pair :: "bytes \<Rightarrow> bytes \<Rightarrow> bytes" where
  "demo_pair [] t = 0 # t"
| "demo_pair (b # k) t = 1 # b # demo_pair k t"

fun demo_unpair :: "bytes \<Rightarrow> (bytes \<times> bytes) option" where
  "demo_unpair (m # t) =
     (if m = 0 then Some ([], t)
      else case t of
             [] \<Rightarrow> None
           | b # t' \<Rightarrow> map_option (\<lambda>(k, t). (b # k, t)) (demo_unpair t'))"
| "demo_unpair [] = None"

definition demo_code :: "int \<Rightarrow> bytes \<Rightarrow> bytes" where
  "demo_code c s = word_of_int c # s"

definition demo_uncode :: "bytes \<Rightarrow> (int \<times> bytes) option" where
  "demo_uncode bs = (case bs of [] \<Rightarrow> None | b # s \<Rightarrow> Some (uint b, s))"

definition demo_msgpack :: "(bytes, bytes) msgpack" where
  "demo_msgpack =
     \<lparr>mp_pack_args = id, mp_pack_key_token = demo_pair,
      mp_pack_key_token_data = (\<lambda>k t d. demo_pair k (demo_pair t d)), mp_pack_value = id,
      mp_pack_code = (\<lambda>c. demo_code c []), mp_pack_code_str = demo_code,
      mp_pack_code_value = demo_code,
      mp_pack_code_key_data = (\<lambda>c k d. demo_code c (demo_pair k d)),
      mp_unpack_args = Some, mp_unpack_key_token = demo_unpair,
      mp_unpack_code = (\<lambda>bs. map_option fst (demo_uncode bs)),
      mp_unpack_code_str = demo_uncode, mp_unpack_code_value = demo_uncode,
      mp_unpack_code_key_data =
        (\<lambda>bs. Option.bind (demo_uncode bs) (\<lambda>(c, s). map_option (Pair c) (demo_unpair s)))\<rparr>"

lemma demo_unpair_pair [simp]: "demo_unpair (demo_pair k t) = Some (k, t)"
  by (induction k) simp_all

lemma demo_msgpack_ok: "msgpack_ok demo_msgpack"
  by (simp add: msgpack_ok_def demo_msgpack_def demo_code_def demo_uncode_def)

theorem result_of_response_witness:
  "as_result demo_msgpack (pack_args_str_value demo_msgpack Result_OK [7, 8]) = Inr [7, 8] \<and>
   rr_success demo_msgpack \<lparr>rr_data = pack_args_str demo_msgpack Result_OK\<rparr> = Inr True \<and>
   rr_as demo_msgpack \<lparr>rr_data = pack_args_str demo_msgpack Result_OK\<rparr> = Inr [] \<and>
   rr_as demo_msgpack \<lparr>rr_data = pack_args_str_string demo_msgpack Result_FAIL [9]\<rparr> = Inl (Exn_logic_error [9]) \<and>
   as_result demo_msgpack [] = Inl (Exn_invalid_argument unpack_failed) \<and>
   rr_as demo_msgpack \<lparr>rr_data = []\<rparr> = Inl (Exn_logic_error [])"
proof -
  have "mp_unpack_code_str demo_msgpack [] = None"
    and "codec_unpack (mp_unpack_code_value demo_msgpack) (pack_args_str demo_msgpack Result_OK) = Inr (0, [])"
    by (simp_all add: demo_msgpack_def demo_code_def demo_uncode_def codec_defs)
  then show ?thesis using result_of_response [OF demo_msgpack_ok] by (simp add: Let_def)
qed

end
