(* ===== verification/Route_Keys.thy ===== *)
theory Route_Keys
  imports Wire
begin

section \<open>Two names with one key\<close>

text \<open>
  The key of a remote function is 32 bits of the MD5 digest of its name. Two names of ordinary
  length with the same key, evaluated step by step: they show what the router does on a collision.
\<close>

definition name1 :: bytes where
  "name1 = bytes_of ''copy_decode_move''"

definition name2 :: bytes where
  "name2 = bytes_of ''run_get_repair''"

lemma rounds_split: "[0..<64] = [0..<16] @ [16..<32] @ [32..<48] @ [48..<64]"
  by code_simp

lemma process_message_one_block:
  assumes "length msg < 56"
  shows "process_message msg (of_nat (length msg)) =
     md_add kInitialIntermediateData
       (fold (\<lambda>i im. apply_step i (rfc_block (rfc_pad msg) 0) im) [0..<64] kInitialIntermediateData)"
proof -
  have m: "padded_length (length msg) = 64"
    using assms by (simp add: padded_length_def)
  then have "unat (get_padded_message_length (of_nat (length msg))) = 64"
    using assms get_padded_message_length_rfc [of "length msg"] by simp
  moreover have "get_round_data msg (of_nat (length msg)) (get_padded_message_length (of_nat (length msg))) 0
      = rfc_block (rfc_pad msg) 0"
    using round_data_rfc [of msg 0] assms m by simp
  ultimately show ?thesis
    by (simp add: process_message_def Let_def)
qed

definition name1_block :: "u32 list" where
  "name1_block = [2037411683, 1667589215, 1600480367, 1702260589, 128, 0, 0, 0, 0, 0, 0, 0, 0, 0, 128, 0]"

lemma name1_round_1:
  "fold (\<lambda>i im. apply_step i name1_block im) [0..<16]
     \<lparr>md_a = 1732584193, md_b = 4023233417, md_c = 2562383102, md_d = 271733878\<rparr>
   = \<lparr>md_a = 272532021, md_b = 1466812045, md_c = 1614777384, md_d = 665587003\<rparr>"
  by (simp add: md_eval name1_block_def)

lemma name1_round_2:
  "fold (\<lambda>i im. apply_step i name1_block im) [16..<32]
     \<lparr>md_a = 272532021, md_b = 1466812045, md_c = 1614777384, md_d = 665587003\<rparr>
   = \<lparr>md_a = 693467657, md_b = 693757722, md_c = 1112359190, md_d = 1912233534\<rparr>"
  by (simp add: md_eval name1_block_def)

lemma name1_round_3:
  "fold (\<lambda>i im. apply_step i name1_block im) [32..<48]
     \<lparr>md_a = 693467657, md_b = 693757722, md_c = 1112359190, md_d = 1912233534\<rparr>
   = \<lparr>md_a = 3652425336, md_b = 2964006780, md_c = 3061579991, md_d = 2620462401\<rparr>"
  by (simp add: md_eval name1_block_def)

lemma name1_round_4:
  "fold (\<lambda>i im. apply_step i name1_block im) [48..<64]
     \<lparr>md_a = 3652425336, md_b = 2964006780, md_c = 3061579991, md_d = 2620462401\<rparr>
   = \<lparr>md_a = 3349454516, md_b = 137954642, md_c = 1538310794, md_d = 3725845673\<rparr>"
  by (simp add: md_eval name1_block_def)

lemma name1_block_eq: "rfc_block (rfc_pad name1) 0 = name1_block"
  by code_simp

lemma name1_key: "md5_hash32 name1 = 0xb5c1e92e"
proof -
  have "fold (\<lambda>i im. apply_step i name1_block im) [0..<64] kInitialIntermediateData
      = \<lparr>md_a = 3349454516, md_b = 137954642, md_c = 1538310794, md_d = 3725845673\<rparr>"
    unfolding rounds_split fold_append comp_apply kInitialIntermediateData_def
    using name1_round_1 name1_round_2 name1_round_3 name1_round_4 by simp
  moreover have "string_length name1 = of_nat (length name1)" and "length name1 = 16"
    by code_simp+
  ultimately show ?thesis
    using process_message_one_block [of name1]
    by (simp add: md5_hash32_def hash32_def name1_block_eq md_add_def kInitialIntermediateData_def swap_endian_def)
qed

definition name2_block :: "u32 list" where
  "name2_block = [1601074546, 1601463655, 1634755954, 8417897, 0, 0, 0, 0, 0, 0, 0, 0, 0, 0, 112, 0]"

lemma name2_round_1:
  "fold (\<lambda>i im. apply_step i name2_block im) [0..<16]
     \<lparr>md_a = 1732584193, md_b = 4023233417, md_c = 2562383102, md_d = 271733878\<rparr>
   = \<lparr>md_a = 2972288445, md_b = 3851727277, md_c = 2109346358, md_d = 4236088378\<rparr>"
  by (simp add: md_eval name2_block_def)

lemma name2_round_2:
  "fold (\<lambda>i im. apply_step i name2_block im) [16..<32]
     \<lparr>md_a = 2972288445, md_b = 3851727277, md_c = 2109346358, md_d = 4236088378\<rparr>
   = \<lparr>md_a = 3925562649, md_b = 3757325132, md_c = 4081605597, md_d = 4208534618\<rparr>"
  by (simp add: md_eval name2_block_def)

lemma name2_round_3:
  "fold (\<lambda>i im. apply_step i name2_block im) [32..<48]
     \<lparr>md_a = 3925562649, md_b = 3757325132, md_c = 4081605597, md_d = 4208534618\<rparr>
   = \<lparr>md_a = 3121419895, md_b = 2584717463, md_c = 217477010, md_d = 558817677\<rparr>"
  by (simp add: md_eval name2_block_def)

lemma name2_round_4:
  "fold (\<lambda>i im. apply_step i name2_block im) [48..<64]
     \<lparr>md_a = 3121419895, md_b = 2584717463, md_c = 217477010, md_d = 558817677\<rparr>
   = \<lparr>md_a = 3349454516, md_b = 1924431799, md_c = 728404461, md_d = 2225670573\<rparr>"
  by (simp add: md_eval name2_block_def)

lemma name2_block_eq: "rfc_block (rfc_pad name2) 0 = name2_block"
  by code_simp

lemma name2_key: "md5_hash32 name2 = 0xb5c1e92e"
proof -
  have "fold (\<lambda>i im. apply_step i name2_block im) [0..<64] kInitialIntermediateData
      = \<lparr>md_a = 3349454516, md_b = 1924431799, md_c = 728404461, md_d = 2225670573\<rparr>"
    unfolding rounds_split fold_append comp_apply kInitialIntermediateData_def
    using name2_round_1 name2_round_2 name2_round_3 name2_round_4 by simp
  moreover have "string_length name2 = of_nat (length name2)" and "length name2 = 14"
    by code_simp+
  ultimately show ?thesis
    using process_message_one_block [of name2]
    by (simp add: md5_hash32_def hash32_def name2_block_eq md_add_def kInitialIntermediateData_def swap_endian_def)
qed

lemma names_collide: "md5_hash32 name1 = md5_hash32 name2"
  by (simp add: name1_key name2_key)

lemma names_differ: "name1 \<noteq> name2"
  by code_simp

end
