(* ===== verification/Router.thy ===== *)
theory Router
  imports Codec Route_Keys
begin

section \<open>The router (\<open>include/rest_rpc/router.h\<close>)\<close>

text \<open>
  The class \<open>router\<close> maps the 32-bit MD5 key of a name to an invoker, a closure that unpacks the
  arguments, calls the registered function and packs its result. The two hash maps are maps; the
  registered function is a parameter: what it returns or throws for its arguments, with the function
  \<open>codec.unpack<args_tuple>\<close> of its argument types. A connection is the number of an object, and the
  weak pointer handed to \<open>route\<close> is \<^const>\<open>None\<close> when the object is gone. \<open>route\<close> gives the
  response that it passes to the connection, if any. The last part compares the router with the list
  of the registrations made, whose last one for a key counts.
\<close>

datatype exec_mode = Exec_sync | Exec_async

text \<open>What a registered function does: it returns a value, returns from a \<open>void\<close> function, or throws.\<close>

datatype 'r outcome = Returned 'r | Returned_void | Threw exn

type_synonym ('a, 'r) rpc_function = "nat \<Rightarrow> 'a \<Rightarrow> 'r outcome"
type_synonym invoker = "nat \<Rightarrow> bytes \<Rightarrow> bytes \<times> exec_mode"

subsection \<open>Invokers\<close>

definition call :: "('a, 'r) msgpack \<Rightarrow> ('b, 'r) rpc_function \<Rightarrow> nat \<Rightarrow> 'b \<Rightarrow> exn + bytes" where
  "call mp f conn tp =
     (case f conn tp of
        Threw e \<Rightarrow> Inl e
      | Returned_void \<Rightarrow> Inr (pack_args_str mp Result_OK)
      | Returned r \<Rightarrow> Inr (pack_args_str_value mp Result_OK r))"

definition invoker_apply ::
    "('a, 'r) msgpack \<Rightarrow> exec_mode \<Rightarrow> (bytes \<Rightarrow> 'b option) \<Rightarrow> ('b, 'r) rpc_function \<Rightarrow> invoker" where
  "invoker_apply mp model as_args f conn data =
     (case codec_unpack as_args data of
        Inl e \<Rightarrow> (pack_args_str_string mp Result_FAIL (what e), Exec_sync)
      | Inr tp \<Rightarrow>
          (case call mp f conn tp of
             Inl e \<Rightarrow> (pack_args_str_string mp Result_FAIL (what e), Exec_sync)
           | Inr result \<Rightarrow> (result, model)))"

text \<open>The same for a member function, called on \<open>self\<close>.\<close>

definition call_member ::
    "('a, 'r) msgpack \<Rightarrow> ('self \<Rightarrow> ('b, 'r) rpc_function) \<Rightarrow> 'self \<Rightarrow> nat \<Rightarrow> 'b \<Rightarrow> exn + bytes" where
  "call_member mp f self conn tp =
     (case f self conn tp of
        Threw e \<Rightarrow> Inl e
      | Returned_void \<Rightarrow> Inr (pack_args_str mp Result_OK)
      | Returned r \<Rightarrow> Inr (pack_args_str_value mp Result_OK r))"

definition invoker_apply_member ::
    "('a, 'r) msgpack \<Rightarrow> exec_mode \<Rightarrow> (bytes \<Rightarrow> 'b option) \<Rightarrow> ('self \<Rightarrow> ('b, 'r) rpc_function) \<Rightarrow>
     'self \<Rightarrow> invoker" where
  "invoker_apply_member mp model as_args f self conn data =
     (case codec_unpack as_args data of
        Inl e \<Rightarrow> (pack_args_str_string mp Result_FAIL (what e), Exec_sync)
      | Inr tp \<Rightarrow>
          (case call_member mp f self conn tp of
             Inl e \<Rightarrow> (pack_args_str_string mp Result_FAIL (what e), Exec_sync)
           | Inr result \<Rightarrow> (result, model)))"

subsection \<open>The router\<close>

record router =
  rt_map_invokers :: "u32 \<rightharpoonup> invoker"
  rt_key2func_name :: "u32 \<rightharpoonup> bytes"

definition new_router :: router where
  "new_router = \<lparr>rt_map_invokers = Map.empty, rt_key2func_name = Map.empty\<rparr>"

text \<open>\<open>emplace\<close> leaves an existing entry, the assignment to \<open>map_invokers_[key]\<close> replaces it.\<close>

definition emplace_name :: "u32 \<Rightarrow> bytes \<Rightarrow> router \<Rightarrow> router" where
  "emplace_name key name r =
     (if rt_key2func_name r key = None
      then r\<lparr>rt_key2func_name := (rt_key2func_name r)(key \<mapsto> name)\<rparr> else r)"

definition register_nonmember_func ::
    "('a, 'r) msgpack \<Rightarrow> exec_mode \<Rightarrow> (bytes \<Rightarrow> 'b option) \<Rightarrow> ('b, 'r) rpc_function \<Rightarrow> u32 \<Rightarrow> router \<Rightarrow> router" where
  "register_nonmember_func mp model as_args f key r =
     r\<lparr>rt_map_invokers := (rt_map_invokers r)(key \<mapsto> invoker_apply mp model as_args f)\<rparr>"

definition register_member_func ::
    "('a, 'r) msgpack \<Rightarrow> exec_mode \<Rightarrow> (bytes \<Rightarrow> 'b option) \<Rightarrow> ('self \<Rightarrow> ('b, 'r) rpc_function) \<Rightarrow> 'self \<Rightarrow>
     u32 \<Rightarrow> router \<Rightarrow> router" where
  "register_member_func mp model as_args f self key r =
     r\<lparr>rt_map_invokers := (rt_map_invokers r)(key \<mapsto> invoker_apply_member mp model as_args f self)\<rparr>"

definition register_handler ::
    "('a, 'r) msgpack \<Rightarrow> exec_mode \<Rightarrow> bytes \<Rightarrow> (bytes \<Rightarrow> 'b option) \<Rightarrow> ('b, 'r) rpc_function \<Rightarrow>
     router \<Rightarrow> router" where
  "register_handler mp model name as_args f r =
     (let key = md5_hash32 name
      in register_nonmember_func mp model as_args f key (emplace_name key name r))"

definition register_member_handler ::
    "('a, 'r) msgpack \<Rightarrow> exec_mode \<Rightarrow> bytes \<Rightarrow> (bytes \<Rightarrow> 'b option) \<Rightarrow> ('self \<Rightarrow> ('b, 'r) rpc_function) \<Rightarrow>
     'self \<Rightarrow> router \<Rightarrow> router" where
  "register_member_handler mp model name as_args f self r =
     (let key = md5_hash32 name
      in register_member_func mp model as_args f self key (emplace_name key name r))"

definition remove_handler :: "bytes \<Rightarrow> router \<Rightarrow> router" where
  "remove_handler name r =
     (let key = md5_hash32 name
      in \<lparr>rt_map_invokers = (rt_map_invokers r)(key := None),
          rt_key2func_name = (rt_key2func_name r)(key := None)\<rparr>)"

text \<open>\<open>std::to_string\<close> of an unsigned number.\<close>

fun to_string :: "nat \<Rightarrow> bytes" where
  "to_string n = (if n < 10 then [of_nat (48 + n)] else to_string (n div 10) @ [of_nat (48 + n mod 10)])"

definition get_name_by_key :: "router \<Rightarrow> u32 \<Rightarrow> bytes" where
  "get_name_by_key r key =
     (case rt_key2func_name r key of
        Some name \<Rightarrow> name
      | None \<Rightarrow> to_string (unat key))"

definition unknown_function :: bytes where
  "unknown_function = bytes_of ''unknown function: ''"

definition out_of_range_msg :: bytes where
  "out_of_range_msg = bytes_of ''the response result is out of range: more than 10M ''"

text \<open>The arguments of \<open>conn_sp->response\<close>. The invoker catches every \<open>std::exception\<close> of the
  unpacking and of the function, so the handler of \<open>route\<close> itself is never reached.\<close>

definition route ::
    "('a, 'r) msgpack \<Rightarrow> router \<Rightarrow> u32 \<Rightarrow> bytes \<Rightarrow> nat option \<Rightarrow> u64 \<Rightarrow> (u64 \<times> bytes) option" where
  "route mp r key data conn request_id =
     (case conn of
        None \<Rightarrow> None
      | Some conn_sp \<Rightarrow>
          (let req_id = request_id
           in case rt_map_invokers r key of
                None \<Rightarrow>
                  Some (req_id, pack_args_str_string mp Result_FAIL (unknown_function @ get_name_by_key r key))
              | Some it \<Rightarrow>
                  (let (result, model) = it conn_sp data
                   in if model = Exec_sync
                      then Some (req_id,
                             if length result \<ge> MAX_BUF_LEN
                             then pack_args_str_string mp Result_FAIL (out_of_range_msg @ get_name_by_key r key)
                             else result)
                      else None)))"

declare to_string.simps [simp del]

subsection \<open>Registrations\<close>

text \<open>The calls made on a router by the program that uses it.\<close>

datatype ('b, 'r) reg_op =
    Register exec_mode bytes "bytes \<Rightarrow> 'b option" "('b, 'r) rpc_function"
  | Remove bytes

fun op_name :: "('b, 'r) reg_op \<Rightarrow> bytes" where
  "op_name (Register model name as_args f) = name"
| "op_name (Remove name) = name"

abbreviation op_key :: "('b, 'r) reg_op \<Rightarrow> u32" where
  "op_key x \<equiv> md5_hash32 (op_name x)"

fun reg_step :: "('a, 'r) msgpack \<Rightarrow> ('b, 'r) reg_op \<Rightarrow> router \<Rightarrow> router" where
  "reg_step mp (Register model name as_args f) r = register_handler mp model name as_args f r"
| "reg_step mp (Remove name) r = remove_handler name r"

abbreviation registered :: "('a, 'r) msgpack \<Rightarrow> ('b, 'r) reg_op list \<Rightarrow> router" where
  "registered mp ops \<equiv> fold (reg_step mp) ops new_router"

lemmas router_defs = register_handler_def register_nonmember_func_def emplace_name_def
  remove_handler_def new_router_def Let_def

lemma call_member_call [simp]: "call_member mp f self = call mp (f self)"
  by (intro ext) (simp add: call_member_def call_def)

text \<open>A member function is registered as the function that it is on its object.\<close>

lemma invoker_apply_member_eq [simp]:
  "invoker_apply_member mp model as_args f self = invoker_apply mp model as_args (f self)"
  unfolding invoker_apply_member_def invoker_apply_def call_member_call by (rule refl)

lemma register_member_handler_eq:
  "register_member_handler mp model name as_args f self = register_handler mp model name as_args (f self)"
  by (rule ext) (simp add: register_member_handler_def register_member_func_def register_handler_def
      register_nonmember_func_def Let_def)

lemma reg_step_other:
  "op_key x \<noteq> key \<Longrightarrow> rt_map_invokers (reg_step mp x r) key = rt_map_invokers r key \<and>
     rt_key2func_name (reg_step mp x r) key = rt_key2func_name r key"
  by (cases x) (auto simp: router_defs)

lemma reg_steps_other:
  assumes "\<forall>x\<in>set ops. op_key x \<noteq> key"
  shows "rt_map_invokers (fold (reg_step mp) ops r) key = rt_map_invokers r key"
    and "rt_key2func_name (fold (reg_step mp) ops r) key = rt_key2func_name r key"
  using assms by (induction ops arbitrary: r) (simp_all add: reg_step_other)

lemma register_handler_same:
  "rt_map_invokers (register_handler mp model name as_args f r) (md5_hash32 name)
     = Some (invoker_apply mp model as_args f)"
  "rt_key2func_name (register_handler mp model name as_args f r) (md5_hash32 name)
     = Some (case rt_key2func_name r (md5_hash32 name) of None \<Rightarrow> name | Some n \<Rightarrow> n)"
  by (auto simp: router_defs split: option.splits)

text \<open>The response to a call of a registered function.\<close>

definition response_of ::
    "('a, 'r) msgpack \<Rightarrow> exec_mode \<Rightarrow> (bytes \<Rightarrow> 'b option) \<Rightarrow> ('b, 'r) rpc_function \<Rightarrow> bytes \<Rightarrow> nat \<Rightarrow>
     bytes \<Rightarrow> bytes option" where
  "response_of mp model as_args f shown conn data =
     (let limit = (\<lambda>result. if length result < MAX_BUF_LEN then result
                     else pack_args_str_string mp Result_FAIL (out_of_range_msg @ shown));
          sync = (\<lambda>result. Some (limit result));
          ok = (\<lambda>result. if model = Exec_sync then sync result else None)
      in case as_args data of
           None \<Rightarrow> sync (pack_args_str_string mp Result_FAIL unpack_failed)
         | Some args \<Rightarrow>
             (case f conn args of
                Threw e \<Rightarrow> sync (pack_args_str_string mp Result_FAIL (what e))
              | Returned_void \<Rightarrow> ok (pack_args_str mp Result_OK)
              | Returned r \<Rightarrow> ok (pack_args_str_value mp Result_OK r)))"

lemma route_Some:
  assumes "rt_map_invokers r key = Some (invoker_apply mp model as_args f)"
  shows "route mp r key data (Some conn) req_id
           = map_option (Pair req_id) (response_of mp model as_args f (get_name_by_key r key) conn data)"
  using assms
  by (simp add: route_def response_of_def invoker_apply_def call_def codec_unpack_def Let_def
      split: option.splits outcome.splits)

lemma route_None:
  "rt_map_invokers r key = None \<Longrightarrow>
   route mp r key data (Some conn) req_id
     = Some (req_id, pack_args_str_string mp Result_FAIL (unknown_function @ get_name_by_key r key))"
  by (simp add: route_def)

text \<open>C13. A call reaches the function that was registered last under its key, as long as nothing was
  registered or removed under the same key since; the response is the packed result of the function
  (nothing for an asynchronous one that succeeds), or a failure with the text of the exception, of the
  unpacking error, or of the size limit. The name in that last message is the first one registered
  under the key since its last removal.\<close>

theorem route_calls_last_registered:
  assumes "\<forall>x\<in>set after. op_key x \<noteq> md5_hash32 name"
    and r: "r = registered mp (before @ [Register model name as_args f] @ after)"
    and shown: "shown = (case rt_key2func_name (registered mp before) (md5_hash32 name) of
                    None \<Rightarrow> name | Some first \<Rightarrow> first)"
  shows "route mp r (md5_hash32 name) data (Some conn) req_id
           = map_option (Pair req_id) (response_of mp model as_args f shown conn data)"
proof -
  let ?key = "md5_hash32 name"
  let ?r1 = "registered mp before"
  have "r = fold (reg_step mp) after (register_handler mp model name as_args f ?r1)"
    by (simp add: r)
  then have "rt_map_invokers r ?key = Some (invoker_apply mp model as_args f)"
    and "rt_key2func_name r ?key = Some shown"
    using assms(1) by (simp_all add: reg_steps_other register_handler_same shown)
  then show ?thesis by (simp add: route_Some get_name_by_key_def)
qed

lemma abc_key: "md5_hash32 [97, 98, 99] = 0x90015098"
  by (simp add: md5_hash32_def hash32_def string_length_def md5_abc swap_endian_def)

theorem route_calls_last_registered_witness:
  "route demo_msgpack
     (registered demo_msgpack
        ([Register Exec_sync name2 Some (\<lambda>conn args. Threw (Exn_other []))] @
         [Register Exec_sync name1 Some (\<lambda>conn args. Returned (rev args))] @
         [Remove [97, 98, 99]])) (md5_hash32 name1) [5, 6] (Some 3) 9
     = Some (9, [0, 6, 5])"
  by (subst route_calls_last_registered [OF _ refl refl])
    (simp_all add: abc_key name1_key response_of_def MAX_BUF_LEN_def pack_args_str_value_def
      result_code_value_def demo_msgpack_def demo_code_def)

text \<open>A key under which nothing is registered, or whose name was removed last, is answered with a
  failure: the name of the function if the router still knows one, which after a removal it does not,
  so the message holds the key as a number.\<close>

theorem route_unknown:
  assumes "\<forall>x\<in>set after. op_key x \<noteq> key"
    and "before = [] \<or> (\<exists>front name. before = front @ [Remove name] \<and> md5_hash32 name = key)"
  shows "route mp (registered mp (before @ after)) key data (Some conn) req_id
           = Some (req_id, pack_args_str_string mp Result_FAIL (unknown_function @ to_string (unat key)))"
proof -
  have "rt_map_invokers (registered mp before) key = None \<and> rt_key2func_name (registered mp before) key = None"
    using assms(2) by (auto simp: router_defs)
  then have "rt_map_invokers (registered mp (before @ after)) key = None \<and>
     rt_key2func_name (registered mp (before @ after)) key = None"
    using assms(1) by (simp add: reg_steps_other)
  then show ?thesis by (simp add: route_None get_name_by_key_def)
qed

theorem route_unknown_witness:
  "route demo_msgpack
     (registered demo_msgpack
        (([Register Exec_sync name1 Some (\<lambda>conn args. Returned (rev args))] @ [Remove name2]) @
         [Register Exec_sync [97, 98, 99] Some (\<lambda>conn args. Returned args)])) (0xb5c1e92e) [5, 6] (Some 3) 9
     = Some (9, pack_args_str_string demo_msgpack Result_FAIL
                  (unknown_function @ to_string (unat (0xb5c1e92e :: u32))))"
  by (rule route_unknown) (auto simp: abc_key name2_key)

subsection \<open>A collision\<close>

text \<open>C29. The key is all that \<open>register_handler\<close> looks at, and it has 32 bits. The two names have the same
  key: after both are registered every call of the first function runs the second one, messages show
  the first name for both, and removing either name removes the handler of both.\<close>

theorem colliding_names:
  "\<exists>n1 n2. n1 \<noteq> n2 \<and>
     (\<forall>(mp :: ('a, 'r) msgpack) model1 model2 (as_args1 :: bytes \<Rightarrow> 'b option)
        (as_args2 :: bytes \<Rightarrow> 'b option) f1 f2 conn data req_id.
        let r = register_handler mp model2 n2 as_args2 f2
                  (register_handler mp model1 n1 as_args1 f1 new_router)
        in route mp r (md5_hash32 n1) data (Some conn) req_id
             = map_option (Pair req_id) (response_of mp model2 as_args2 f2 n1 conn data) \<and>
           route mp (remove_handler n2 r) (md5_hash32 n1) data (Some conn) req_id
             = Some (req_id, pack_args_str_string mp Result_FAIL (unknown_function @ to_string 3049384238)))"
proof (intro exI conjI allI)
  show "name1 \<noteq> name2" by (rule names_differ)
  fix mp :: "('a, 'r) msgpack" and model1 model2
    and as_args1 as_args2 :: "bytes \<Rightarrow> 'b option" and f1 f2 conn data req_id
  let ?r = "register_handler mp model2 name2 as_args2 f2
              (register_handler mp model1 name1 as_args1 f1 new_router)"
  have "rt_map_invokers ?r (md5_hash32 name1) = Some (invoker_apply mp model2 as_args2 f2)"
    and "rt_key2func_name ?r (md5_hash32 name1) = Some name1"
    and "rt_map_invokers (remove_handler name2 ?r) (md5_hash32 name1) = None"
    and "rt_key2func_name (remove_handler name2 ?r) (md5_hash32 name1) = None"
    by (simp_all add: router_defs name1_key name2_key)
  then show "let r = ?r
        in route mp r (md5_hash32 name1) data (Some conn) req_id
             = map_option (Pair req_id) (response_of mp model2 as_args2 f2 name1 conn data) \<and>
           route mp (remove_handler name2 r) (md5_hash32 name1) data (Some conn) req_id
             = Some (req_id, pack_args_str_string mp Result_FAIL (unknown_function @ to_string 3049384238))"
    by (simp add: route_Some route_None get_name_by_key_def name1_key name2_key)
qed

end
