(* ===== verification/Send_Queue.thy ===== *)
theory Send_Queue
  imports Wire
begin

section \<open>One write at a time\<close>

text \<open>
  The contract that the server's connections and the client share for sending: messages are queued,
  a write is started when the queue was empty, and the completion of a write removes its message and
  starts the next one. asio forbids two concurrent writes on a socket, and both classes keep one
  header buffer for the message that is being written, so the contract is what makes the bytes on the
  wire whole frames in the order of the calls. \<open>queue\<close> is the queue of a component and \<open>writing\<close> the
  writes it has handed to asio and that have not completed, each with the message it belongs to.
\<close>

datatype 'm q_event = Send 'm | Sent

text \<open>A history: the state after it and the messages whose writes completed, oldest first.\<close>

fun q_run :: "('m \<Rightarrow> 's \<Rightarrow> 's) \<Rightarrow> ('s \<Rightarrow> 's) \<Rightarrow> ('s \<Rightarrow> 'm list) \<Rightarrow> 'm q_event list \<Rightarrow> 's \<Rightarrow> 's \<times> 'm list" where
  "q_run send sent writing [] s = (s, [])"
| "q_run send sent writing (Send m # es) s = q_run send sent writing es (send m s)"
| "q_run send sent writing (Sent # es) s =
     (case writing s of
        [] \<Rightarrow> q_run send sent writing es s
      | m # ms \<Rightarrow> (case q_run send sent writing es (sent s) of (s', done) \<Rightarrow> (s', m # done)))"

fun q_sends :: "'m q_event list \<Rightarrow> 'm list" where
  "q_sends [] = []"
| "q_sends (Send m # es) = m # q_sends es"
| "q_sends (Sent # es) = q_sends es"

locale send_queue =
  fixes queue :: "'s \<Rightarrow> 'm list"
    and writing :: "'s \<Rightarrow> 'm list"
    and up :: "'s \<Rightarrow> bool"
    and sendable :: "'m \<Rightarrow> bool"
    and send :: "'m \<Rightarrow> 's \<Rightarrow> 's"
    and sent :: "'s \<Rightarrow> 's"
  assumes queue_send: "up s \<Longrightarrow> sendable m \<Longrightarrow> queue (send m s) = queue s @ [m]"
    and writing_send: "up s \<Longrightarrow> sendable m \<Longrightarrow>
          writing (send m s) = (if queue s = [] then writing s @ [m] else writing s)"
    and up_send: "up s \<Longrightarrow> sendable m \<Longrightarrow> up (send m s)"
    and queue_sent: "up s \<Longrightarrow> queue s \<noteq> [] \<Longrightarrow> writing s \<noteq> [] \<Longrightarrow> queue (sent s) = tl (queue s)"
    and writing_sent: "up s \<Longrightarrow> queue s \<noteq> [] \<Longrightarrow> writing s \<noteq> [] \<Longrightarrow>
          writing (sent s) = tl (writing s) @ take 1 (tl (queue s))"
    and up_sent: "up s \<Longrightarrow> queue s \<noteq> [] \<Longrightarrow> writing s \<noteq> [] \<Longrightarrow> up (sent s)"
begin

definition one_write :: "'s \<Rightarrow> bool" where
  "one_write s \<longleftrightarrow> writing s = take 1 (queue s)"

lemma one_write_send: "up s \<Longrightarrow> sendable m \<Longrightarrow> one_write s \<Longrightarrow> one_write (send m s)"
  by (cases "queue s") (auto simp: one_write_def queue_send writing_send)

lemma one_write_writing: "one_write s \<Longrightarrow> writing s \<noteq> [] \<longleftrightarrow> queue s \<noteq> []"
  by (auto simp: one_write_def)

lemma one_write_sent: "up s \<Longrightarrow> one_write s \<Longrightarrow> writing s \<noteq> [] \<Longrightarrow> one_write (sent s)"
  by (cases "queue s") (auto simp: one_write_def queue_sent writing_sent)

lemma fifo:
  assumes "up s" and "one_write s" and "\<forall>m\<in>set (q_sends es). sendable m"
    and "q_run send sent writing es s = (s', done)"
  shows "up s' \<and> one_write s' \<and> done @ queue s' = queue s @ q_sends es"
  using assms
proof (induction es arbitrary: s s' "done")
  case Nil
  then show ?case by simp
next
  case (Cons e es)
  show ?case
  proof (cases e)
    case (Send m)
    then show ?thesis
      using Cons.prems Cons.IH [of "send m s" s' "done"]
      by (simp add: one_write_send up_send queue_send)
  next
    case Sent
    show ?thesis
    proof (cases "queue s")
      case Nil
      then show ?thesis
        using Cons.prems Cons.IH [of s s' "done"] Sent by (simp add: one_write_def)
    next
      case (Cons m q)
      then have w: "writing s = [m]" using Cons.prems(2) by (simp add: one_write_def)
      then obtain ms where ms: "q_run send sent writing es (sent s) = (s', ms)" "done = m # ms"
        using Cons.prems(4) Sent by (auto split: prod.splits)
      moreover have "up (sent s)" and "one_write (sent s)" and "queue (sent s) = q"
        using Cons.prems w Cons by (simp_all add: up_sent one_write_sent queue_sent)
      ultimately show ?thesis
        using Cons.IH [of "sent s" s' ms] Cons.prems(3) Sent Cons by simp
    qed
  qed
qed

end

end
