(* ===== verification/Connection.thy ===== *)
theory Connection
  imports Router Send_Queue
begin

section \<open>Connections of the server (\<open>include/rest_rpc/connection.h\<close>)\<close>

text \<open>
  The class \<open>connection\<close>. A member function is a function on the state; a completion handler that the
  code passes to asio is a function of the error code and the bytes that asio delivers. asio itself is
  not modelled: the operations that the code has started and that have not completed are three fields
  of the state, the reads, the writes and the wait of the timer. What the handlers report to the
  outside (the network error callback, the subscription callback) is a list of outputs. A failed
  \<open>assert\<close> is \<^const>\<open>None\<close>. The code is built without SSL, so \<open>is_ssl\<close> is false and the members under
  \<open>CINATRA_ENABLE_SSL\<close> do not exist. Members that the constructor leaves unset (\<open>req_id_\<close>,
  \<open>req_type_\<close>, \<open>header_\<close>) are zero here; the handlers set each of them before they read it.
\<close>

subsection \<open>Error codes\<close>

text \<open>The \<open>asio::error_code\<close> of a completed operation: \<^const>\<open>None\<close> for success. The named ones are
  those that the program itself makes.\<close>

datatype asio_error =
    Ec_not_connected | Ec_message_size | Ec_connection_aborted | Ec_invalid_argument | Ec_timed_out
  | Ec_other nat

type_synonym error_code = "asio_error option"

text \<open>The reasons given to \<open>on_net_err_\<close>: a text of the code, or the message of an error code.\<close>

datatype reason = Reason_text bytes | Reason_ec asio_error

datatype cn_output = Net_err reason | Sub_callback bytes bytes

subsection \<open>State\<close>

datatype read_op = Read_head | Read_body u32 nat

record connection =
  cn_socket_open :: bool
  cn_body :: bytes
  cn_req_id :: u64
  cn_req_type :: request_type
  cn_header :: rpc_header
  cn_write_size :: u32
  cn_timeout_seconds :: nat
  cn_conn_id :: int
  cn_has_closed :: bool
  cn_write_queue :: "message_type list"
  cn_on_net_err :: bool
  cn_reads :: "read_op list"
  cn_writes :: "(rpc_header \<times> bytes) list"
  cn_timer :: bool

text \<open>A new connection whose socket has been accepted.\<close>

definition new_connection :: "nat \<Rightarrow> connection" where
  "new_connection timeout_seconds =
     \<lparr>cn_socket_open = True, cn_body = replicate INIT_BUF_SIZE 0, cn_req_id = 0, cn_req_type = 0,
      cn_header = \<lparr>hd_magic = 0, hd_req_type = 0, hd_body_len = 0, hd_req_id = 0, hd_func_id = 0\<rparr>,
      cn_write_size = 0, cn_timeout_seconds = timeout_seconds, cn_conn_id = 0, cn_has_closed = False,
      cn_write_queue = [], cn_on_net_err = False, cn_reads = [], cn_writes = [], cn_timer = False\<rparr>"

definition set_conn_id :: "int \<Rightarrow> connection \<Rightarrow> connection" where
  "set_conn_id i s = s\<lparr>cn_conn_id := i\<rparr>"

definition on_network_error :: "connection \<Rightarrow> connection" where
  "on_network_error s = s\<lparr>cn_on_net_err := True\<rparr>"

text \<open>\<open>remote_endpoint\<close> of the socket is an argument: \<^const>\<open>None\<close> when asio reports an error.\<close>

definition remote_address :: "bytes option \<Rightarrow> connection \<Rightarrow> bytes" where
  "remote_address endpoint s =
     (if cn_has_closed s then []
      else case endpoint of None \<Rightarrow> [] | Some address \<Rightarrow> address)"

definition net_err :: "connection \<Rightarrow> reason \<Rightarrow> cn_output list" where
  "net_err s r = (if cn_on_net_err s then [Net_err r] else [])"

subsection \<open>Starting operations\<close>

definition is_ssl :: bool where
  "is_ssl = False"

definition cn_async_read_head :: "connection \<Rightarrow> connection" where
  "cn_async_read_head s = s\<lparr>cn_reads := cn_reads s @ [Read_head]\<rparr>"

definition cn_async_read :: "u32 \<Rightarrow> nat \<Rightarrow> connection \<Rightarrow> connection" where
  "cn_async_read func_id size_to_read s = s\<lparr>cn_reads := cn_reads s @ [Read_body func_id size_to_read]\<rparr>"

definition cn_async_write :: "rpc_header \<times> bytes \<Rightarrow> connection \<Rightarrow> connection" where
  "cn_async_write buffers s = s\<lparr>cn_writes := cn_writes s @ [buffers]\<rparr>"

text \<open>\<open>expires_from_now\<close> cancels the wait that may be pending, \<open>async_wait\<close> starts the new one. A wait whose
  time has passed and whose handler is already queued in asio can no longer be cancelled and would still
  close the connection; that race is not modelled, a cancelled wait never fires.\<close>

definition cn_reset_timer :: "connection \<Rightarrow> connection" where
  "cn_reset_timer s = (if cn_timeout_seconds s = 0 then s else s\<lparr>cn_timer := True\<rparr>)"

definition cn_cancel_timer :: "connection \<Rightarrow> connection" where
  "cn_cancel_timer s = (if cn_timeout_seconds s = 0 then s else s\<lparr>cn_timer := False\<rparr>)"

definition cn_close :: "connection \<Rightarrow> connection" where
  "cn_close s =
     (if cn_has_closed s then s
      else s\<lparr>cn_socket_open := False, cn_has_closed := True\<rparr>)"

definition cn_read_head :: "connection \<Rightarrow> connection" where
  "cn_read_head s = cn_async_read_head (cn_reset_timer s)"

definition cn_start :: "connection \<Rightarrow> connection" where
  "cn_start s = cn_read_head s"

subsection \<open>Writing\<close>

text \<open>\<open>header_ = {MAGIC_NUM, msg.req_type, write_size_, msg.req_id}\<close>: the fifth member is zero.\<close>

definition cn_frame :: "message_type \<Rightarrow> rpc_header \<times> bytes" where
  "cn_frame m =
     (\<lparr>hd_magic = MAGIC_NUM, hd_req_type = msg_req_type m,
       hd_body_len = of_nat (length (msg_content m)), hd_req_id = msg_req_id m, hd_func_id = 0\<rparr>,
      msg_content m)"

definition cn_write :: "connection \<Rightarrow> connection" where
  "cn_write s =
     (let msg = hd (cn_write_queue s);
          s = s\<lparr>cn_write_size := of_nat (length (msg_content msg))\<rparr>;
          s = s\<lparr>cn_header := \<lparr>hd_magic = MAGIC_NUM, hd_req_type = msg_req_type msg,
                   hd_body_len = cn_write_size s, hd_req_id = msg_req_id msg, hd_func_id = 0\<rparr>\<rparr>
      in cn_async_write (cn_header s, take (unat (cn_write_size s)) (msg_content msg)) s)"

definition response :: "u64 \<Rightarrow> bytes \<Rightarrow> request_type \<Rightarrow> connection \<Rightarrow> connection option" where
  "response req_id data req_type s =
     (if length data < MAX_BUF_LEN
      then let s = s\<lparr>cn_write_queue := cn_write_queue s @
                      [\<lparr>msg_req_id = req_id, msg_req_type = req_type, msg_content = data\<rparr>]\<rparr>
           in Some (if length (cn_write_queue s) > 1 then s else cn_write s)
      else None)"

definition pack_and_response ::
    "('a, 'r) msgpack \<Rightarrow> u64 \<Rightarrow> 'r \<Rightarrow> connection \<Rightarrow> connection option" where
  "pack_and_response mp req_id data s = response req_id (pack_args_str_value mp Result_OK data) req_res s"

definition cn_publish :: "('a, 'r) msgpack \<Rightarrow> bytes \<Rightarrow> bytes \<Rightarrow> connection \<Rightarrow> connection option" where
  "cn_publish mp key data s = response 0 (pack_args_str_key_data mp Result_OK key data) sub_pub s"

definition on_write :: "error_code \<Rightarrow> connection \<Rightarrow> connection \<times> cn_output list" where
  "on_write ec s =
     (case ec of
        Some e \<Rightarrow> (cn_close s, net_err s (Reason_ec e))
      | None \<Rightarrow>
          if cn_has_closed s then (s, [])
          else let s = s\<lparr>cn_write_queue := tl (cn_write_queue s)\<rparr>
               in (if cn_write_queue s \<noteq> [] then cn_write s else s, []))"

subsection \<open>Reading\<close>

definition on_read_body ::
    "('a, 'r) msgpack \<Rightarrow> router \<Rightarrow> nat \<Rightarrow> u32 \<Rightarrow> error_code \<Rightarrow> nat \<Rightarrow> connection \<Rightarrow>
     (connection \<times> cn_output list) option" where
  "on_read_body mp router self func_id ec len s =
     (let s = cn_cancel_timer s
      in if \<not> cn_socket_open s
         then Some (s, net_err s (Reason_text (bytes_of ''socket already closed'')))
         else case ec of
                Some e \<Rightarrow> Some (s, net_err s (Reason_ec e))
              | None \<Rightarrow>
                  let s = cn_read_head s
                  in if cn_req_type s = req_res
                     then (case route mp router func_id (take len (cn_body s)) (Some self) (cn_req_id s) of
                             None \<Rightarrow> Some (s, [])
                           | Some (req_id, result) \<Rightarrow>
                               map_option (\<lambda>s. (s, [])) (response req_id result req_res s))
                     else if cn_req_type s = sub_pub
                     then (case codec_unpack (mp_unpack_key_token mp) (take len (cn_body s)) of
                             Inr (key, token) \<Rightarrow> Some (s, [Sub_callback key token])
                           | Inl ex \<Rightarrow> Some (s, net_err s (Reason_text (what ex))))
                     else Some (s, []))"

definition on_read_head :: "error_code \<Rightarrow> bytes \<Rightarrow> connection \<Rightarrow> connection \<times> cn_output list" where
  "on_read_head ec head s =
     (if \<not> cn_socket_open s
      then (s, net_err s (Reason_text (bytes_of ''socket already closed'')))
      else case ec of
             Some e \<Rightarrow> (cn_close s, net_err s (Reason_ec e))
           | None \<Rightarrow>
               let header = decode_header head
               in if hd_magic header \<noteq> MAGIC_NUM then (cn_close s, [])
                  else let s = s\<lparr>cn_req_id := hd_req_id header\<rparr>;
                           body_len = hd_body_len header;
                           s = s\<lparr>cn_req_type := hd_req_type header\<rparr>
                       in if 0 < body_len \<and> unat body_len < MAX_BUF_LEN
                          then let s = (if length (cn_body s) < unat body_len
                                        then s\<lparr>cn_body := resize (unat body_len) 0 (cn_body s)\<rparr> else s)
                               in (cn_async_read (hd_func_id header) (unat body_len) s, [])
                          else if body_len = 0 then (cn_read_head (cn_cancel_timer s), [])
                          else (cn_close s, net_err s (Reason_text (bytes_of ''invalid body len''))))"

text \<open>The handler of the timer.\<close>

definition on_timer :: "error_code \<Rightarrow> connection \<Rightarrow> connection" where
  "on_timer ec s =
     (if cn_has_closed s then s
      else if ec \<noteq> None then s
      else cn_close s)"


subsection \<open>Runs\<close>

text \<open>A completed operation, the expired timer, or a response from the server's side. On success asio
  has delivered exactly the bytes asked for, on an error possibly fewer.\<close>

datatype cn_event =
    E_head error_code bytes
  | E_body error_code bytes
  | E_write error_code
  | E_timer
  | E_response u64 bytes request_type

inductive cn_step ::
    "('a, 'r) msgpack \<Rightarrow> router \<Rightarrow> nat \<Rightarrow> connection \<Rightarrow> cn_event \<Rightarrow> cn_output list \<Rightarrow> connection \<Rightarrow> bool"
  for mp router self where
  head: "cn_reads s = Read_head # rest \<Longrightarrow> length head \<le> HEAD_LEN \<Longrightarrow> ec = None \<longrightarrow> length head = HEAD_LEN \<Longrightarrow>
    on_read_head ec head (s\<lparr>cn_reads := rest\<rparr>) = (s', out) \<Longrightarrow>
    cn_step mp router self s (E_head ec head) out s'"
| body: "cn_reads s = Read_body func_id n # rest \<Longrightarrow> length data \<le> n \<Longrightarrow> ec = None \<longrightarrow> length data = n \<Longrightarrow>
    on_read_body mp router self func_id ec (length data)
      (s\<lparr>cn_reads := rest, cn_body := data @ drop (length data) (cn_body s)\<rparr>) = Some (s', out) \<Longrightarrow>
    cn_step mp router self s (E_body ec data) out s'"
| written: "cn_writes s = w # rest \<Longrightarrow> on_write ec (s\<lparr>cn_writes := rest\<rparr>) = (s', out) \<Longrightarrow>
    cn_step mp router self s (E_write ec) out s'"
| timer: "cn_timer s \<Longrightarrow> s' = on_timer None (s\<lparr>cn_timer := False\<rparr>) \<Longrightarrow>
    cn_step mp router self s E_timer [] s'"
| respond: "response req_id data req_type s = Some s' \<Longrightarrow>
    cn_step mp router self s (E_response req_id data req_type) [] s'"

inductive cn_run ::
    "('a, 'r) msgpack \<Rightarrow> router \<Rightarrow> nat \<Rightarrow> connection \<Rightarrow> (cn_event \<times> cn_output list) list \<Rightarrow> connection \<Rightarrow> bool"
  for mp router self where
  nil: "cn_run mp router self s [] s"
| cons: "cn_step mp router self s e out s' \<Longrightarrow> cn_run mp router self s' es s'' \<Longrightarrow>
    cn_run mp router self s ((e, out) # es) s''"

inductive_cases cn_stepE: "cn_step mp router self s e out s'"
inductive_cases cn_run_NilE [elim!]: "cn_run mp router self s [] s'"
inductive_cases cn_run_ConsE: "cn_run mp router self s (x # es) s'"

subsection \<open>Invariant\<close>

definition cn_ok :: "connection \<Rightarrow> bool" where
  "cn_ok s \<longleftrightarrow>
     INIT_BUF_SIZE \<le> length (cn_body s) \<and> length (cn_body s) < MAX_BUF_LEN \<and>
     cn_socket_open s = (\<not> cn_has_closed s) \<and>
     length (cn_reads s) \<le> 1 \<and>
     (\<forall>f n. Read_body f n \<in> set (cn_reads s) \<longrightarrow> 0 < n \<and> n \<le> length (cn_body s)) \<and>
     (cn_writes s = [] \<or> cn_writes s = map cn_frame (take 1 (cn_write_queue s))) \<and>
     (\<not> cn_has_closed s \<longrightarrow> cn_writes s = map cn_frame (take 1 (cn_write_queue s))) \<and>
     (\<forall>w\<in>set (cn_writes s). cn_header s = fst w) \<and>
     (\<forall>m\<in>set (cn_write_queue s). length (msg_content m) < MAX_BUF_LEN) \<and>
     (cn_timer s \<longrightarrow> cn_timeout_seconds s \<noteq> 0)"

lemmas cn_ops = cn_read_head_def cn_async_read_head_def cn_async_read_def cn_reset_timer_def
  cn_cancel_timer_def cn_close_def cn_async_write_def cn_start_def

lemma frame_len: "length c < MAX_BUF_LEN \<Longrightarrow> unat (of_nat (length c) :: u32) = length c"
  by (simp add: MAX_BUF_LEN_def unsigned_of_nat take_bit_nat_eq_self)

text \<open>\<open>write\<close> hands the frame of the first message to asio and leaves its header in \<open>header_\<close>.\<close>

lemma cn_write_eq:
  assumes "cn_write_queue s = m # q" and "length (msg_content m) < MAX_BUF_LEN"
  shows "cn_write s = s\<lparr>cn_write_size := of_nat (length (msg_content m)), cn_header := fst (cn_frame m),
           cn_writes := cn_writes s @ [cn_frame m]\<rparr>"
  using assms by (simp add: cn_write_def Let_def cn_async_write_def cn_frame_def frame_len)

abbreviation mk_msg :: "u64 \<Rightarrow> request_type \<Rightarrow> bytes \<Rightarrow> message_type" where
  "mk_msg req_id req_type data \<equiv> \<lparr>msg_req_id = req_id, msg_req_type = req_type, msg_content = data\<rparr>"

lemma response_eq:
  assumes "length data < MAX_BUF_LEN"
  shows "response req_id data req_type s =
     Some (if cn_write_queue s = []
           then s\<lparr>cn_write_queue := [mk_msg req_id req_type data], cn_write_size := of_nat (length data),
                  cn_header := fst (cn_frame (mk_msg req_id req_type data)), cn_writes := cn_writes s @ [cn_frame (mk_msg req_id req_type data)]\<rparr>
           else s\<lparr>cn_write_queue := cn_write_queue s @ [mk_msg req_id req_type data]\<rparr>)"
  using assms by (cases "cn_write_queue s") (simp_all add: response_def Let_def cn_write_eq)

lemma response_Some:
  "response req_id data req_type s = Some s' \<Longrightarrow> length data < MAX_BUF_LEN"
  by (auto simp: response_def split: if_splits)

lemma cn_ok_new [wf_intros]: "cn_ok (cn_start (new_connection timeout))"
  by (simp add: cn_ok_def new_connection_def cn_ops wire_consts)

lemma cn_ok_close [wf_intros]: "cn_ok s \<Longrightarrow> cn_ok (cn_close s)"
  by (simp add: cn_ok_def cn_close_def)

lemma cn_ok_timer [wf_intros]: "cn_ok s \<Longrightarrow> cn_ok (s\<lparr>cn_timer := False\<rparr>)"
  by (simp add: cn_ok_def)

lemma cn_ok_cancel_timer [wf_intros]: "cn_ok s \<Longrightarrow> cn_ok (cn_cancel_timer s)"
  by (simp add: cn_cancel_timer_def cn_ok_timer)

lemma cn_ok_read_head [wf_intros]: "cn_ok s \<Longrightarrow> cn_reads s = [] \<Longrightarrow> cn_ok (cn_read_head s)"
  by (auto simp: cn_ok_def cn_ops)

lemma cn_ok_reads_Nil [wf_intros]: "cn_ok s \<Longrightarrow> cn_ok (s\<lparr>cn_reads := []\<rparr>)"
  by (simp add: cn_ok_def)

lemma cn_ok_head_fields [wf_intros]: "cn_ok s \<Longrightarrow> cn_ok (s\<lparr>cn_req_id := i, cn_req_type := t\<rparr>)"
  by (simp add: cn_ok_def)

lemma cn_ok_body [wf_intros]:
  "cn_ok s \<Longrightarrow> length body = length (cn_body s) \<Longrightarrow> cn_ok (s\<lparr>cn_body := body\<rparr>)"
  by (simp add: cn_ok_def)

lemma cn_ok_async_read [wf_intros]:
  assumes "cn_ok s" and "cn_reads s = []" and "0 < n" and "n < MAX_BUF_LEN"
  shows "cn_ok (cn_async_read f n (if length (cn_body s) < n then s\<lparr>cn_body := resize n 0 (cn_body s)\<rparr> else s))"
  using assms by (auto simp: cn_ok_def cn_async_read_def)

lemma cn_ok_response:
  assumes "cn_ok s" and "response req_id data req_type s = Some s'"
  shows "cn_ok s'"
proof (cases "cn_write_queue s")
  case Nil
  then show ?thesis
    using assms response_Some [OF assms(2)] by (auto simp: response_eq cn_ok_def)
next
  case (Cons m q)
  then show ?thesis
    using assms response_Some [OF assms(2)] by (auto simp: response_eq cn_ok_def)
qed

lemma cn_ok_on_write:
  assumes "cn_ok s" and "cn_writes s = w # rest" and "on_write ec (s\<lparr>cn_writes := rest\<rparr>) = (s', out)"
  shows "cn_ok s'"
proof -
  obtain m q where q: "cn_write_queue s = m # q" and w: "rest = []"
    using assms(1,2) by (cases "cn_write_queue s") (auto simp: cn_ok_def)
  have closed: "cn_ok (s\<lparr>cn_writes := []\<rparr>)" if "cn_has_closed s"
    using assms(1) that by (simp add: cn_ok_def)
  show ?thesis
  proof (cases ec)
    case None
    then show ?thesis
      using assms(1,3) q w closed
      by (cases q) (auto simp: on_write_def Let_def cn_write_eq cn_ok_def split: if_splits)
  next
    case (Some e)
    then show ?thesis
      using assms(1,3) q w by (auto simp: on_write_def cn_close_def cn_ok_def split: if_splits)
  qed
qed

lemma cn_ok_on_read_head:
  assumes "cn_ok s" and "cn_reads s = []" and "on_read_head ec head s = (s', out)"
  shows "cn_ok s'"
proof -
  let ?s = "s\<lparr>cn_req_id := hd_req_id (decode_header head), cn_req_type := hd_req_type (decode_header head)\<rparr>"
  let ?n = "unat (hd_body_len (decode_header head))"
  have ok: "cn_ok ?s" and r: "cn_reads ?s = []"
    using assms(1,2) by (simp_all add: cn_ok_head_fields)
  have "cn_ok (cn_read_head (cn_cancel_timer ?s))"
    by (rule cn_ok_read_head [OF cn_ok_cancel_timer [OF ok]]) (use r in \<open>simp add: cn_cancel_timer_def\<close>)
  moreover have "0 < ?n \<Longrightarrow> ?n < MAX_BUF_LEN \<Longrightarrow> cn_ok (cn_async_read f ?n
      (if length (cn_body ?s) < ?n then ?s\<lparr>cn_body := resize ?n 0 (cn_body ?s)\<rparr> else ?s))" for f
    by (rule cn_ok_async_read [OF ok r])
  moreover have "cn_ok (cn_close s)" and "cn_ok (cn_close ?s)"
    using assms(1) ok by (simp_all add: cn_ok_close)
  ultimately show ?thesis
    using assms(1,3) by (auto simp: on_read_head_def Let_def unat_gt_0 split: if_splits option.splits)
qed

lemma cn_ok_on_read_body:
  assumes "cn_ok s" and "cn_reads s = []" and "on_read_body mp router self f ec n s = Some (s', out)"
  shows "cn_ok s'"
proof -
  let ?s = "cn_read_head (cn_cancel_timer s)"
  have ok: "cn_ok (cn_cancel_timer s)" and "cn_ok ?s"
    using assms(1,2) by (auto intro!: wf_intros simp: cn_cancel_timer_def)
  then show ?thesis
    using assms(3) cn_ok_response [of ?s]
    by (auto simp: on_read_body_def Let_def split: if_splits option.splits sum.splits)
qed

lemma cn_reads_one: "cn_ok s \<Longrightarrow> cn_reads s = r # rest \<Longrightarrow> rest = []"
  by (simp add: cn_ok_def)

lemma cn_ok_step: "cn_step mp router self s e out s' \<Longrightarrow> cn_ok s \<Longrightarrow> cn_ok s'"
proof (induction rule: cn_step.induct)
  case (head s rest head ec s' out)
  then show ?case
    using cn_ok_on_read_head [OF cn_ok_reads_Nil] cn_reads_one by fastforce
next
  case (body s func_id n rest data ec s' out)
  then have "rest = []" and "n \<le> length (cn_body s)"
    using cn_reads_one by (fastforce, auto simp: cn_ok_def)
  then have "cn_ok (s\<lparr>cn_reads := rest, cn_body := data @ drop (length data) (cn_body s)\<rparr>)"
    using cn_ok_body [OF cn_ok_reads_Nil, OF body.prems] body.hyps(2) by simp
  then show ?case
    using cn_ok_on_read_body body.hyps(4) \<open>rest = []\<close> by fastforce
next
  case (written s w rest ec s' out)
  then show ?case by (blast intro: cn_ok_on_write)
next
  case (timer s s')
  then show ?case by (auto simp: on_timer_def intro!: wf_intros)
next
  case (respond req_id data req_type s s')
  then show ?case by (blast intro: cn_ok_response)
qed

lemma cn_ok_run: "cn_run mp router self s es s' \<Longrightarrow> cn_ok s \<Longrightarrow> cn_ok s'"
  by (induction rule: cn_run.induct) (auto dest: cn_ok_step)


subsection \<open>The write queue\<close>

definition msg_of_frame :: "rpc_header \<times> bytes \<Rightarrow> message_type" where
  "msg_of_frame f = mk_msg (hd_req_id (fst f)) (hd_req_type (fst f)) (snd f)"

abbreviation cn_writing :: "connection \<Rightarrow> message_type list" where
  "cn_writing s \<equiv> map msg_of_frame (cn_writes s)"

definition cn_send :: "message_type \<Rightarrow> connection \<Rightarrow> connection" where
  "cn_send m s = the (response (msg_req_id m) (msg_content m) (msg_req_type m) s)"

text \<open>The completion of the oldest write without an error.\<close>

definition cn_sent :: "connection \<Rightarrow> connection" where
  "cn_sent s = fst (on_write None (s\<lparr>cn_writes := tl (cn_writes s)\<rparr>))"

abbreviation cn_up :: "connection \<Rightarrow> bool" where
  "cn_up s \<equiv> \<not> cn_has_closed s \<and> (\<forall>m\<in>set (cn_write_queue s). length (msg_content m) < MAX_BUF_LEN)"

lemma msg_of_cn_frame [simp]: "msg_of_frame (cn_frame m) = m"
  by (simp add: msg_of_frame_def cn_frame_def)

lemma cn_send_eq:
  assumes "length (msg_content m) < MAX_BUF_LEN"
  shows "cn_send m s =
     (if cn_write_queue s = []
      then s\<lparr>cn_write_queue := [m], cn_write_size := of_nat (length (msg_content m)),
             cn_header := fst (cn_frame m), cn_writes := cn_writes s @ [cn_frame m]\<rparr>
      else s\<lparr>cn_write_queue := cn_write_queue s @ [m]\<rparr>)"
  using assms by (cases m) (simp add: cn_send_def response_eq)

lemma cn_sent_eq:
  assumes "cn_up s"
  shows "cn_sent s =
     (case tl (cn_write_queue s) of
        [] \<Rightarrow> s\<lparr>cn_writes := tl (cn_writes s), cn_write_queue := []\<rparr>
      | m # q \<Rightarrow> s\<lparr>cn_writes := tl (cn_writes s) @ [cn_frame m], cn_write_queue := m # q,
                   cn_write_size := of_nat (length (msg_content m)), cn_header := fst (cn_frame m)\<rparr>)"
  using assms
  by (cases "cn_write_queue s"; cases "tl (cn_write_queue s)")
    (auto simp: cn_sent_def on_write_def Let_def cn_write_eq)

interpretation cq: send_queue cn_write_queue cn_writing cn_up
  "\<lambda>m. length (msg_content m) < MAX_BUF_LEN" cn_send cn_sent
  by unfold_locales
    (auto simp: cn_send_eq cn_sent_eq map_tl neq_Nil_conv split: list.splits dest: list.set_sel)

subsection \<open>Serving a frame\<close>

lemma open_of: "cn_ok s \<Longrightarrow> \<not> cn_has_closed s \<Longrightarrow> cn_socket_open s"
  by (simp add: cn_ok_def)

text \<open>The state after a header with a body of \<open>n\<close> bytes.\<close>

definition cn_await_body :: "rpc_header \<Rightarrow> connection \<Rightarrow> connection" where
  "cn_await_body h s =
     (let s = s\<lparr>cn_req_id := hd_req_id h, cn_req_type := hd_req_type h\<rparr>; n = unat (hd_body_len h)
      in cn_async_read (hd_func_id h) n
           (if length (cn_body s) < n then s\<lparr>cn_body := resize n 0 (cn_body s)\<rparr> else s))"

lemma on_read_head_body:
  assumes "cn_socket_open s" and "hd_magic h = MAGIC_NUM"
    and "0 < unat (hd_body_len h)" and "unat (hd_body_len h) < MAX_BUF_LEN"
  shows "on_read_head None (encode_header p q h) s = (cn_await_body h s, [])"
proof -
  have "hd_body_len h > 0" using assms(3) by (simp add: unat_gt_0 word_neq_0_conv)
  then show ?thesis
    using assms by (simp add: on_read_head_def Let_def cn_await_body_def)
qed

lemma cn_await_body_simps [simp]:
  "cn_reads (cn_await_body h s) = cn_reads s @ [Read_body (hd_func_id h) (unat (hd_body_len h))]"
  "unat (hd_body_len h) \<le> length (cn_body (cn_await_body h s))"
  "cn_req_id (cn_await_body h s) = hd_req_id h"
  "cn_req_type (cn_await_body h s) = hd_req_type h"
  "cn_socket_open (cn_await_body h s) = cn_socket_open s"
  "cn_has_closed (cn_await_body h s) = cn_has_closed s"
  "cn_write_queue (cn_await_body h s) = cn_write_queue s"
  "cn_writes (cn_await_body h s) = cn_writes s"
  "cn_on_net_err (cn_await_body h s) = cn_on_net_err s"
  by (simp_all add: cn_await_body_def Let_def cn_async_read_def)

lemma response_simps:
  assumes "response req_id data req_type s = Some s'"
  shows "cn_write_queue s' = cn_write_queue s @ [mk_msg req_id req_type data]"
    and "cn_reads s' = cn_reads s" and "cn_has_closed s' = cn_has_closed s"
    and "cn_timer s' = cn_timer s" and "cn_timeout_seconds s' = cn_timeout_seconds s"
    and "cn_conn_id s' = cn_conn_id s"
  using assms response_Some [OF assms] by (auto simp: response_eq split: if_splits)

lemma read_head_simps [simp]:
  "cn_reads (cn_read_head s) = cn_reads s @ [Read_head]"
  "cn_has_closed (cn_read_head s) = cn_has_closed s"
  "cn_socket_open (cn_read_head s) = cn_socket_open s"
  "cn_req_type (cn_read_head s) = cn_req_type s"
  "cn_req_id (cn_read_head s) = cn_req_id s"
  "cn_body (cn_read_head s) = cn_body s"
  "cn_write_queue (cn_read_head s) = cn_write_queue s"
  "cn_on_net_err (cn_read_head s) = cn_on_net_err s"
  "cn_reads (cn_cancel_timer s) = cn_reads s"
  "cn_has_closed (cn_cancel_timer s) = cn_has_closed s"
  "cn_socket_open (cn_cancel_timer s) = cn_socket_open s"
  "cn_req_type (cn_cancel_timer s) = cn_req_type s"
  "cn_req_id (cn_cancel_timer s) = cn_req_id s"
  "cn_body (cn_cancel_timer s) = cn_body s"
  "cn_write_queue (cn_cancel_timer s) = cn_write_queue s"
  "cn_on_net_err (cn_cancel_timer s) = cn_on_net_err s"
  by (simp_all add: cn_ops)

lemma cn_head_step:
  assumes "cn_socket_open s" and "cn_reads s = [Read_head]" and "hd_magic h = MAGIC_NUM"
    and "unat (hd_body_len h) = n" and "0 < n" and "n < MAX_BUF_LEN"
  shows "cn_step mp router self s (E_head None (encode_header p q h)) []
           (cn_await_body h (s\<lparr>cn_reads := []\<rparr>))"
  using assms on_read_head_body [of "s\<lparr>cn_reads := []\<rparr>" h p q] by (intro cn_step.head) auto

text \<open>A body that asks for a response gets it.\<close>

lemma cn_body_step:
  assumes "cn_socket_open s" and "cn_reads s = [Read_body f (length data)]" and "cn_req_type s = req_res"
    and "route mp router f data (Some self) (cn_req_id s) = Some (req_id, result)"
    and "length result < MAX_BUF_LEN"
  shows "\<exists>s'. cn_step mp router self s (E_body None data) [] s' \<and>
     response req_id result req_res
       (cn_read_head (cn_cancel_timer (s\<lparr>cn_reads := [], cn_body := data @ drop (length data) (cn_body s)\<rparr>))) = Some s'"
proof -
  let ?s = "cn_read_head (cn_cancel_timer (s\<lparr>cn_reads := [], cn_body := data @ drop (length data) (cn_body s)\<rparr>))"
  obtain s' where s': "response req_id result req_res ?s = Some s'"
    using assms(5) by (simp add: response_eq)
  then have "cn_step mp router self s (E_body None data) [] s'"
    using assms(1-4) by (intro cn_step.body) (auto simp: on_read_body_def Let_def)
  then show ?thesis using s' by blast
qed

text \<open>A whole frame: a request is answered, a subscription is reported.\<close>

lemma cn_request_served:
  assumes "cn_ok s" and "\<not> cn_has_closed s" and "cn_reads s = [Read_head]"
    and "hd_magic h = MAGIC_NUM" and "hd_req_type h = req_res"
    and "unat (hd_body_len h) = length data" and "data \<noteq> []" and "length data < MAX_BUF_LEN"
    and "route mp router (hd_func_id h) data (Some self) (hd_req_id h) = Some (req_id, result)"
    and "length result < MAX_BUF_LEN"
  shows "\<exists>s'. cn_run mp router self s [(E_head None (encode_header p q h), []), (E_body None data, [])] s' \<and>
           cn_reads s' = [Read_head] \<and> \<not> cn_has_closed s' \<and>
           cn_write_queue s' = cn_write_queue s @ [mk_msg req_id req_res result]"
proof -
  let ?s1 = "cn_await_body h (s\<lparr>cn_reads := []\<rparr>)"
  have 1: "cn_step mp router self s (E_head None (encode_header p q h)) [] ?s1"
    using assms open_of by (intro cn_head_step) auto
  obtain s' where s': "cn_step mp router self ?s1 (E_body None data) [] s'"
    and r: "response req_id result req_res
       (cn_read_head (cn_cancel_timer (?s1\<lparr>cn_reads := [], cn_body := data @ drop (length data) (cn_body ?s1)\<rparr>))) = Some s'"
    using cn_body_step [of ?s1 "hd_func_id h" data mp router self req_id result] assms open_of by auto
  have "cn_run mp router self s [(E_head None (encode_header p q h), []), (E_body None data, [])] s'"
    using 1 s' by (auto intro: cn_run.intros)
  then show ?thesis
    using response_simps [OF r] assms(2) by auto
qed

lemma cn_subscription_served:
  assumes "cn_ok s" and "\<not> cn_has_closed s" and "cn_reads s = [Read_head]"
    and "hd_magic h = MAGIC_NUM" and "hd_req_type h = sub_pub"
    and "unat (hd_body_len h) = length data" and "data \<noteq> []" and "length data < MAX_BUF_LEN"
    and "mp_unpack_key_token mp data = Some (key, token)"
  shows "\<exists>s1 s2. cn_step mp router self s (E_head None (encode_header p q h)) [] s1 \<and>
           cn_step mp router self s1 (E_body None data) [Sub_callback key token] s2 \<and>
           cn_reads s2 = [Read_head] \<and> \<not> cn_has_closed s2 \<and> cn_write_queue s2 = cn_write_queue s"
proof -
  let ?s1 = "cn_await_body h (s\<lparr>cn_reads := []\<rparr>)"
  let ?s2 = "cn_read_head (cn_cancel_timer (?s1\<lparr>cn_reads := [], cn_body := data @ drop (length data) (cn_body ?s1)\<rparr>))"
  have 1: "cn_step mp router self s (E_head None (encode_header p q h)) [] ?s1"
    using assms open_of by (intro cn_head_step) auto
  have "cn_step mp router self ?s1 (E_body None data) [Sub_callback key token] ?s2"
    using assms open_of
    by (intro cn_step.body [where rest = "[]"]) (auto simp: on_read_body_def Let_def codec_unpack_def)
  then show ?thesis
    using 1 assms(2) by (intro exI conjI) (assumption, assumption, simp_all)
qed

subsection \<open>Staying alive\<close>

text \<open>An open connection that reads, with its timer running if it has one.\<close>

definition cn_alive :: "connection \<Rightarrow> bool" where
  "cn_alive s \<longleftrightarrow>
     cn_has_closed s \<or> cn_reads s \<noteq> [] \<and> (cn_timeout_seconds s \<noteq> 0 \<longrightarrow> cn_timer s)"

text \<open>An open connection on which nothing can happen any more but writing.\<close>

definition cn_stuck :: "connection \<Rightarrow> bool" where
  "cn_stuck s \<longleftrightarrow> \<not> cn_has_closed s \<and> cn_reads s = [] \<and> \<not> cn_timer s"

lemma cn_close_closed [simp]: "cn_has_closed (cn_close s)"
  by (simp add: cn_close_def)

lemma cn_alive_closed [simp]: "cn_has_closed s \<Longrightarrow> cn_alive s"
  by (simp add: cn_alive_def)

lemma cn_alive_read_head [simp]: "cn_alive (cn_read_head s)"
  by (simp add: cn_alive_def cn_ops)

lemma cn_alive_response:
  "response i d t s = Some s' \<Longrightarrow> cn_alive s' = cn_alive s"
  "response i d t s = Some s' \<Longrightarrow> cn_stuck s' = cn_stuck s"
  by (simp_all add: cn_alive_def cn_stuck_def response_simps)

lemma cn_write_alive [simp]:
  "cn_reads (cn_write s) = cn_reads s" "cn_has_closed (cn_write s) = cn_has_closed s"
  "cn_timer (cn_write s) = cn_timer s" "cn_timeout_seconds (cn_write s) = cn_timeout_seconds s"
  by (simp_all add: cn_write_def Let_def cn_async_write_def)

lemma on_write_None_alive:
  "on_write None s = (s', out) \<Longrightarrow> cn_alive s' = cn_alive s \<and> cn_stuck s' = cn_stuck s"
  by (auto simp: on_write_def Let_def cn_alive_def cn_stuck_def split: if_splits)

lemma on_write_Some_closed: "on_write (Some e) s = (s', out) \<Longrightarrow> cn_alive s'"
  by (auto simp: on_write_def)

lemma cn_alive_await_body:
  "cn_timeout_seconds s \<noteq> 0 \<longrightarrow> cn_timer s \<Longrightarrow> cn_alive (cn_async_read f n s)"
  by (simp add: cn_alive_def cn_async_read_def)

lemma cn_alive_step:
  assumes "cn_step mp router self s e out s'" and "cn_ok s" and "cn_alive s"
    and "\<forall>ec data. e \<noteq> E_body (Some ec) data"
  shows "cn_alive s'"
  using assms
proof (induction rule: cn_step.induct)
  case (head s rest head ec s' out)
  then have "cn_has_closed s \<or> (cn_timeout_seconds s \<noteq> 0 \<longrightarrow> cn_timer s)" by (auto simp: cn_alive_def)
  then show ?case
    using head.hyps(4) head.prems(1)
    by (auto simp: on_read_head_def Let_def cn_ok_def intro!: cn_alive_await_body
        split: if_splits option.splits)
next
  case (body s func_id n rest data ec s' out)
  then show ?case
    by (auto simp: on_read_body_def Let_def cn_ok_def cn_alive_response split: if_splits option.splits sum.splits)
next
  case (written s w rest ec s' out)
  have "cn_alive (s\<lparr>cn_writes := rest\<rparr>)" using written.prems by (simp add: cn_alive_def)
  then show ?case
    using written.hyps on_write_None_alive on_write_Some_closed by (cases ec) auto
next
  case (timer s s')
  then show ?case by (simp add: on_timer_def)
next
  case (respond req_id data req_type s s')
  then show ?case by (simp add: cn_alive_response)
qed

lemma cn_stuck_step:
  assumes "cn_step mp router self s e out s'" and "cn_stuck s" and "\<forall>ec. e \<noteq> E_write (Some ec)"
  shows "cn_stuck s'"
  using assms
proof (induction rule: cn_step.induct)
  case (written s w rest ec s' out)
  have "cn_stuck (s\<lparr>cn_writes := rest\<rparr>)" using written.prems by (simp add: cn_stuck_def)
  then show ?case
    using written on_write_None_alive by (cases ec) auto
qed (simp_all add: cn_stuck_def response_simps)

lemma cn_stuck_run:
  assumes "cn_run mp router self s es s'" and "cn_stuck s"
    and "\<forall>ec out. (E_write (Some ec), out) \<notin> set es"
  shows "cn_stuck s'"
  using assms by (induction rule: cn_run.induct) (auto dest: cn_stuck_step)

lemma cn_alive_run:
  assumes "cn_run mp router self s es s'" and "cn_ok s" and "cn_alive s"
    and "\<forall>ec data out. (E_body (Some ec) data, out) \<notin> set es"
  shows "cn_alive s'"
  using assms by (induction rule: cn_run.induct) (auto dest: cn_alive_step cn_ok_step)

lemma cn_body_error_stuck:
  assumes "cn_step mp router self s (E_body (Some ec) data) out s'" and "cn_ok s" and "\<not> cn_has_closed s"
  shows "cn_stuck s'"
  using assms
  by (auto elim!: cn_step.cases simp: on_read_body_def Let_def cn_ok_def cn_stuck_def cn_cancel_timer_def
      split: if_splits)

subsection \<open>An example\<close>

text \<open>A connection with a time limit of five seconds that receives a request of two bytes for a function
  nobody registered, and then loses its peer in the middle of the next body.\<close>

definition demo_head :: rpc_header where
  "demo_head = \<lparr>hd_magic = MAGIC_NUM, hd_req_type = req_res, hd_body_len = 2, hd_req_id = 9, hd_func_id = 7\<rparr>"

abbreviation demo_start :: connection where
  "demo_start \<equiv> cn_start (new_connection 5)"

lemma demo_start_simps [simp]:
  "cn_reads demo_start = [Read_head]" "\<not> cn_has_closed demo_start" "cn_socket_open demo_start"
  "cn_write_queue demo_start = []" "cn_writes demo_start = []"
  by (simp_all add: cn_start_def new_connection_def) (simp add: cn_ops)

definition demo_result :: bytes where
  "demo_result = pack_args_str_string demo_msgpack Result_FAIL (unknown_function @ to_string 7)"

lemma demo_route:
  "route demo_msgpack new_router 7 data (Some conn) 9 = Some (9, demo_result)"
  "length demo_result < MAX_BUF_LEN"
  by (simp_all add: route_None new_router_def get_name_by_key_def demo_result_def pack_args_str_string_def
      demo_msgpack_def demo_code_def unknown_function_def bytes_of_def to_string.simps MAX_BUF_LEN_def)

lemma demo_steps:
  obtains s1 s2 where
    "cn_step demo_msgpack new_router self demo_start (E_head None (encode_header 0 0 demo_head)) [] s1"
    and "cn_step demo_msgpack new_router self s1 (E_body None [5, 6]) [] s2"
    and "cn_step demo_msgpack new_router self s1 (E_body (Some (Ec_other 2)) [5]) [] (cn_cancel_timer (s1\<lparr>cn_reads := [], cn_body := 5 # drop 1 (cn_body s1)\<rparr>))"
    and "\<not> cn_has_closed s1"
proof -
  let ?s1 = "cn_await_body demo_head (demo_start\<lparr>cn_reads := []\<rparr>)"
  have 1: "cn_step demo_msgpack new_router self demo_start (E_head None (encode_header 0 0 demo_head)) [] ?s1"
    by (rule cn_head_step [where n = 2]) (simp_all add: demo_head_def MAX_BUF_LEN_def)
  have r: "cn_reads ?s1 = [Read_body 7 (length [5 :: u8, 6])]" by (simp add: demo_head_def)
  obtain s2 where s2: "cn_step demo_msgpack new_router self ?s1 (E_body None [5, 6]) [] s2"
    using cn_body_step [OF _ r, of demo_msgpack new_router self 9 demo_result] demo_route
    by (auto simp: demo_head_def)
  have "cn_step demo_msgpack new_router self ?s1 (E_body (Some (Ec_other 2)) [5]) []
      (cn_cancel_timer (?s1\<lparr>cn_reads := [], cn_body := 5 # drop 1 (cn_body ?s1)\<rparr>))"
    using r by (intro cn_step.body) (auto simp: on_read_body_def Let_def net_err_def cn_start_def new_connection_def
        cn_ops cn_await_body_def)
  then show thesis using that [OF 1 s2] by simp
qed

subsection \<open>Properties\<close>

text \<open>C18. Whatever completes in whatever order, from the start of a connection on: a read that is pending
  fits into the body buffer and there is never a second one, the buffer keeps its size limits, at most
  one write is pending and it is the frame of the first queued message with its header still in
  \<open>header_\<close>, and the flag \<open>has_closed_\<close> agrees with the socket.\<close>

theorem cn_invariant:
  assumes "cn_run mp router self (cn_start (new_connection timeout)) es s"
  shows "(cn_reads s = [] \<or> cn_reads s = [Read_head] \<or>
            (\<exists>f n. cn_reads s = [Read_body f n] \<and> 0 < n \<and> n \<le> length (cn_body s))) \<and>
         INIT_BUF_SIZE \<le> length (cn_body s) \<and> length (cn_body s) < MAX_BUF_LEN \<and>
         (cn_writes s = [] \<or>
            (\<exists>m q. cn_write_queue s = m # q \<and> cn_writes s = [cn_frame m] \<and> cn_header s = fst (cn_frame m))) \<and>
         (\<not> cn_has_closed s \<longrightarrow> cn_writes s = [] \<longrightarrow> cn_write_queue s = []) \<and>
         cn_socket_open s = (\<not> cn_has_closed s)"
proof -
  have ok: "cn_ok s" using assms cn_ok_new by (rule cn_ok_run)
  then have "cn_reads s = [] \<or> cn_reads s = [Read_head] \<or>
            (\<exists>f n. cn_reads s = [Read_body f n] \<and> 0 < n \<and> n \<le> length (cn_body s))"
    unfolding cn_ok_def
    by (cases "cn_reads s"; cases "hd (cn_reads s)") auto
  moreover have "cn_writes s = [] \<or>
      (\<exists>m q. cn_write_queue s = m # q \<and> cn_writes s = [cn_frame m] \<and> cn_header s = fst (cn_frame m))"
    using ok by (cases "cn_write_queue s") (auto simp: cn_ok_def)
  ultimately show ?thesis using ok by (auto simp: cn_ok_def)
qed

theorem cn_invariant_witness:
  "\<exists>es s. length es = 2 \<and> cn_run demo_msgpack new_router 1 demo_start es s \<and>
     (cn_reads s = [] \<or> cn_reads s = [Read_head] \<or>
        (\<exists>f n. cn_reads s = [Read_body f n] \<and> 0 < n \<and> n \<le> length (cn_body s)))"
proof -
  obtain s1 s2 where
    "cn_step demo_msgpack new_router 1 demo_start (E_head None (encode_header 0 0 demo_head)) [] s1"
    and "cn_step demo_msgpack new_router 1 s1 (E_body None [5, 6]) [] s2"
    by (rule demo_steps)
  then have r: "cn_run demo_msgpack new_router 1 demo_start
      [(E_head None (encode_header 0 0 demo_head), []), (E_body None [5, 6], [])] s2"
    by (auto intro: cn_run.intros)
  show ?thesis
    using cn_invariant [OF r] r
    by (intro exI [of _ "[(E_head None (encode_header 0 0 demo_head), []), (E_body None [5, 6], [])]"] exI [of _ s2]) simp
qed

text \<open>C20. Responses leave in the order in which they were given to the connection, none is lost or sent
  twice, and only one is being written at any time, as long as the connection stays open and writes
  succeed.\<close>

theorem cn_responses_in_order:
  assumes "cn_ok s" and "\<not> cn_has_closed s"
    and "\<forall>m\<in>set (q_sends es). length (msg_content m) < MAX_BUF_LEN"
    and "q_run cn_send cn_sent cn_writing es s = (s', done)"
  shows "done @ cn_write_queue s' = cn_write_queue s @ q_sends es \<and>
         map msg_of_frame (cn_writes s') = take 1 (cn_write_queue s') \<and> \<not> cn_has_closed s'"
proof -
  have "cn_up s" and "cq.one_write s"
    using assms(1,2) by (auto simp: cn_ok_def cq.one_write_def o_def)
  then show ?thesis
    using cq.fifo [OF _ _ assms(3,4)] by (simp add: cq.one_write_def)
qed



theorem cn_responses_in_order_witness:
  "\<exists>s' done. q_run cn_send cn_sent cn_writing [Send (mk_msg 1 0 [5]), Send (mk_msg 2 0 [6]), Sent] demo_start
       = (s', done) \<and>
     done @ cn_write_queue s' = [mk_msg 1 0 [5], mk_msg 2 0 [6]] \<and> \<not> cn_has_closed s'"
proof -
  let ?es = "[Send (mk_msg 1 0 [5]), Send (mk_msg 2 0 [6]), Sent]"
  obtain s' "done" where r: "q_run cn_send cn_sent cn_writing ?es demo_start = (s', done)"
    by fastforce
  have "\<forall>m\<in>set (q_sends ?es). length (msg_content m) < MAX_BUF_LEN" by (simp add: MAX_BUF_LEN_def)
  then show ?thesis
    using cn_responses_in_order [OF cn_ok_new _ _ r] r by simp
qed

text \<open>C7. A request is answered: when the head and the body of a frame with a request arrive on an idle
  connection, the router is asked with exactly the bytes of the body, the response that it gives is
  queued once under the id of the request, and the connection reads the next head. Nothing is
  reported as an error.\<close>

theorem cn_serves_request:
  assumes "cn_ok s" and "\<not> cn_has_closed s" and "cn_reads s = [Read_head]"
    and "hd_magic h = MAGIC_NUM" and "hd_req_type h = req_res"
    and "unat (hd_body_len h) = length data" and "data \<noteq> []" and "length data < MAX_BUF_LEN"
    and "route mp router (hd_func_id h) data (Some self) (hd_req_id h) = Some (req_id, result)"
    and "length result < MAX_BUF_LEN"
  shows "\<exists>s'. cn_run mp router self s [(E_head None (encode_header p q h), []), (E_body None data, [])] s' \<and>
           cn_reads s' = [Read_head] \<and> \<not> cn_has_closed s' \<and>
           cn_write_queue s' = cn_write_queue s @ [mk_msg req_id req_res result]"
  using assms by (rule cn_request_served)

theorem cn_serves_request_witness:
  "\<exists>s'. cn_run demo_msgpack new_router 1 demo_start
          [(E_head None (encode_header 0 0 demo_head), []), (E_body None [5, 6], [])] s' \<and>
        cn_reads s' = [Read_head] \<and> \<not> cn_has_closed s' \<and>
        cn_write_queue s' = cn_write_queue demo_start @ [mk_msg 9 req_res demo_result]"
  by (rule cn_serves_request [OF cn_ok_new])
    (simp_all add: demo_head_def demo_route MAX_BUF_LEN_def [symmetric], simp add: MAX_BUF_LEN_def)

text \<open>C30. The watchdog: from the start of a connection on and as long as no read of a body fails, the
  connection is closed, or it waits for bytes, and then its timer runs if it has a time limit, so
  that a silent client is closed; when the timer fires the connection is closed.\<close>

theorem cn_watchdog:
  assumes "cn_run mp router self (cn_start (new_connection timeout)) es s"
    and "\<forall>ec data out. (E_body (Some ec) data, out) \<notin> set es"
  shows "(cn_has_closed s \<or> cn_reads s \<noteq> [] \<and> (cn_timeout_seconds s \<noteq> 0 \<longrightarrow> cn_timer s)) \<and>
         (\<forall>out s'. cn_step mp router self s E_timer out s' \<longrightarrow> cn_has_closed s')"
proof -
  have "cn_alive (cn_start (new_connection timeout))" by (simp add: cn_start_def)
  then have "cn_alive s" using assms by (blast intro: cn_alive_run cn_ok_new)
  moreover have "cn_has_closed s'" if "cn_step mp router self s E_timer out s'" for out s'
    using that by (auto elim!: cn_step.cases simp: on_timer_def)
  ultimately show ?thesis by (simp add: cn_alive_def)
qed

theorem cn_watchdog_witness:
  "\<exists>s. cn_run demo_msgpack new_router 1 demo_start [(E_head None (encode_header 0 0 demo_head), [])] s \<and>
     (cn_has_closed s \<or> cn_reads s \<noteq> [] \<and> (cn_timeout_seconds s \<noteq> 0 \<longrightarrow> cn_timer s))"
proof -
  obtain s1 where
    "cn_step demo_msgpack new_router 1 demo_start (E_head None (encode_header 0 0 demo_head)) [] s1"
    by (rule demo_steps)
  then have r: "cn_run demo_msgpack new_router 1 demo_start [(E_head None (encode_header 0 0 demo_head), [])] s1"
    by (auto intro: cn_run.intros)
  show ?thesis using cn_watchdog [OF r] r by auto
qed

text \<open>When the read of a body fails, the handler reports the error but does not close the connection,
  although it has cancelled the timer and starts no read: the connection stays open for ever unless a
  write fails, so the server never removes it.\<close>

theorem cn_body_error_leaks:
  assumes "cn_ok s" and "\<not> cn_has_closed s"
    and "cn_step mp router self s (E_body (Some ec) data) out s1"
    and "cn_run mp router self s1 es s2" and "\<forall>ec out. (E_write (Some ec), out) \<notin> set es"
  shows "\<not> cn_has_closed s2 \<and> cn_reads s2 = [] \<and> \<not> cn_timer s2"
  using cn_stuck_run [OF assms(4) cn_body_error_stuck [OF assms(3,1,2)] assms(5)]
  by (simp add: cn_stuck_def)

theorem cn_body_error_leaks_witness:
  "\<exists>s1 s2. cn_run demo_msgpack new_router 1 demo_start
       [(E_head None (encode_header 0 0 demo_head), []), (E_body (Some (Ec_other 2)) [5], [])] s2 \<and>
     \<not> cn_has_closed s2 \<and> cn_reads s2 = [] \<and> \<not> cn_timer s2"
proof -
  obtain s1 s2 where 1: "cn_step demo_msgpack new_router 1 demo_start (E_head None (encode_header 0 0 demo_head)) [] s1"
    and 2: "cn_step demo_msgpack new_router 1 s1 (E_body (Some (Ec_other 2)) [5]) [] s2"
    and c: "\<not> cn_has_closed s1"
    by (rule demo_steps)
  have ok: "cn_ok s1" by (rule cn_ok_step [OF 1 cn_ok_new])
  have "cn_run demo_msgpack new_router 1 demo_start
       [(E_head None (encode_header 0 0 demo_head), []), (E_body (Some (Ec_other 2)) [5], [])] s2"
    using 1 2 by (auto intro: cn_run.intros)
  then show ?thesis
    using cn_body_error_leaks [OF ok c 2 cn_run.nil] by auto
qed

end
