(* ===== verification/Server.thy ===== *)
theory Server
  imports Connection "HOL-Library.Sublist"
begin

section \<open>The server (\<open>include/rest_rpc/io_service_pool.h\<close>, \<open>rpc_server.h\<close>)\<close>

text \<open>
  The pool of event loops, and the class \<open>rpc_server\<close> that accepts connections, keeps them until they
  are closed, and publishes to their subscriptions. The connection objects live in a store; the
  server's containers hold their numbers, and locking a weak pointer is a lookup in the store. An
  object leaves the store when nothing owns it any more: the acceptor, \<open>connections_\<close> or a pending
  operation. The hash containers are lists in the order of insertion; the order in which the code
  visits them is not specified and no result below depends on it. The two cleaning threads run their
  loop bodies \<open>clean\<close> and \<open>clean_sub_pub\<close> at any time, each under the mutex of its container, as do
  the other members, so that every member is one step.
\<close>

subsection \<open>\<open>io_service_pool\<close>\<close>

record io_service_pool =
  io_services :: "nat list"
  io_work :: "nat list"
  io_stopped :: "bool list"
  next_io_service :: nat

definition new_io_service_pool :: "nat \<Rightarrow> exn + io_service_pool" where
  "new_io_service_pool pool_size =
     (if pool_size = 0 then Inl (Exn_other (bytes_of ''io_service_pool size is 0''))
      else Inr \<lparr>io_services = [0..<pool_size], io_work = [0..<pool_size],
                io_stopped = replicate pool_size False, next_io_service = 0\<rparr>)"

definition io_pool_stop :: "io_service_pool \<Rightarrow> io_service_pool" where
  "io_pool_stop p = p\<lparr>io_stopped := map (\<lambda>_. True) (io_services p)\<rparr>"

definition get_io_service :: "io_service_pool \<Rightarrow> nat \<times> io_service_pool" where
  "get_io_service p =
     (let io_service = io_services p ! next_io_service p;
          p = p\<lparr>next_io_service := next_io_service p + 1\<rparr>;
          p = (if next_io_service p = length (io_services p) then p\<lparr>next_io_service := 0\<rparr> else p)
      in (io_service, p))"

subsection \<open>State of the server\<close>

record server =
  sv_pool :: io_service_pool
  sv_acceptor_open :: bool
  sv_store :: "nat \<rightharpoonup> connection"
  sv_next_ref :: nat
  sv_conn :: nat
  sv_timeout_seconds :: nat
  sv_connections :: "(int \<times> nat) list"
  sv_conn_id :: int
  sv_sub_map :: "(bytes \<times> nat) list"
  sv_token_list :: "bytes list"
  sv_net_err_callback :: bool
  sv_conn_timeout_callback :: bool
  sv_fast_transmition :: bool
  sv_stop_check :: bool
  sv_stop_check_pub_sub :: bool
  sv_has_stoped :: bool

definition sv_put :: "nat \<Rightarrow> connection \<Rightarrow> server \<Rightarrow> server" where
  "sv_put r c s = s\<lparr>sv_store := (sv_store s)(r \<mapsto> c)\<rparr>"

subsection \<open>Accepting\<close>

text \<open>The first part of \<open>do_accept\<close>: a new connection on the next event loop. The connection that \<open>conn_\<close>
  pointed to is destroyed when \<open>connections_\<close> does not hold it, that is when it was not accepted.\<close>

definition do_accept :: "server \<Rightarrow> server" where
  "do_accept s =
     (let (io_service, pool) = get_io_service (sv_pool s)
      in s\<lparr>sv_pool := pool, sv_conn := sv_next_ref s, sv_next_ref := sv_next_ref s + 1,
           sv_store := ((sv_store s)(sv_conn s :=
                (if sv_conn s \<in> snd ` set (sv_connections s) then sv_store s (sv_conn s) else None)))
              (sv_next_ref s \<mapsto> new_connection (sv_timeout_seconds s))\<rparr>)"

definition new_server :: "nat \<Rightarrow> nat \<Rightarrow> exn + server" where
  "new_server pool_size timeout_seconds =
     (case new_io_service_pool pool_size of
        Inl e \<Rightarrow> Inl e
      | Inr pool \<Rightarrow>
          let (acceptor_service, pool) = get_io_service pool;
              (signal_service, pool) = get_io_service pool
          in Inr (do_accept
               \<lparr>sv_pool = pool, sv_acceptor_open = True, sv_store = Map.empty, sv_next_ref = 0,
                sv_conn = 0, sv_timeout_seconds = timeout_seconds, sv_connections = [],
                sv_conn_id = 0, sv_sub_map = [], sv_token_list = [], sv_net_err_callback = False,
                sv_conn_timeout_callback = False, sv_fast_transmition = False,
                sv_stop_check = False, sv_stop_check_pub_sub = False, sv_has_stoped = False\<rparr>))"

text \<open>The callback that every connection gets for the subscriptions it reads.\<close>

definition sv_subscribe :: "bytes \<Rightarrow> bytes \<Rightarrow> nat \<Rightarrow> server \<Rightarrow> server" where
  "sv_subscribe key token conn s =
     (let s = s\<lparr>sv_sub_map := sv_sub_map s @ [(key @ token, conn)]\<rparr>
      in if token \<noteq> [] then s\<lparr>sv_token_list := List.insert token (sv_token_list s)\<rparr> else s)"

text \<open>The completion handler of \<open>async_accept\<close>.\<close>

definition on_accept :: "error_code \<Rightarrow> server \<Rightarrow> server" where
  "on_accept ec s =
     (if \<not> sv_acceptor_open s then s
      else
        let s = (case ec of
                   Some e \<Rightarrow> s
                 | None \<Rightarrow>
                     (case sv_store s (sv_conn s) of
                        None \<Rightarrow> s
                      | Some conn \<Rightarrow>
                          let conn = (if sv_net_err_callback s then on_network_error conn else conn);
                              conn = cn_start conn;
                              conn = set_conn_id (sv_conn_id s) conn
                          in (sv_put (sv_conn s) conn s)
                               \<lparr>sv_connections := sv_connections s @ [(sv_conn_id s, sv_conn s)],
                                sv_conn_id := sv_conn_id s + 1\<rparr>))
        in do_accept s)"

definition set_network_err_callback :: "server \<Rightarrow> server" where
  "set_network_err_callback s = s\<lparr>sv_net_err_callback := True\<rparr>"

definition set_conn_timeout_callback :: "server \<Rightarrow> server" where
  "set_conn_timeout_callback s = s\<lparr>sv_conn_timeout_callback := True\<rparr>"

text \<open>Only the socket options of later connections depend on this flag.\<close>

definition set_fast_transmition :: "bool \<Rightarrow> server \<Rightarrow> server" where
  "set_fast_transmition if_fast_transmition s = s\<lparr>sv_fast_transmition := if_fast_transmition\<rparr>"

subsection \<open>Publishing\<close>

definition get_token_list :: "server \<Rightarrow> bytes list" where
  "get_token_list s = sv_token_list s"

text \<open>\<open>get_shared_data\<close>: a string is sent as it is, anything else is packed.\<close>

definition get_shared_data :: "('a, 'r) msgpack \<Rightarrow> bytes + 'r \<Rightarrow> bytes" where
  "get_shared_data mp data = (case data of Inl s \<Rightarrow> s | Inr t \<Rightarrow> mp_pack_value mp t)"

definition publish_to :: "('a, 'r) msgpack \<Rightarrow> bytes \<Rightarrow> bytes \<Rightarrow> nat \<Rightarrow> server \<Rightarrow> server option" where
  "publish_to mp key data r s =
     (case sv_store s r of
        None \<Rightarrow> Some s
      | Some conn \<Rightarrow>
          if cn_has_closed conn then Some s
          else map_option (\<lambda>conn. sv_put r conn s) (cn_publish mp key data conn))"

definition sv_publish :: "('a, 'r) msgpack \<Rightarrow> bytes \<Rightarrow> bytes \<Rightarrow> bytes + 'r \<Rightarrow> server \<Rightarrow> server option" where
  "sv_publish mp key token data s =
     (if sv_sub_map s = [] then Some s
      else let shared_data = get_shared_data mp data
           in fold_opt (publish_to mp (key @ token) shared_data)
                (map snd (filter (\<lambda>(k, conn). k = key @ token) (sv_sub_map s))) s)"

definition publish :: "('a, 'r) msgpack \<Rightarrow> bytes \<Rightarrow> bytes + 'r \<Rightarrow> server \<Rightarrow> server option" where
  "publish mp key data s = sv_publish mp key [] data s"

definition publish_by_token :: "('a, 'r) msgpack \<Rightarrow> bytes \<Rightarrow> bytes \<Rightarrow> bytes + 'r \<Rightarrow> server \<Rightarrow> server option" where
  "publish_by_token mp key token data s = sv_publish mp key token data s"

subsection \<open>Cleaning\<close>

definition sv_closed :: "server \<Rightarrow> nat \<Rightarrow> bool" where
  "sv_closed s r = (case sv_store s r of None \<Rightarrow> True | Some conn \<Rightarrow> cn_has_closed conn)"

text \<open>One pass of the loop of \<open>clean\<close>: the server and the ids given to the timeout callback, if
  there is one.\<close>

definition clean :: "server \<Rightarrow> server \<times> int list" where
  "clean s =
     (s\<lparr>sv_connections := filter (\<lambda>(i, r). \<not> sv_closed s r) (sv_connections s)\<rparr>,
      if sv_conn_timeout_callback s
      then map (\<lambda>(i, r). case sv_store s r of None \<Rightarrow> i | Some conn \<Rightarrow> cn_conn_id conn)
             (filter (\<lambda>(i, r). sv_closed s r) (sv_connections s))
      else [])"

text \<open>One pass of \<open>clean_sub_pub\<close>, over the entries in turn with the tokens that are left.\<close>

fun clean_subs :: "(nat \<Rightarrow> bool) \<Rightarrow> (bytes \<times> nat) list \<Rightarrow> bytes list \<Rightarrow> (bytes \<times> nat) list \<times> bytes list" where
  "clean_subs closed [] tokens = ([], tokens)"
| "clean_subs closed ((key, conn) # subs) tokens =
     (if closed conn
      then clean_subs closed subs (filter (\<lambda>t. \<not> sublist t key) tokens)
      else (case clean_subs closed subs tokens of (subs, tokens) \<Rightarrow> ((key, conn) # subs, tokens)))"

definition clean_sub_pub :: "server \<Rightarrow> server" where
  "clean_sub_pub s =
     (let (sub_map, token_list) = clean_subs (sv_closed s) (sv_sub_map s) (sv_token_list s)
      in s\<lparr>sv_sub_map := sub_map, sv_token_list := token_list\<rparr>)"

definition sv_stop :: "server \<Rightarrow> server" where
  "sv_stop s =
     (if sv_has_stoped s then s
      else s\<lparr>sv_stop_check := True, sv_stop_check_pub_sub := True,
             sv_pool := io_pool_stop (sv_pool s), sv_has_stoped := True\<rparr>)"

subsection \<open>Steps\<close>

text \<open>What keeps a connection object alive besides the containers of the server.\<close>

definition owned :: "server \<Rightarrow> nat \<Rightarrow> bool" where
  "owned s r \<longleftrightarrow> r = sv_conn s \<or> r \<in> snd ` set (sv_connections s) \<or>
     (\<exists>c. sv_store s r = Some c \<and> (cn_reads c \<noteq> [] \<or> cn_writes c \<noteq> [] \<or> cn_timer c))"

fun deliver :: "nat \<Rightarrow> cn_output \<Rightarrow> server \<Rightarrow> server" where
  "deliver r (Sub_callback key token) s = sv_subscribe key token r s"
| "deliver r (Net_err reason) s = s"

datatype 'r sv_event =
    Accept error_code
  | On_connection nat cn_event
  | Publish bytes bytes "bytes + 'r"
  | Clean "int list"
  | Clean_sub_pub
  | Destroy nat

inductive sv_step :: "('a, 'r) msgpack \<Rightarrow> router \<Rightarrow> server \<Rightarrow> 'r sv_event \<Rightarrow> server \<Rightarrow> bool"
  for mp router where
  accept: "sv_step mp router s (Accept ec) (on_accept ec s)"
| on_connection: "sv_store s r = Some c \<Longrightarrow> r \<noteq> sv_conn s \<Longrightarrow> cn_step mp router r c e out c' \<Longrightarrow>
    sv_step mp router s (On_connection r e) (fold (deliver r) out (sv_put r c' s))"
| publish: "sv_publish mp key token data s = Some s' \<Longrightarrow>
    sv_step mp router s (Publish key token data) s'"
| clean: "clean s = (s', ids) \<Longrightarrow> sv_step mp router s (Clean ids) s'"
| clean_sub_pub: "sv_step mp router s Clean_sub_pub (clean_sub_pub s)"
| destroy: "\<not> owned s r \<Longrightarrow> sv_step mp router s (Destroy r) (s\<lparr>sv_store := (sv_store s)(r := None)\<rparr>)"

inductive sv_run :: "('a, 'r) msgpack \<Rightarrow> router \<Rightarrow> server \<Rightarrow> 'r sv_event list \<Rightarrow> server \<Rightarrow> bool"
  for mp router where
  nil: "sv_run mp router s [] s"
| cons: "sv_step mp router s e s' \<Longrightarrow> sv_run mp router s' es s'' \<Longrightarrow> sv_run mp router s (e # es) s''"


inductive_cases sv_run_NilE [elim!]: "sv_run mp router s [] s'"

subsection \<open>Round robin\<close>

fun io_services_taken :: "nat \<Rightarrow> io_service_pool \<Rightarrow> nat list" where
  "io_services_taken 0 p = []"
| "io_services_taken (Suc k) p = (case get_io_service p of (i, p') \<Rightarrow> i # io_services_taken k p')"

lemma get_io_service_round_robin:
  assumes "io_services p = [0..<n]" and "next_io_service p = j" and "j < n"
  shows "get_io_service p = (j, p\<lparr>next_io_service := (j + 1) mod n\<rparr>)"
proof (cases "j + 1 = n")
  case True
  then show ?thesis using assms by (simp add: get_io_service_def Let_def)
next
  case False
  then have "(j + 1) mod n = j + 1" using assms(3) by simp
  then show ?thesis using False assms by (simp add: get_io_service_def Let_def)
qed

lemma io_services_taken_from:
  assumes "io_services p = [0..<n]" and "next_io_service p = j" and "j < n"
  shows "io_services_taken k p = map (\<lambda>i. (j + i) mod n) [0..<k]"
  using assms
proof (induction k arbitrary: p j)
  case 0
  then show ?case by simp
next
  case (Suc k)
  have "io_services_taken k (p\<lparr>next_io_service := (j + 1) mod n\<rparr>) = map (\<lambda>i. (j + 1 + i) mod n) [0..<k]"
    using Suc.IH [of "p\<lparr>next_io_service := (j + 1) mod n\<rparr>" "(j + 1) mod n"] Suc.prems
    by (simp add: mod_add_left_eq [of "Suc j" n, symmetric] mod_add_left_eq)
  then show ?case
    using Suc.prems by (simp add: get_io_service_round_robin map_upt_Suc del: upt_Suc)
qed

subsection \<open>Invariant\<close>

definition sv_ok :: "server \<Rightarrow> bool" where
  "sv_ok s \<longleftrightarrow>
     sv_conn s < sv_next_ref s \<and> sv_conn s \<notin> snd ` set (sv_connections s) \<and>
     (\<exists>c. sv_store s (sv_conn s) = Some c) \<and>
     (\<forall>r c. sv_store s r = Some c \<longrightarrow> r < sv_next_ref s) \<and>
     distinct (map fst (sv_connections s)) \<and> distinct (map snd (sv_connections s)) \<and>
     0 \<le> sv_conn_id s \<and>
     (\<forall>i r. (i, r) \<in> set (sv_connections s) \<longrightarrow>
        0 \<le> i \<and> i < sv_conn_id s \<and> map_option cn_conn_id (sv_store s r) = Some i) \<and>
     (\<forall>r c. sv_store s r = Some c \<and> \<not> cn_has_closed c \<and> r \<noteq> sv_conn s \<longrightarrow>
        r \<in> snd ` set (sv_connections s))"

lemma sv_ok_frame:
  assumes "sv_ok s" and "sv_conn s' = sv_conn s" and "sv_next_ref s' = sv_next_ref s"
    and "sv_store s' = sv_store s" and "sv_connections s' = sv_connections s" and "sv_conn_id s' = sv_conn_id s"
  shows "sv_ok s'"
  using assms by (simp add: sv_ok_def)

lemma sv_subscribe_frame [simp]:
  "sv_conn (sv_subscribe k t r s) = sv_conn s" "sv_next_ref (sv_subscribe k t r s) = sv_next_ref s"
  "sv_store (sv_subscribe k t r s) = sv_store s" "sv_connections (sv_subscribe k t r s) = sv_connections s"
  "sv_conn_id (sv_subscribe k t r s) = sv_conn_id s"
  by (simp_all add: sv_subscribe_def Let_def)

lemma sv_deliver_frame [simp]:
  "sv_conn (fold (deliver r) out s) = sv_conn s" "sv_next_ref (fold (deliver r) out s) = sv_next_ref s"
  "sv_store (fold (deliver r) out s) = sv_store s" "sv_connections (fold (deliver r) out s) = sv_connections s"
  "sv_conn_id (fold (deliver r) out s) = sv_conn_id s"
proof -
  have "sv_conn (deliver r x s) = sv_conn s \<and> sv_next_ref (deliver r x s) = sv_next_ref s \<and>
      sv_store (deliver r x s) = sv_store s \<and> sv_connections (deliver r x s) = sv_connections s \<and>
      sv_conn_id (deliver r x s) = sv_conn_id s" for x s
    by (cases x) simp_all
  then show "sv_conn (fold (deliver r) out s) = sv_conn s" "sv_next_ref (fold (deliver r) out s) = sv_next_ref s"
    "sv_store (fold (deliver r) out s) = sv_store s" "sv_connections (fold (deliver r) out s) = sv_connections s"
    "sv_conn_id (fold (deliver r) out s) = sv_conn_id s"
    by (induction out arbitrary: s) simp_all
qed

text \<open>An object changes but keeps its id; one that was closed stays closed.\<close>

lemma sv_ok_put:
  assumes "sv_ok s" and "sv_store s r = Some c" and "cn_conn_id c' = cn_conn_id c"
    and "cn_has_closed c \<longrightarrow> cn_has_closed c'"
  shows "sv_ok (sv_put r c' s)"
proof -
  have "cn_conn_id c = i" if "(i, r) \<in> set (sv_connections s)" for i
    using assms(1,2) that by (fastforce simp: sv_ok_def)
  then show ?thesis
    using assms by (auto simp: sv_ok_def sv_put_def)
qed

lemma sv_registered:
  assumes "sv_ok s" and "sv_store s r = Some c" and "\<not> cn_has_closed c" and "r \<noteq> sv_conn s"
  shows "(cn_conn_id c, r) \<in> set (sv_connections s)"
proof -
  have "r \<in> snd ` set (sv_connections s)" using assms unfolding sv_ok_def by blast
  then obtain i where i: "(i, r) \<in> set (sv_connections s)" by force
  then have "map_option cn_conn_id (sv_store s r) = Some i" using assms(1) unfolding sv_ok_def by blast
  then show ?thesis using i assms(2) by simp
qed

lemma sv_open_clean:
  assumes "sv_ok s" and "sv_store s r = Some c" and "\<not> cn_has_closed c" and "r \<noteq> sv_conn s"
  shows "r \<in> snd ` set (filter (\<lambda>(i, r). \<not> sv_closed s r) (sv_connections s))"
proof -
  have "(cn_conn_id c, r) \<in> set (sv_connections s)" using assms by (rule sv_registered)
  then show ?thesis
    using assms(2,3) by (force simp: sv_closed_def)
qed

lemma sv_ok_clean: "sv_ok s \<Longrightarrow> sv_ok (fst (clean s))"
  using sv_open_clean [of s]
  by (auto simp: sv_ok_def clean_def distinct_map_filter)

lemma sv_ok_destroy:
  assumes "sv_ok s" and "\<not> owned s r"
  shows "sv_ok (s\<lparr>sv_store := (sv_store s)(r := None)\<rparr>)"
proof -
  have ne: "r \<noteq> sv_conn s" "r \<notin> snd ` set (sv_connections s)"
    using assms(2) by (simp_all add: owned_def)
  then have "r' \<noteq> r" if "(i, r') \<in> set (sv_connections s)" for i r'
    using that by force
  then show ?thesis
    using assms(1) ne by (auto simp: sv_ok_def)
qed

text \<open>\<open>do_accept\<close> is called with \<open>conn_\<close> registered or to be dropped.\<close>

definition sv_reg_ok :: "server \<Rightarrow> bool" where
  "sv_reg_ok s \<longleftrightarrow>
     (\<forall>r c. sv_store s r = Some c \<longrightarrow> r < sv_next_ref s) \<and>
     distinct (map fst (sv_connections s)) \<and> distinct (map snd (sv_connections s)) \<and>
     0 \<le> sv_conn_id s \<and>
     (\<forall>i r. (i, r) \<in> set (sv_connections s) \<longrightarrow>
        0 \<le> i \<and> i < sv_conn_id s \<and> map_option cn_conn_id (sv_store s r) = Some i) \<and>
     (\<forall>r c. sv_store s r = Some c \<and> \<not> cn_has_closed c \<and> r \<noteq> sv_conn s \<longrightarrow>
        r \<in> snd ` set (sv_connections s))"

lemma do_accept_simps:
  "sv_store (do_accept s) r =
      (if r = sv_next_ref s then Some (new_connection (sv_timeout_seconds s))
       else if r = sv_conn s \<and> r \<notin> snd ` set (sv_connections s) then None else sv_store s r)"
  "sv_connections (do_accept s) = sv_connections s" "sv_conn_id (do_accept s) = sv_conn_id s"
  "sv_next_ref (do_accept s) = sv_next_ref s + 1" "sv_conn (do_accept s) = sv_next_ref s"
  by (auto simp: do_accept_def split: prod.splits)

lemma sv_ok_do_accept:
  assumes "sv_reg_ok s"
  shows "sv_ok (do_accept s)"
proof -
  let ?R = "snd ` set (sv_connections s)" and ?s = "do_accept s"
  note store = do_accept_simps(1) [of s] and same = do_accept_simps(2-5) [of s]
  have in_store: "sv_store s r \<noteq> None" if "r \<in> ?R" for r
    using assms that by (force simp: sv_reg_ok_def)
  have fresh: "sv_next_ref s \<notin> ?R"
    using in_store assms by (force simp: sv_reg_ok_def)
  have "0 \<le> i \<and> i < sv_conn_id s \<and> map_option cn_conn_id (sv_store ?s r) = Some i"
    if "(i, r) \<in> set (sv_connections s)" for i r
  proof -
    have "r \<in> ?R" using that by force
    then have "sv_store ?s r = sv_store s r" using fresh by (metis store)
    then show ?thesis using assms that by (simp add: sv_reg_ok_def)
  qed
  moreover have "r \<in> ?R" if "sv_store ?s r = Some c \<and> \<not> cn_has_closed c \<and> r \<noteq> sv_next_ref s" for r c
    using that assms by (cases "r \<in> ?R") (auto simp: store sv_reg_ok_def split: if_splits)
  moreover have "r < sv_next_ref s + 1" if "sv_store ?s r = Some c" for r c
    using that assms by (fastforce simp: store sv_reg_ok_def split: if_splits)
  ultimately show ?thesis
    using assms fresh unfolding sv_ok_def same sv_reg_ok_def store [of "sv_next_ref s"]
    by (intro conjI allI impI) (blast | simp)+
qed

lemma sv_ok_reg: "sv_ok s \<Longrightarrow> sv_reg_ok s"
  by (simp add: sv_ok_def sv_reg_ok_def)

text \<open>Registering the connection that was accepted.\<close>

lemma sv_ok_on_accept:
  assumes "sv_ok s"
  shows "sv_ok (on_accept ec s)"
proof -
  obtain c where c: "sv_store s (sv_conn s) = Some c" using assms by (auto simp: sv_ok_def)
  let ?c = "set_conn_id (sv_conn_id s) (cn_start (if sv_net_err_callback s then on_network_error c else c))"
  let ?s = "(sv_put (sv_conn s) ?c s)
     \<lparr>sv_connections := sv_connections s @ [(sv_conn_id s, sv_conn s)], sv_conn_id := sv_conn_id s + 1\<rparr>"
  have id: "cn_conn_id ?c = sv_conn_id s" by (simp add: set_conn_id_def)
  have other: "r \<noteq> sv_conn s" "i < sv_conn_id s" if "(i, r) \<in> set (sv_connections s)" for i r
    using assms that by (force simp: sv_ok_def, simp add: sv_ok_def)
  have "sv_conn_id s \<notin> fst ` set (sv_connections s)"
    using other(2) by force
  then have reg: "sv_reg_ok ?s"
    using assms other(1) by (auto simp: sv_ok_def sv_reg_ok_def sv_put_def id less_imp_le intro: less_trans split: if_splits)
  show ?thesis
  proof (cases "sv_acceptor_open s")
    case True
    then have "on_accept ec s = do_accept (case ec of Some e \<Rightarrow> s | None \<Rightarrow> ?s)"
      by (simp add: on_accept_def Let_def c split: option.splits)
    then show ?thesis
      using sv_ok_do_accept [OF reg] sv_ok_do_accept [OF sv_ok_reg [OF assms]]
      by (cases ec) simp_all
  qed (simp add: on_accept_def assms)
qed


text \<open>What every step leaves of a connection: its id, and that it is closed.\<close>

lemma cn_ops_keep [simp]:
  "cn_conn_id (cn_close c) = cn_conn_id c" "cn_conn_id (cn_read_head c) = cn_conn_id c"
  "cn_conn_id (cn_cancel_timer c) = cn_conn_id c" "cn_conn_id (cn_write c) = cn_conn_id c"
  "cn_conn_id (cn_async_read f n c) = cn_conn_id c" "cn_has_closed (cn_async_read f n c) = cn_has_closed c"
  by (simp_all add: cn_ops cn_write_def Let_def)

lemma cn_step_keeps:
  "cn_step mp router self c e out c' \<Longrightarrow>
     cn_conn_id c' = cn_conn_id c \<and> (cn_has_closed c \<longrightarrow> cn_has_closed c')"
proof (induction rule: cn_step.induct)
  case (head s rest head ec s' out)
  then show ?case
    by (auto simp: on_read_head_def Let_def split: if_splits option.splits)
next
  case (body s func_id n rest data ec s' out)
  then show ?case
    by (auto simp: on_read_body_def Let_def response_simps split: if_splits option.splits sum.splits)
next
  case (written s w rest ec s' out)
  then show ?case
    by (auto simp: on_write_def Let_def split: if_splits option.splits)
next
  case (timer s s')
  then show ?case by (simp add: on_timer_def)
next
  case (respond req_id data req_type s s')
  then show ?case by (simp add: response_simps)
qed

lemma publish_to_cases:
  assumes "publish_to mp key data r s = Some s'"
  obtains "s' = s" "sv_closed s r"
    | c c' where "sv_store s r = Some c" "\<not> cn_has_closed c" "s' = sv_put r c' s"
      "response 0 (pack_args_str_key_data mp Result_OK key data) sub_pub c = Some c'"
  using assms by (auto simp: publish_to_def cn_publish_def sv_closed_def split: option.splits if_splits)

lemma sv_ok_publish_to: "sv_ok s \<Longrightarrow> publish_to mp key data r s = Some s' \<Longrightarrow> sv_ok s'"
  by (erule publish_to_cases) (simp_all add: sv_ok_put response_simps)

lemma sv_ok_publish: "sv_ok s \<Longrightarrow> sv_publish mp key token data s = Some s' \<Longrightarrow> sv_ok s'"
  by (auto simp: sv_publish_def Let_def sv_ok_publish_to split: if_splits
      elim: fold_opt_invariant [where P = sv_ok])

lemma sv_ok_clean_sub_pub: "sv_ok s \<Longrightarrow> sv_ok (clean_sub_pub s)"
  by (simp add: clean_sub_pub_def sv_ok_def split: prod.splits)

lemma sv_ok_step: "sv_step mp router s e s' \<Longrightarrow> sv_ok s \<Longrightarrow> sv_ok s'"
proof (induction rule: sv_step.induct)
  case (accept s ec)
  then show ?case by (rule sv_ok_on_accept)
next
  case (on_connection s r c e out c')
  then have "sv_ok (sv_put r c' s)"
    using cn_step_keeps by (blast intro: sv_ok_put)
  then show ?case by (rule sv_ok_frame) simp_all
next
  case (publish key token data s s')
  then show ?case by (blast intro: sv_ok_publish)
next
  case (clean s s' ids)
  then show ?case using sv_ok_clean [of s] by simp
next
  case (clean_sub_pub s)
  then show ?case by (rule sv_ok_clean_sub_pub)
next
  case (destroy s r)
  then show ?case by (blast intro: sv_ok_destroy)
qed

lemma sv_ok_run: "sv_run mp router s es s' \<Longrightarrow> sv_ok s \<Longrightarrow> sv_ok s'"
  by (induction rule: sv_run.induct) (auto dest: sv_ok_step)

lemma sv_ok_new: "new_server pool_size timeout = Inr s \<Longrightarrow> sv_ok s"
  by (auto simp: new_server_def Let_def sv_reg_ok_def split: sum.splits prod.splits intro!: sv_ok_do_accept)

subsection \<open>Publishing and cleaning\<close>

text \<open>A connection that has been given the same message \<open>n\<close> times: nothing but its queue changes when
  a write is running; otherwise the write of the first one is started, with its header in \<open>header_\<close>.\<close>

definition queued :: "nat \<Rightarrow> message_type \<Rightarrow> connection \<Rightarrow> connection" where
  "queued n m c =
     (if n = 0 then c
      else if cn_write_queue c \<noteq> [] then c\<lparr>cn_write_queue := cn_write_queue c @ replicate n m\<rparr>
      else c\<lparr>cn_write_queue := replicate n m, cn_write_size := of_nat (length (msg_content m)),
             cn_header := fst (cn_frame m), cn_writes := cn_writes c @ [cn_frame m]\<rparr>)"

lemma queued_simps [simp]:
  "queued 0 m c = c"
  "cn_has_closed (queued n m c) = cn_has_closed c"
  "cn_write_queue (queued n m c) = cn_write_queue c @ replicate n m"
  by (simp_all add: queued_def)

lemma queued_Suc:
  assumes "response i data ty c = Some c'"
  shows "queued n (mk_msg i ty data) c' = queued (Suc n) (mk_msg i ty data) c"
  using assms response_Some [OF assms] by (auto simp: response_eq queued_def)

lemma fold_publish:
  assumes "length (pack_args_str_key_data mp Result_OK key data) < MAX_BUF_LEN"
  defines "m \<equiv> mk_msg 0 sub_pub (pack_args_str_key_data mp Result_OK key data)"
  shows "\<exists>s'. fold_opt (publish_to mp key data) rs s = Some s' \<and> s'\<lparr>sv_store := sv_store s\<rparr> = s \<and>
     (\<forall>r. sv_store s' r =
          map_option (\<lambda>c. if cn_has_closed c then c else queued (count_list rs r) m c) (sv_store s r))"
proof (induction rs arbitrary: s)
  case Nil
  have "map_option (\<lambda>c. if cn_has_closed c then c else queued (count_list [] r) m c) (sv_store s r) = sv_store s r" for r
    by (cases "sv_store s r") simp_all
  then show ?case by simp
next
  case (Cons r0 rs)
  show ?case
  proof (cases "\<exists>c. sv_store s r0 = Some c \<and> \<not> cn_has_closed c")
    case False
    then have "publish_to mp key data r0 s = Some s"
      by (auto simp: publish_to_def split: option.splits)
    moreover have "map_option (\<lambda>c. if cn_has_closed c then c else queued (count_list (r0 # rs) r) m c) (sv_store s r)
       = map_option (\<lambda>c. if cn_has_closed c then c else queued (count_list rs r) m c) (sv_store s r)" for r
      using False by (cases "sv_store s r") auto
    ultimately show ?thesis using Cons.IH [of s] by simp
  next
    case True
    then obtain c where c: "sv_store s r0 = Some c" "\<not> cn_has_closed c" by blast
    obtain c' where c': "response 0 (pack_args_str_key_data mp Result_OK key data) sub_pub c = Some c'"
      using assms(1) by (simp add: response_eq)
    then have p: "publish_to mp key data r0 s = Some (sv_put r0 c' s)"
      using c by (simp add: publish_to_def cn_publish_def)
    obtain s' where s': "fold_opt (publish_to mp key data) rs (sv_put r0 c' s) = Some s'"
      "s'\<lparr>sv_store := sv_store (sv_put r0 c' s)\<rparr> = sv_put r0 c' s"
      and q: "\<And>r. sv_store s' r =
          map_option (\<lambda>c. if cn_has_closed c then c else queued (count_list rs r) m c) (sv_store (sv_put r0 c' s) r)"
      using Cons.IH [of "sv_put r0 c' s"] by blast
    have "s'\<lparr>sv_store := sv_store s\<rparr> = s"
      using arg_cong [OF s'(2), of "\<lambda>t. t\<lparr>sv_store := sv_store s\<rparr>"] by (simp add: sv_put_def)
    moreover have "sv_store s' r =
          map_option (\<lambda>c. if cn_has_closed c then c else queued (count_list (r0 # rs) r) m c) (sv_store s r)" for r
      unfolding q using c response_simps(3) [OF c'] queued_Suc [OF c'] m_def
      by (cases "r = r0"; cases "sv_store s r") (simp_all add: sv_put_def split: if_split)
    ultimately show ?thesis using p s'(1) by simp
  qed
qed

lemma clean_subs_spec:
  "fst (clean_subs closed subs tokens) = filter (\<lambda>(k, r). \<not> closed r) subs \<and>
   set (snd (clean_subs closed subs tokens)) =
     {t \<in> set tokens. \<forall>x\<in>set subs. closed (snd x) \<longrightarrow> \<not> sublist t (fst x)}"
proof (induction closed subs tokens rule: clean_subs.induct)
  case (2 closed key conn subs tokens)
  obtain subs' tokens' where "clean_subs closed subs tokens = (subs', tokens')" by fastforce
  then show ?case using 2 by (cases "closed conn") auto
qed simp

text \<open>A stuck connection (see \<open>cn_stuck\<close>) stays stuck and registered.\<close>

definition sv_stuck :: "server \<Rightarrow> nat \<Rightarrow> int \<Rightarrow> bool" where
  "sv_stuck s r i \<longleftrightarrow> (\<exists>c. sv_store s r = Some c \<and> cn_stuck c) \<and> (i, r) \<in> set (sv_connections s)"

lemma sv_stuck_put:
  "sv_stuck s r i \<Longrightarrow> r' \<noteq> r \<or> cn_stuck c' \<Longrightarrow> sv_stuck (sv_put r' c' s) r i"
  by (auto simp: sv_stuck_def sv_put_def)

lemma sv_stuck_frame:
  "sv_stuck s r i \<Longrightarrow> sv_store s' = sv_store s \<Longrightarrow> sv_connections s' = sv_connections s \<Longrightarrow> sv_stuck s' r i"
  by (simp add: sv_stuck_def)

lemma sv_stuck_publish_to:
  assumes "sv_stuck s r i" and "publish_to mp key data r' s = Some s'"
  shows "sv_stuck s' r i"
  using assms(2)
proof (rule publish_to_cases)
  fix c c'
  assume c: "sv_store s r' = Some c" "s' = sv_put r' c' s"
    "response 0 (pack_args_str_key_data mp Result_OK key data) sub_pub c = Some c'"
  have "r' = r \<Longrightarrow> cn_stuck c'"
    using assms(1) c(1) cn_alive_response(2) [OF c(3)] by (simp add: sv_stuck_def)
  then show ?thesis
    using assms(1) c(2) by (auto intro: sv_stuck_put)
qed (use assms in simp)

lemma sv_stuck_step:
  assumes "sv_step mp router s e s'" and "sv_ok s" and "sv_stuck s r i"
    and "\<forall>ec. e \<noteq> On_connection r (E_write (Some ec))"
  shows "sv_stuck s' r i"
  using assms
proof (induction rule: sv_step.induct)
  case (accept s ec)
  then have r: "r \<in> snd ` set (sv_connections s)"
    by (force simp: sv_stuck_def)
  have "sv_conn s \<notin> snd ` set (sv_connections s)" and b: "\<forall>r c. sv_store s r = Some c \<longrightarrow> r < sv_next_ref s"
    using accept(1) unfolding sv_ok_def by blast+
  then have "r \<noteq> sv_conn s" using r by blast
  have "r < sv_next_ref s"
    using accept(2) b unfolding sv_stuck_def by blast
  then have "sv_stuck (do_accept t) r i" if "sv_stuck t r i" "sv_next_ref t = sv_next_ref s" for t
    using that by (force simp: sv_stuck_def do_accept_simps)
  moreover have "sv_stuck (sv_put (sv_conn s) c s\<lparr>sv_connections := sv_connections s @ xs, sv_conn_id := k\<rparr>) r i"
    for c xs k
    using accept(2) \<open>r \<noteq> sv_conn s\<close> by (simp add: sv_stuck_def sv_put_def)
  ultimately show ?case
    using accept(2) by (auto simp: on_accept_def Let_def sv_put_def split: option.splits)
next
  case (on_connection s r' c e out c')
  then have "r' = r \<Longrightarrow> cn_stuck c'"
    using cn_stuck_step [OF on_connection.hyps(3)] by (auto simp: sv_stuck_def)
  then have "sv_stuck (sv_put r' c' s) r i"
    using on_connection.prems(2) by (auto intro: sv_stuck_put)
  then show ?case by (rule sv_stuck_frame) simp_all
next
  case (publish key token data s s')
  then show ?case
    by (auto simp: sv_publish_def Let_def sv_stuck_publish_to split: if_splits
        elim: fold_opt_invariant [where P = "\<lambda>s. sv_stuck s r i"])
next
  case (clean s s' ids)
  then show ?case by (auto simp: clean_def sv_stuck_def sv_closed_def cn_stuck_def)
next
  case (clean_sub_pub s)
  then show ?case by (auto simp: clean_sub_pub_def sv_stuck_def split: prod.splits)
next
  case (destroy s r')
  then have "r' \<noteq> r" by (force simp: owned_def sv_stuck_def)
  then show ?case using destroy.prems by (simp add: sv_stuck_def)
qed

lemma sv_stuck_run:
  assumes "sv_run mp router s es s'" and "sv_ok s" and "sv_stuck s r i"
    and "\<forall>ec. On_connection r (E_write (Some ec)) \<notin> set es"
  shows "sv_stuck s' r i"
  using assms by (induction rule: sv_run.induct) (auto dest: sv_stuck_step sv_ok_step)

subsection \<open>An example\<close>

text \<open>A server with two event loops that has accepted two connections, the objects 0 and 1.\<close>

definition demo_sv0 :: server where
  "demo_sv0 = projr (new_server 2 5)"

definition demo_sv :: server where
  "demo_sv = on_accept None (on_accept None demo_sv0)"

lemma demo_sv0: "new_server 2 5 = Inr demo_sv0"
  by (simp add: demo_sv0_def new_server_def new_io_service_pool_def Let_def split: prod.splits)

lemma demo_sv0_simps:
  "sv_store demo_sv0 = [0 \<mapsto> new_connection 5]" "sv_conn demo_sv0 = 0" "sv_next_ref demo_sv0 = 1"
  "sv_connections demo_sv0 = []" "sv_conn_id demo_sv0 = 0" "sv_acceptor_open demo_sv0"
  "sv_timeout_seconds demo_sv0 = 5" "\<not> sv_net_err_callback demo_sv0" "sv_sub_map demo_sv0 = []"
  "sv_token_list demo_sv0 = []"
  by (auto simp: demo_sv0_def new_server_def new_io_service_pool_def Let_def do_accept_def
      split: prod.splits)

lemma demo_sv_simps:
  "sv_store demo_sv = [0 \<mapsto> demo_start, 1 \<mapsto> set_conn_id 1 demo_start, 2 \<mapsto> new_connection 5]"
  "sv_connections demo_sv = [(0, 0), (1, 1)]" "sv_sub_map demo_sv = []" "sv_token_list demo_sv = []"
  "sv_conn demo_sv = 2"
  by (auto simp: demo_sv_def demo_sv0_simps on_accept_def do_accept_def Let_def sv_put_def
      set_conn_id_def cn_ops new_connection_def fun_eq_iff split: prod.splits)

lemma demo_sv_ok: "sv_ok demo_sv"
  unfolding demo_sv_def by (intro sv_ok_on_accept sv_ok_new [OF demo_sv0])

subsection \<open>Properties\<close>

text \<open>The event loops are handed out in turn: the first \<open>k\<close> calls on a new pool give the loops
  \<open>0, 1, 2, \<dots>\<close> modulo the size of the pool, so no two loops differ by more than one connection; a pool
  of size zero cannot be made.\<close>

theorem io_service_round_robin:
  "new_io_service_pool 0 = Inl (Exn_other (bytes_of ''io_service_pool size is 0'')) \<and>
   (\<exists>p. new_io_service_pool (Suc n) = Inr p \<and>
        io_services_taken k p = map (\<lambda>i. i mod Suc n) [0..<k])"
  using io_services_taken_from [of _ "Suc n" 0 k] by (simp add: new_io_service_pool_def)

text \<open>C19. What the server knows after any sequence of accepts, completions on any connection, publications
  and cleaning passes: the ids of the registered connections are distinct and below the counter, each
  belongs to a different object that carries it, and every connection that was accepted and is not
  closed is registered.\<close>

theorem sv_invariant:
  assumes "new_server pool_size timeout = Inr s0" and "sv_run mp router s0 es s"
  shows "distinct (map fst (sv_connections s)) \<and> distinct (map snd (sv_connections s)) \<and>
     (\<forall>i r. (i, r) \<in> set (sv_connections s) \<longrightarrow>
        0 \<le> i \<and> i < sv_conn_id s \<and> map_option cn_conn_id (sv_store s r) = Some i) \<and>
     (\<forall>r c. sv_store s r = Some c \<and> \<not> cn_has_closed c \<and> r \<noteq> sv_conn s \<longrightarrow>
        (cn_conn_id c, r) \<in> set (sv_connections s))"
proof -
  have ok: "sv_ok s" using assms by (blast intro: sv_ok_run sv_ok_new)
  show ?thesis
    using ok sv_registered [OF ok] unfolding sv_ok_def by (intro conjI) blast+
qed

theorem sv_invariant_witness:
  "\<exists>s. sv_run demo_msgpack new_router demo_sv0 [Accept None, Accept (Some (Ec_other 1)), Clean []] s \<and>
     distinct (map fst (sv_connections s)) \<and> distinct (map snd (sv_connections s))"
proof -
  let ?s = "fst (clean (on_accept (Some (Ec_other 1)) (on_accept None demo_sv0)))"
  have "clean (on_accept (Some (Ec_other 1)) (on_accept None demo_sv0)) = (?s, [])"
    by (auto simp: clean_def sv_closed_def demo_sv0_simps on_accept_def do_accept_def Let_def sv_put_def
        set_conn_id_def cn_ops new_connection_def split: prod.splits)
  note c = this
  have r: "sv_run demo_msgpack new_router demo_sv0 [Accept None, Accept (Some (Ec_other 1)), Clean []] ?s"
    by (rule sv_run.cons [OF sv_step.accept sv_run.cons [OF sv_step.accept
            sv_run.cons [OF sv_step.clean [OF c] sv_run.nil]]])
  show ?thesis using sv_invariant [OF demo_sv0 r] r by blast
qed

lemma sv_publish_eq:
  "sv_publish mp key token data s = fold_opt (publish_to mp (key @ token) (get_shared_data mp data))
     (map snd (filter (\<lambda>(k, conn). k = key @ token) (sv_sub_map s))) s"
  by (simp add: sv_publish_def Let_def)

text \<open>C12. A publication reaches the subscribers of its composite key and nobody else: every open connection
  gets the message once for each of its subscriptions whose key and token joined equal the joined key
  and token of the publication, behind what it had to send already, and starts to write it when it had
  nothing to send; nothing else of any connection changes (\<open>queued\<close> has the fields), closed connections
  are passed over, and nothing else of the server changes.\<close>

theorem sv_publish_exact:
  assumes "length (pack_args_str_key_data mp Result_OK (key @ token) (get_shared_data mp data)) < MAX_BUF_LEN"
    and "m = mk_msg 0 sub_pub (pack_args_str_key_data mp Result_OK (key @ token) (get_shared_data mp data))"
    and "n = (\<lambda>r. count_list (map snd (filter (\<lambda>(k, conn). k = key @ token) (sv_sub_map s))) r)"
  shows "\<exists>s'. sv_publish mp key token data s = Some s' \<and> s'\<lparr>sv_store := sv_store s\<rparr> = s \<and>
     (\<forall>r. sv_store s' r = map_option (\<lambda>c. if cn_has_closed c then c else queued (n r) m c) (sv_store s r))"
  unfolding sv_publish_eq assms(2,3) by (rule fold_publish [OF assms(1)])

theorem sv_publish_exact_witness:
  "\<exists>s'. sv_publish demo_msgpack [107] [] (Inl [1, 2]) (sv_subscribe [107] [] 1 demo_sv) = Some s' \<and>
     map_option cn_write_queue (sv_store s' 1) = Some [mk_msg 0 sub_pub [0, 1, 107, 0, 1, 2]] \<and>
     map_option (length \<circ> cn_writes) (sv_store s' 1) = Some 1 \<and>
     sv_store s' 0 = sv_store demo_sv 0"
proof -
  let ?s = "sv_subscribe [107] [] 1 demo_sv"
  let ?pub = "pack_args_str_key_data demo_msgpack Result_OK ([107] @ []) (get_shared_data demo_msgpack (Inl [1, 2]))"
  have pub: "?pub = [0, 1, 107, 0, 1, 2]"
    by (simp add: pack_args_str_key_data_def demo_msgpack_def demo_code_def get_shared_data_def result_code_value_def)
  then have "length ?pub < MAX_BUF_LEN" by (simp add: MAX_BUF_LEN_def)
  from sv_publish_exact [OF this refl refl, of ?s] obtain s' where
    s': "sv_publish demo_msgpack [107] [] (Inl [1, 2]) ?s = Some s'"
    and q: "\<And>r. sv_store s' r = map_option (\<lambda>c. if cn_has_closed c then c
          else queued (count_list (map snd (filter (\<lambda>(k, conn). k = [107] @ []) (sv_sub_map ?s))) r) (mk_msg 0 sub_pub ?pub) c)
        (sv_store ?s r)" by blast
  have "map_option cn_write_queue (sv_store s' 1) = Some [mk_msg 0 sub_pub [0, 1, 107, 0, 1, 2]]"
    and "map_option (length \<circ> cn_writes) (sv_store s' 1) = Some 1" and "sv_store s' 0 = sv_store demo_sv 0"
    unfolding q pub
    by (simp_all add: demo_sv_simps sv_subscribe_def set_conn_id_def queued_def new_connection_def cn_ops)
  then show ?thesis using s' by blast
qed

text \<open>A cleaning pass removes exactly the closed connections and reports each of their ids once; the
  connections that stay are open.\<close>

theorem clean_exact:
  assumes "sv_ok s" and "sv_conn_timeout_callback s"
  shows "distinct (snd (clean s)) \<and>
     set (snd (clean s)) = {i. \<exists>r c. (i, r) \<in> set (sv_connections s) \<and> sv_store s r = Some c \<and> cn_has_closed c} \<and>
     set (sv_connections (fst (clean s)))
       = {(i, r). (i, r) \<in> set (sv_connections s) \<and> (\<exists>c. sv_store s r = Some c \<and> \<not> cn_has_closed c)}"
proof -
  have c: "\<exists>c. sv_store s r = Some c \<and> cn_conn_id c = i" if "(i, r) \<in> set (sv_connections s)" for i r
  proof -
    have "map_option cn_conn_id (sv_store s r) = Some i" using assms that unfolding sv_ok_def by blast
    then show ?thesis by auto
  qed
  have ids: "snd (clean s) = map fst (filter (\<lambda>(i, r). sv_closed s r) (sv_connections s))"
    unfolding clean_def using c assms(2) by (fastforce intro!: map_cong split: option.splits)
  have "distinct (map fst (sv_connections s))" using assms by (simp add: sv_ok_def)
  then have "distinct (snd (clean s))" by (simp add: ids distinct_map_filter)
  moreover have "set (snd (clean s)) = {i. \<exists>r c. (i, r) \<in> set (sv_connections s) \<and> sv_store s r = Some c \<and> cn_has_closed c}"
    unfolding ids using c by (force simp: sv_closed_def split: option.splits)
  moreover have "set (sv_connections (fst (clean s)))
       = {(i, r). (i, r) \<in> set (sv_connections s) \<and> (\<exists>c. sv_store s r = Some c \<and> \<not> cn_has_closed c)}"
    using c by (fastforce simp: clean_def sv_closed_def split: option.splits)
  ultimately show ?thesis by blast
qed

theorem clean_exact_witness:
  "set (snd (clean (set_conn_timeout_callback (sv_put 0 (cn_close demo_start) demo_sv)))) = {0}"
proof -
  have "sv_ok (sv_put 0 (cn_close demo_start) demo_sv)"
    by (rule sv_ok_put [OF demo_sv_ok, of 0 demo_start]) (simp_all add: demo_sv_simps)
  then have "sv_ok (set_conn_timeout_callback (sv_put 0 (cn_close demo_start) demo_sv))"
    by (rule sv_ok_frame) (simp_all add: set_conn_timeout_callback_def)
  from clean_exact [OF this] show ?thesis
    by (auto simp: sv_put_def demo_sv_simps set_conn_id_def set_conn_timeout_callback_def)
qed

lemma clean_sub_pub_eq:
  "sv_sub_map (clean_sub_pub s) = filter (\<lambda>(k, r). \<not> sv_closed s r) (sv_sub_map s) \<and>
   set (get_token_list (clean_sub_pub s)) =
     {t \<in> set (get_token_list s). \<forall>x\<in>set (sv_sub_map s). sv_closed s (snd x) \<longrightarrow> \<not> sublist t (fst x)} \<and>
   sv_store (clean_sub_pub s) = sv_store s \<and> sv_connections (clean_sub_pub s) = sv_connections s"
  using clean_subs_spec [of "sv_closed s" "sv_sub_map s" "sv_token_list s"]
  by (auto simp: clean_sub_pub_def get_token_list_def split: prod.splits)

text \<open>C32. A pass over the subscriptions keeps exactly those of open connections, in their order, and drops
  every token that occurs inside the composite key of a subscription it removes.\<close>

theorem clean_sub_pub_exact:
  "sv_sub_map (clean_sub_pub s) = filter (\<lambda>(k, r). \<not> sv_closed s r) (sv_sub_map s) \<and>
   set (get_token_list (clean_sub_pub s)) =
     {t \<in> set (get_token_list s). \<forall>x\<in>set (sv_sub_map s). sv_closed s (snd x) \<longrightarrow> \<not> sublist t (fst x)} \<and>
   sv_store (clean_sub_pub s) = sv_store s \<and> sv_connections (clean_sub_pub s) = sv_connections s"
  by (rule clean_sub_pub_eq)

theorem clean_sub_pub_exact_witness:
  "let s = sv_put 0 (cn_close demo_start) (sv_subscribe [107] [116] 1 (sv_subscribe [97, 98] [] 0 demo_sv));
       s' = clean_sub_pub s
   in sv_sub_map s' = [([107, 116], 1)] \<and> set (get_token_list s') = {[116]}"
proof -
  let ?s = "sv_put 0 (cn_close demo_start) (sv_subscribe [107] [116] 1 (sv_subscribe [97, 98] [] 0 demo_sv))"
  have "sv_closed ?s 0" and "\<not> sv_closed ?s 1"
    by (simp_all add: sv_closed_def sv_put_def sv_subscribe_def demo_sv_simps set_conn_id_def)
  moreover have "sv_sub_map ?s = [([97, 98], 0), ([107, 116], 1)]" and "get_token_list ?s = [[116]]"
    by (simp_all add: sv_put_def sv_subscribe_def demo_sv_simps get_token_list_def Let_def)
  moreover have "\<not> sublist [116 :: u8] [97, 98]"
    by (simp add: sublist_code)
  ultimately show ?thesis
    using clean_sub_pub_exact [of ?s] by (auto simp: Let_def)
qed

text \<open>C33. A token vanishes although a connection still listens to it: when the composite key of a closed
  subscription contains a token, the cleaning pass removes the token from the list, also when an open
  connection is subscribed to some key with this token; that subscription stays, and what is published
  under its key and token is still queued for the connection, once for each of its subscriptions.\<close>

theorem live_token_lost:
  assumes "(k, r0) \<in> set (sv_sub_map s)" and "sv_closed s r0" and "sublist token k"
    and "(key @ token, r) \<in> set (sv_sub_map s)" and "sv_store s r = Some c" and "\<not> cn_has_closed c"
    and "length (pack_args_str_key_data mp Result_OK (key @ token) (get_shared_data mp data)) < MAX_BUF_LEN"
    and "m = mk_msg 0 sub_pub (pack_args_str_key_data mp Result_OK (key @ token) (get_shared_data mp data))"
  shows "token \<notin> set (get_token_list (clean_sub_pub s)) \<and> (key @ token, r) \<in> set (sv_sub_map (clean_sub_pub s)) \<and>
     (\<exists>s' n. sv_publish mp key token data (clean_sub_pub s) = Some s' \<and> 0 < n \<and> sv_store s' r = Some (queued n m c) \<and>
        n = count_list (map snd (filter (\<lambda>(k, conn). k = key @ token) (sv_sub_map s))) r)"
proof -
  let ?n = "\<lambda>s. count_list (map snd (filter (\<lambda>(k, conn). k = key @ token) (sv_sub_map s))) r"
  have subs: "sv_sub_map (clean_sub_pub s) = filter (\<lambda>(k, r). \<not> sv_closed s r) (sv_sub_map s)"
    and tokens: "set (get_token_list (clean_sub_pub s)) =
       {t \<in> set (get_token_list s). \<forall>x\<in>set (sv_sub_map s). sv_closed s (snd x) \<longrightarrow> \<not> sublist t (fst x)}"
    and store: "sv_store (clean_sub_pub s) = sv_store s"
    using clean_sub_pub_eq [of s] by simp_all
  have open_r: "\<not> sv_closed s r" using assms(5,6) by (simp add: sv_closed_def)
  have "(k = key @ token \<and> \<not> sv_closed s r') \<and> r' = r \<longleftrightarrow> k = key @ token \<and> r' = r" for k r'
    using open_r by blast
  then have same: "?n (clean_sub_pub s) = ?n s"
    unfolding subs filter_filter count_list_eq_length_filter filter_map
    by (simp add: comp_def case_prod_beta conj_commute cong: conj_cong) (metis (no_types, lifting))
  have "r \<in> set (map snd (filter (\<lambda>(k, conn). k = key @ token) (sv_sub_map s)))" using assms(4) by force
  then have pos: "0 < ?n s" using count_list_0_iff by (metis gr0I)
  have "\<exists>s'. sv_publish mp key token data (clean_sub_pub s) = Some s' \<and> sv_store s' r = Some (queued (?n s) m c)"
    using fold_publish [OF assms(7), of "map snd (filter (\<lambda>(k, conn). k = key @ token) (sv_sub_map (clean_sub_pub s)))" "clean_sub_pub s"]
    unfolding sv_publish_eq same [symmetric] assms(8) store by (auto simp: assms(5,6))
  moreover have "token \<notin> set (get_token_list (clean_sub_pub s))" using assms(1-3) unfolding tokens by force
  moreover have "(key @ token, r) \<in> set (sv_sub_map (clean_sub_pub s))" using assms(4) open_r unfolding subs by simp
  ultimately show ?thesis using pos by blast
qed

text \<open>Two clients subscribe to the same key and token, and the first of them goes away.\<close>

theorem live_token_lost_witness:
  "let s = sv_put 0 (cn_close demo_start) (sv_subscribe [107] [116] 1 (sv_subscribe [107] [116] 0 demo_sv))
   in [116] \<in> set (get_token_list s) \<and> [116] \<notin> set (get_token_list (clean_sub_pub s)) \<and>
      (\<exists>s'. sv_publish demo_msgpack [107] [116] (Inl [1]) (clean_sub_pub s) = Some s' \<and>
         map_option cn_write_queue (sv_store s' 1) = Some [mk_msg 0 sub_pub [0, 1, 107, 1, 116, 0, 1]])"
proof -
  define t where "t = sv_put 0 (cn_close demo_start) (sv_subscribe [107] [116] 1 (sv_subscribe [107] [116] 0 demo_sv))"
  let ?pub = "pack_args_str_key_data demo_msgpack Result_OK ([107] @ [116]) (get_shared_data demo_msgpack (Inl [1]))"
  have pub: "?pub = [0, 1, 107, 1, 116, 0, 1]"
    by (simp add: pack_args_str_key_data_def demo_msgpack_def demo_code_def get_shared_data_def result_code_value_def)
  then have len: "length ?pub < MAX_BUF_LEN" by (simp add: MAX_BUF_LEN_def)
  have subs: "sv_sub_map t = [([107, 116], 0), ([107, 116], 1)]" and tokens: "[116] \<in> set (get_token_list t)"
    and closed: "sv_closed t 0" and store: "\<exists>c. sv_store t 1 = Some c \<and> \<not> cn_has_closed c \<and> cn_write_queue c = []"
    by (simp_all add: t_def sv_closed_def sv_put_def sv_subscribe_def demo_sv_simps Let_def get_token_list_def set_conn_id_def
        new_connection_def cn_ops)
  obtain c where c: "sv_store t 1 = Some c" "\<not> cn_has_closed c" "cn_write_queue c = []" using store by blast
  have "([107, 116], 0) \<in> set (sv_sub_map t)" "sublist [116 :: u8] [107, 116]" "([107] @ [116], 1) \<in> set (sv_sub_map t)"
    unfolding subs by (simp_all add: sublist_code)
  from live_token_lost [OF this(1) closed this(2,3) c(1,2) len refl]
  obtain s' where "sv_publish demo_msgpack [107] [116] (Inl [1]) (clean_sub_pub t) = Some s'"
    and "sv_store s' 1 = Some (queued 1 (mk_msg 0 sub_pub [0, 1, 107, 1, 116, 0, 1]) c)"
    and "[116] \<notin> set (get_token_list (clean_sub_pub t))"
    unfolding pub by (auto simp: subs)
  then show ?thesis using c(3) tokens unfolding t_def [symmetric] Let_def by auto
qed

text \<open>C31. A client that goes away in the middle of a body is never forgotten: after the failed read its
  connection stays open and registered through every further accept, publication and cleaning pass,
  and nothing is read from it any more, unless a write on it fails.\<close>

theorem half_read_connection_leaks:
  assumes "sv_ok s" and "sv_store s r = Some c" and "r \<noteq> sv_conn s" and "cn_ok c" and "\<not> cn_has_closed c"
    and "cn_step mp router r c (E_body (Some ec) data) out c'"
    and "sv_run mp router (fold (deliver r) out (sv_put r c' s)) es s'"
    and "\<forall>ec. On_connection r (E_write (Some ec)) \<notin> set es"
  shows "(cn_conn_id c, r) \<in> set (sv_connections s') \<and>
         (\<exists>c''. sv_store s' r = Some c'' \<and> \<not> cn_has_closed c'' \<and> cn_reads c'' = [])"
proof -
  let ?s = "fold (deliver r) out (sv_put r c' s)"
  have stuck: "cn_stuck c'" using cn_body_error_stuck [OF assms(6,4,5)] .
  have "(cn_conn_id c, r) \<in> set (sv_connections s)"
    using assms by (blast intro: sv_registered)
  then have "sv_stuck ?s r (cn_conn_id c)"
    using stuck by (simp add: sv_stuck_def sv_put_def)
  moreover have "sv_ok ?s"
  proof -
    have "sv_ok (sv_put r c' s)"
      using cn_step_keeps [OF assms(6)] assms(1,2) by (auto intro: sv_ok_put)
    then show ?thesis by (rule sv_ok_frame) simp_all
  qed
  ultimately have "sv_stuck s' r (cn_conn_id c)"
    using assms(7,8) by (blast intro: sv_stuck_run)
  then show ?thesis by (auto simp: sv_stuck_def cn_stuck_def)
qed

theorem half_read_connection_leaks_witness:
  "\<exists>c1 c2 s'. cn_step demo_msgpack new_router 0 c1 (E_body (Some (Ec_other 2)) [5]) [] c2 \<and>
     s' = fst (clean (sv_put 0 c2 (sv_put 0 c1 demo_sv))) \<and>
     (cn_conn_id c1, 0) \<in> set (sv_connections s')"
proof -
  obtain c1 c2 where 1: "cn_step demo_msgpack new_router 0 demo_start (E_head None (encode_header 0 0 demo_head)) [] c1"
    and 2: "cn_step demo_msgpack new_router 0 c1 (E_body (Some (Ec_other 2)) [5]) [] c2"
    and c: "\<not> cn_has_closed c1"
    by (rule demo_steps)
  let ?s = "sv_put 0 c1 demo_sv"
  have ok: "sv_ok ?s"
    using cn_step_keeps [OF 1] by (intro sv_ok_put [OF demo_sv_ok, of 0 demo_start]) (simp_all add: demo_sv_simps)
  have store: "sv_store ?s 0 = Some c1" and conn: "0 \<noteq> sv_conn ?s"
    by (simp_all add: sv_put_def demo_sv_simps)
  have "sv_run demo_msgpack new_router (fold (deliver 0) [] (sv_put 0 c2 ?s)) [Clean (snd (clean (sv_put 0 c2 ?s)))]
      (fst (clean (sv_put 0 c2 ?s)))"
    by (auto intro!: sv_run.intros sv_step.clean)
  from half_read_connection_leaks [OF ok store conn cn_ok_step [OF 1 cn_ok_new] c 2 this]
  have "(cn_conn_id c1, 0) \<in> set (sv_connections (fst (clean (sv_put 0 c2 ?s))))" by simp
  then show ?thesis using 2 by blast
qed

end
