(* ===== verification/Client.thy ===== *)
theory Client
  imports Connection "HOL-Library.List_Lexorder" "HOL-Library.Product_Lexorder"
begin

section \<open>The client (\<open>include/rest_rpc/rpc_client.hpp\<close>)\<close>

text \<open>
  The class \<open>rpc_client\<close>: pending calls answered through futures or callbacks, the outbox, the reading
  loop, subscriptions, the heartbeat and reconnecting. As for the server's connections, a member
  function is a function on the state, a completion handler is a function of what asio delivers, and
  the operations that asio still has to complete are fields of the state. The states of the
  \<open>std::future\<close>s are in \<open>cl_futures\<close>, by the id of the call; a promise that is destroyed unset leaves its
  future broken. Callbacks of the user are outputs; what they do with the client are later steps. The
  hash maps are lists in the order of insertion. The host is an address that asio can parse, and the
  code is built without SSL.
\<close>

subsection \<open>State\<close>

datatype client_language = Lang_CPP | Lang_JAVA

datatype future_state = Fs_none | Fs_pending | Fs_ready req_result | Fs_broken

record call_t =
  ca_timeout :: nat
  ca_has_timeout :: bool
  ca_timer :: bool

record client_message_type =
  cm_req_id :: u64
  cm_req_type :: request_type
  cm_content :: bytes
  cm_func_id :: u32

datatype cl_read_op = Cl_read_head | Cl_read_body u64 request_type nat

record client =
  cl_socket_open :: bool
  cl_host :: bytes
  cl_port :: nat
  cl_connect_timeout :: nat
  cl_reconnect_cnt :: int
  cl_has_connected :: bool
  cl_has_wait :: bool
  cl_outbox :: "client_message_type list"
  cl_write_size :: u32
  cl_fu_id :: u64
  cl_err_cb :: bool
  cl_enable_reconnect :: bool
  cl_future_map :: "u64 list"
  cl_futures :: "u64 \<Rightarrow> future_state"
  cl_callback_map :: "(u64 \<times> call_t) list"
  cl_callback_id :: u64
  cl_temp_req_id :: u64
  cl_body :: bytes
  cl_header :: rpc_header
  cl_sub_map :: "bytes list"
  cl_key_token_set :: "(bytes \<times> bytes) list"
  cl_language :: client_language
  cl_reads :: "cl_read_op list"
  cl_writes :: "(rpc_header \<times> bytes) list"
  cl_connects :: nat
  cl_deadline :: "(nat \<times> bool) list"
  cl_thd :: bool
  cl_ios_stopped :: bool

datatype cl_output =
    Callback u64 error_code bytes
  | Error_callback asio_error
  | Sub_data bytes bytes
  | Java_result u64 bytes
  | Notify_connected

type_synonym cl_result = "(client \<times> cl_output list) option"

definition DEFAULT_TIMEOUT :: nat where
  "DEFAULT_TIMEOUT = 5000"

definition new_client :: "client_language \<Rightarrow> bytes \<Rightarrow> nat \<Rightarrow> client" where
  "new_client client_language host port =
     \<lparr>cl_socket_open = False, cl_host = host, cl_port = port, cl_connect_timeout = 1000,
      cl_reconnect_cnt = - 1, cl_has_connected = False, cl_has_wait = False, cl_outbox = [],
      cl_write_size = 0, cl_fu_id = 0, cl_err_cb = False, cl_enable_reconnect = False,
      cl_future_map = [], cl_futures = (\<lambda>_. Fs_none), cl_callback_map = [], cl_callback_id = 0,
      cl_temp_req_id = 0, cl_body = replicate INIT_BUF_SIZE 0,
      cl_header = \<lparr>hd_magic = 0, hd_req_type = 0, hd_body_len = 0, hd_req_id = 0, hd_func_id = 0\<rparr>,
      cl_sub_map = [], cl_key_token_set = [], cl_language = client_language, cl_reads = [],
      cl_writes = [], cl_connects = 0, cl_deadline = [],
      cl_thd = True, cl_ios_stopped = False\<rparr>"

text \<open>The constructors without an address; the port stays 0 until \<open>connect\<close> sets it.\<close>

definition default_client :: client where
  "default_client = new_client Lang_CPP [] 0"

definition new_client_language :: "client_language \<Rightarrow> client" where
  "new_client_language client_language = new_client client_language [] 0"

definition set_connect_timeout :: "nat \<Rightarrow> client \<Rightarrow> client" where
  "set_connect_timeout milliseconds s = s\<lparr>cl_connect_timeout := milliseconds\<rparr>"

definition set_reconnect_count :: "int \<Rightarrow> client \<Rightarrow> client" where
  "set_reconnect_count reconnect_count s = s\<lparr>cl_reconnect_cnt := reconnect_count\<rparr>"

definition enable_auto_reconnect :: "bool \<Rightarrow> client \<Rightarrow> client" where
  "enable_auto_reconnect enable s = s\<lparr>cl_enable_reconnect := enable, cl_reconnect_cnt := INT_MAX\<rparr>"

definition update_addr :: "bytes \<Rightarrow> nat \<Rightarrow> client \<Rightarrow> client" where
  "update_addr host port s = s\<lparr>cl_host := host, cl_port := port\<rparr>"

definition set_error_callback :: "client \<Rightarrow> client" where
  "set_error_callback s = s\<lparr>cl_err_cb := True\<rparr>"

subsection \<open>\<open>call_t\<close>\<close>

definition start_timer :: "call_t \<Rightarrow> call_t" where
  "start_timer c = (if ca_timeout c = 0 then c else c\<lparr>ca_timer := True\<rparr>)"

definition call_on_timer :: "error_code \<Rightarrow> call_t \<Rightarrow> call_t" where
  "call_on_timer ec c = (if ec \<noteq> None then c else c\<lparr>ca_has_timeout := True\<rparr>)"

subsection \<open>Starting operations\<close>

definition cl_async_read_head :: "client \<Rightarrow> client" where
  "cl_async_read_head s = s\<lparr>cl_reads := cl_reads s @ [Cl_read_head]\<rparr>"

definition cl_async_read :: "u64 \<Rightarrow> request_type \<Rightarrow> nat \<Rightarrow> client \<Rightarrow> client" where
  "cl_async_read req_id req_type size_to_read s =
     s\<lparr>cl_reads := cl_reads s @ [Cl_read_body req_id req_type size_to_read]\<rparr>"

definition cl_async_write :: "rpc_header \<times> bytes \<Rightarrow> client \<Rightarrow> client" where
  "cl_async_write buffers s = s\<lparr>cl_writes := cl_writes s @ [buffers]\<rparr>"

definition do_read :: "client \<Rightarrow> client" where
  "do_read s = cl_async_read_head s"

subsection \<open>The outbox\<close>

definition cl_write :: "client \<Rightarrow> client" where
  "cl_write s =
     (let msg = cl_outbox s ! 0;
          s = s\<lparr>cl_write_size := of_nat (length (cm_content msg))\<rparr>;
          s = s\<lparr>cl_header := \<lparr>hd_magic = MAGIC_NUM, hd_req_type = cm_req_type msg,
                   hd_body_len = cl_write_size s, hd_req_id = cm_req_id msg, hd_func_id = cm_func_id msg\<rparr>\<rparr>
      in cl_async_write (cl_header s, take (unat (cl_write_size s)) (cm_content msg)) s)"

definition cl_write_msg :: "u64 \<Rightarrow> request_type \<Rightarrow> bytes \<Rightarrow> u32 \<Rightarrow> client \<Rightarrow> client option" where
  "cl_write_msg req_id req_type message func_id s =
     (if length message < MAX_BUF_LEN
      then let s = s\<lparr>cl_outbox := cl_outbox s @
                      [\<lparr>cm_req_id = req_id, cm_req_type = req_type, cm_content = message,
                        cm_func_id = func_id\<rparr>]\<rparr>
           in Some (if length (cl_outbox s) > 1 then s else cl_write s)
      else None)"

subsection \<open>Closing and reconnecting\<close>

definition clear_cache :: "client \<Rightarrow> client" where
  "clear_cache s =
     s\<lparr>cl_outbox := [], cl_callback_map := [],
       cl_futures := (\<lambda>i. if i \<in> set (cl_future_map s) then Fs_broken else cl_futures s i),
       cl_future_map := []\<rparr>"

definition cl_close :: "client \<Rightarrow> client" where
  "cl_close s =
     (if \<not> cl_has_connected s then s
      else clear_cache (s\<lparr>cl_has_connected := False, cl_socket_open := False\<rparr>))"

text \<open>\<open>stop\<close> ends the event loop, after which nothing completes any more; the destructor closes first.\<close>

definition cl_stop :: "client \<Rightarrow> client" where
  "cl_stop s = (if cl_thd s then s\<lparr>cl_ios_stopped := True, cl_thd := False\<rparr> else s)"

definition destroy_client :: "client \<Rightarrow> client" where
  "destroy_client s = cl_stop (cl_close s)"

definition has_connected :: "client \<Rightarrow> bool" where
  "has_connected s = cl_has_connected s"

definition reqest_id :: "client \<Rightarrow> u64" where
  "reqest_id s = cl_temp_req_id s"

definition reset_socket :: "client \<Rightarrow> client" where
  "reset_socket s = s\<lparr>cl_socket_open := True\<rparr>"

definition async_connect :: "client \<Rightarrow> client option" where
  "async_connect s = (if cl_port s \<noteq> 0 then Some (s\<lparr>cl_socket_open := True, cl_connects := cl_connects s + 1\<rparr>) else None)"

definition async_connect_to :: "bytes \<Rightarrow> nat \<Rightarrow> client \<Rightarrow> client option" where
  "async_connect_to host port s =
     async_connect (if cl_port s = 0 then s\<lparr>cl_host := host, cl_port := port\<rparr> else s)"

definition async_reconnect :: "client \<Rightarrow> client option" where
  "async_reconnect s = async_connect (reset_socket s)"

definition error_callback :: "asio_error \<Rightarrow> client \<Rightarrow> cl_result" where
  "error_callback ec s =
     (let out = (if cl_err_cb s then [Error_callback ec] else [])
      in if cl_enable_reconnect s then map_option (\<lambda>s. (s, out)) (async_reconnect s) else Some (s, out))"

text \<open>\<open>wait_conn\<close> up to the wait, and after it; the result is \<open>has_connected_\<close>.\<close>

definition wait_conn_begin :: "client \<Rightarrow> client" where
  "wait_conn_begin s = (if cl_has_connected s then s else s\<lparr>cl_has_wait := True\<rparr>)"

definition wait_conn_end :: "client \<Rightarrow> client \<times> bool" where
  "wait_conn_end s = (s\<lparr>cl_has_wait := False\<rparr>, cl_has_connected s)"

text \<open>\<open>connect\<close> up to the wait. With \<open>is_ssl\<close> the call to \<open>upgrade_to_ssl\<close> fails its assertion.\<close>

definition upgrade_to_ssl :: "client \<Rightarrow> client option" where
  "upgrade_to_ssl s = (if is_ssl then Some s else None)"

definition connect :: "bool \<Rightarrow> client \<Rightarrow> client option" where
  "connect use_ssl s =
     (if cl_has_connected s then Some s
      else if cl_port s = 0 then None
      else do {
        s \<leftarrow> (if use_ssl then upgrade_to_ssl s else Some s);
        s \<leftarrow> async_connect s;
        Some (wait_conn_begin s)
      })"

definition connect_to :: "bytes \<Rightarrow> nat \<Rightarrow> bool \<Rightarrow> client \<Rightarrow> client option" where
  "connect_to host port use_ssl s =
     connect use_ssl (if cl_port s = 0 then s\<lparr>cl_host := host, cl_port := port\<rparr> else s)"

subsection \<open>Calls\<close>

text \<open>The template \<open>async_call\<close> for futures, with the arguments already packed.\<close>

definition async_call_packed :: "bytes \<Rightarrow> bytes \<Rightarrow> client \<Rightarrow> (client \<times> u64) option" where
  "async_call_packed rpc_name ret s =
     (let s = s\<lparr>cl_fu_id := cl_fu_id s + 1\<rparr>;
          fu_id = cl_fu_id s;
          s = s\<lparr>cl_future_map := List.insert fu_id (cl_future_map s),
                cl_futures := (cl_futures s)(fu_id := Fs_pending)\<rparr>
      in map_option (\<lambda>s. (s, fu_id)) (cl_write_msg fu_id req_res ret (md5_hash32 rpc_name) s))"

definition async_call :: "('a, 'r) msgpack \<Rightarrow> bytes \<Rightarrow> 'a \<Rightarrow> client \<Rightarrow> (client \<times> u64) option" where
  "async_call mp rpc_name args s = async_call_packed rpc_name (mp_pack_args mp args) s"

definition internal_async_call :: "bytes \<Rightarrow> client \<Rightarrow> (client \<times> u64) option" where
  "internal_async_call encoded_func_name_and_args s =
     (let s = s\<lparr>cl_fu_id := cl_fu_id s + 1\<rparr>;
          fu_id = cl_fu_id s
      in map_option (\<lambda>s. (s, fu_id))
           (cl_write_msg fu_id req_res encoded_func_name_and_args (md5_hash32 encoded_func_name_and_args) s))"

definition not_connected :: bytes where
  "not_connected = bytes_of ''not connected''"

text \<open>With a callback. The id of a call that is refused is not assigned; it is 0 in the output.\<close>

definition async_call_cb :: "('a, 'r) msgpack \<Rightarrow> nat \<Rightarrow> bytes \<Rightarrow> 'a \<Rightarrow> client \<Rightarrow> cl_result" where
  "async_call_cb mp TIMEOUT rpc_name args s =
     (if \<not> cl_has_connected s then Some (s, [Callback 0 (Some Ec_not_connected) not_connected])
      else
        let s = s\<lparr>cl_callback_id := cl_callback_id s + 1\<rparr>;
            s = s\<lparr>cl_callback_id := cl_callback_id s OR push_bit 63 1\<rparr>;
            cb_id = cl_callback_id s;
            call = start_timer \<lparr>ca_timeout = TIMEOUT, ca_has_timeout = False, ca_timer = False\<rparr>;
            s = (if cb_id \<in> fst ` set (cl_callback_map s) then s
                 else s\<lparr>cl_callback_map := cl_callback_map s @ [(cb_id, call)]\<rparr>);
            ret = mp_pack_args mp args
        in map_option (\<lambda>s. (s, [])) (cl_write_msg cb_id req_res ret (md5_hash32 rpc_name) s))"

text \<open>What the synchronous \<open>call\<close> returns when its wait ends: the state of the future then decides. A
  broken promise makes \<open>get\<close> throw.\<close>

definition timeout_or_deferred :: bytes where
  "timeout_or_deferred = bytes_of ''timeout or deferred''"

definition broken_promise :: bytes where
  "broken_promise = bytes_of ''broken promise''"

definition future_get :: "future_state \<Rightarrow> exn + req_result" where
  "future_get f =
     (case f of
        Fs_ready r \<Rightarrow> Inr r
      | Fs_broken \<Rightarrow> Inl (Exn_other broken_promise)
      | _ \<Rightarrow> Inl (Exn_out_of_range timeout_or_deferred))"

definition call_result :: "('a, 'r) msgpack \<Rightarrow> future_state \<Rightarrow> exn + 'r" where
  "call_result mp f = (case future_get f of Inl e \<Rightarrow> Inl e | Inr r \<Rightarrow> rr_as mp r)"

definition call_result_void :: "('a, 'r) msgpack \<Rightarrow> future_state \<Rightarrow> exn + unit" where
  "call_result_void mp f = (case future_get f of Inl e \<Rightarrow> Inl e | Inr r \<Rightarrow> rr_as_void mp r)"

subsection \<open>Subscriptions\<close>

definition send_subscribe :: "('a, 'r) msgpack \<Rightarrow> bytes \<Rightarrow> bytes \<Rightarrow> client \<Rightarrow> client option" where
  "send_subscribe mp key token s =
     cl_write_msg 0 sub_pub (mp_pack_key_token mp key token) (md5_hash32 key) s"

fun send_subscribes :: "('a, 'r) msgpack \<Rightarrow> (bytes \<times> bytes) list \<Rightarrow> client \<Rightarrow> client option" where
  "send_subscribes mp [] s = Some s"
| "send_subscribes mp ((key, token) # ps) s =
     Option.bind (send_subscribe mp key token s) (send_subscribes mp ps)"

definition resend_subscribe :: "('a, 'r) msgpack \<Rightarrow> client \<Rightarrow> client option" where
  "resend_subscribe mp s =
     (if cl_key_token_set s = [] then Some s else send_subscribes mp (cl_key_token_set s) s)"

definition subscribe_token :: "('a, 'r) msgpack \<Rightarrow> bytes \<Rightarrow> bytes \<Rightarrow> client \<Rightarrow> client option" where
  "subscribe_token mp key token s =
     (let composite_key = key @ token
      in if composite_key \<in> set (cl_sub_map s) then Some s
         else do {
           s \<leftarrow> send_subscribe mp key token (s\<lparr>cl_sub_map := cl_sub_map s @ [composite_key]\<rparr>);
           Some (s\<lparr>cl_key_token_set := insort_insert (key, token) (cl_key_token_set s)\<rparr>)
         })"

definition subscribe :: "('a, 'r) msgpack \<Rightarrow> bytes \<Rightarrow> client \<Rightarrow> client option" where
  "subscribe mp key s =
     (if key \<in> set (cl_sub_map s) then Some s
      else do {
        s \<leftarrow> send_subscribe mp key [] (s\<lparr>cl_sub_map := cl_sub_map s @ [key]\<rparr>);
        Some (s\<lparr>cl_key_token_set := insort_insert (key, []) (cl_key_token_set s)\<rparr>)
      })"

text \<open>\<open>publish\<close> and \<open>publish_by_token\<close> up to the wait of at most three milliseconds for the answer.\<close>

definition cl_publish :: "('a, 'r) msgpack \<Rightarrow> bytes \<Rightarrow> 'r \<Rightarrow> client \<Rightarrow> (client \<times> u64) option" where
  "cl_publish mp key t s =
     async_call_packed (bytes_of ''publish'') (mp_pack_key_token_data mp key [] (mp_pack_value mp t)) s"

definition cl_publish_by_token :: "('a, 'r) msgpack \<Rightarrow> bytes \<Rightarrow> bytes \<Rightarrow> 'r \<Rightarrow> client \<Rightarrow> (client \<times> u64) option" where
  "cl_publish_by_token mp key token t s =
     async_call_packed (bytes_of ''publish_by_token'') (mp_pack_key_token_data mp key token (mp_pack_value mp t)) s"

subsection \<open>Heartbeat\<close>

text \<open>The waits of \<open>deadline_\<close> that have not called their handler, each with its time and whether it was
  cancelled; \<open>expires_from_now\<close> cancels those that are pending.\<close>

definition cancel_deadline :: "client \<Rightarrow> client" where
  "cancel_deadline s = s\<lparr>cl_deadline := map (\<lambda>(t, c). (t, True)) (cl_deadline s)\<rparr>"

definition reset_deadline_timer :: "nat \<Rightarrow> client \<Rightarrow> client" where
  "reset_deadline_timer timeout s =
     (let s = cancel_deadline s in s\<lparr>cl_deadline := cl_deadline s @ [(timeout, False)]\<rparr>)"

definition enable_auto_heartbeat :: "bool \<Rightarrow> client \<Rightarrow> client" where
  "enable_auto_heartbeat enable s = (if enable then reset_deadline_timer 5 s else cancel_deadline s)"

text \<open>The handler of the wait: \<open>cancelled\<close> says that it gets an error code.\<close>

definition on_deadline :: "bool \<Rightarrow> nat \<Rightarrow> client \<Rightarrow> client option" where
  "on_deadline cancelled timeout s =
     do {
       s \<leftarrow> (if \<not> cancelled \<and> cl_has_connected s then cl_write_msg 0 req_res [] 0 s else Some s);
       Some (reset_deadline_timer timeout s)
     }"

subsection \<open>Completion handlers\<close>

definition cl_on_connect :: "('a, 'r) msgpack \<Rightarrow> error_code \<Rightarrow> client \<Rightarrow> cl_result" where
  "cl_on_connect mp ec s =
     (if cl_has_connected s then Some (s, [])
      else case ec of
             Some e \<Rightarrow>
               let s = s\<lparr>cl_has_connected := False\<rparr>
               in if cl_reconnect_cnt s \<le> 0 then Some (s, [])
                  else let s = (if cl_reconnect_cnt s > 0
                                then s\<lparr>cl_reconnect_cnt := cl_reconnect_cnt s - 1\<rparr> else s)
                       in map_option (\<lambda>s. (s, [])) (async_reconnect s)
           | None \<Rightarrow>
               do {
                 let s = do_read (s\<lparr>cl_has_connected := True\<rparr>);
                 s \<leftarrow> resend_subscribe mp s;
                 Some (s, if cl_has_wait s then [Notify_connected] else [])
               })"

definition cl_on_write :: "error_code \<Rightarrow> client \<Rightarrow> cl_result" where
  "cl_on_write ec s =
     (case ec of
        Some e \<Rightarrow> error_callback e (cl_close (s\<lparr>cl_has_connected := False\<rparr>))
      | None \<Rightarrow>
          if cl_outbox s = [] then Some (s, [])
          else let s = s\<lparr>cl_outbox := tl (cl_outbox s)\<rparr>
               in Some (if cl_outbox s \<noteq> [] then cl_write s else s, []))"

definition call_back :: "u64 \<Rightarrow> error_code \<Rightarrow> bytes \<Rightarrow> client \<Rightarrow> cl_result" where
  "call_back req_id ec data s =
     (if cl_language s = Lang_JAVA then Some (s, [Java_result req_id data])
      else
        let s = s\<lparr>cl_temp_req_id := req_id\<rparr>;
            cb_flag = drop_bit 63 req_id
        in if cb_flag \<noteq> 0
           then (case map_of (cl_callback_map s) req_id of
                   None \<Rightarrow> None
                 | Some cl \<Rightarrow>
                     Some (s\<lparr>cl_callback_map := filter (\<lambda>x. fst x \<noteq> req_id) (cl_callback_map s)\<rparr>,
                           [if \<not> ca_has_timeout cl then Callback req_id ec data
                            else Callback req_id (Some Ec_timed_out) []]))
           else if req_id \<in> set (cl_future_map s)
           then Some (s\<lparr>cl_futures := (cl_futures s)(req_id :=
                            Fs_ready \<lparr>rr_data = (if ec \<noteq> None then [] else data)\<rparr>),
                        cl_future_map := removeAll req_id (cl_future_map s)\<rparr>, [])
           else None)"

definition callback_sub :: "('a, 'r) msgpack \<Rightarrow> bytes \<Rightarrow> client \<Rightarrow> cl_result" where
  "callback_sub mp result s =
     (case codec_unpack (mp_unpack_code_key_data mp) result of
        Inl ex \<Rightarrow> error_callback Ec_invalid_argument s
      | Inr (code, key, data) \<Rightarrow>
          Some (s, if key \<in> set (cl_sub_map s) then [Sub_data key data] else []))"

definition cl_on_read_head :: "error_code \<Rightarrow> bytes \<Rightarrow> client \<Rightarrow> cl_result" where
  "cl_on_read_head ec head s =
     (if \<not> cl_socket_open s then Some (s\<lparr>cl_has_connected := False\<rparr>, [])
      else case ec of
             None \<Rightarrow>
               let header = decode_header head;
                   body_len = hd_body_len header
               in if 0 < body_len \<and> unat body_len < MAX_BUF_LEN
                  then let s = (if length (cl_body s) < unat body_len
                                then s\<lparr>cl_body := resize (unat body_len) 0 (cl_body s)\<rparr> else s)
                       in Some (cl_async_read (hd_req_id header) (hd_req_type header) (unat body_len) s, [])
                  else if body_len = 0 \<or> unat body_len > MAX_BUF_LEN
                  then error_callback Ec_message_size (cl_close s)
                  else Some (s, [])
           | Some e \<Rightarrow>
               let out = map (\<lambda>item. Callback (fst item) ec []) (cl_callback_map s)
               in map_option (\<lambda>(s, out'). (s, out @ out')) (error_callback e (cl_close s)))"

definition cl_on_read_body ::
    "('a, 'r) msgpack \<Rightarrow> u64 \<Rightarrow> request_type \<Rightarrow> nat \<Rightarrow> error_code \<Rightarrow> client \<Rightarrow> cl_result" where
  "cl_on_read_body mp req_id req_type body_len ec s =
     (if \<not> cl_socket_open s then call_back req_id (Some Ec_connection_aborted) [] s
      else case ec of
             None \<Rightarrow>
               if req_type = req_res
               then map_option (\<lambda>(s, out). (do_read s, out)) (call_back req_id ec (take body_len (cl_body s)) s)
               else if req_type = sub_pub
               then map_option (\<lambda>(s, out). (do_read s, out)) (callback_sub mp (take body_len (cl_body s)) s)
               else error_callback Ec_invalid_argument (cl_close s)
           | Some e \<Rightarrow>
               do {
                 let s = s\<lparr>cl_has_connected := False\<rparr>;
                 (s, out) \<leftarrow> call_back req_id ec [] s;
                 (s, out') \<leftarrow> error_callback e (cl_close s);
                 Some (s, out @ out')
               })"

subsection \<open>Steps\<close>

text \<open>What the user of the client does, and what completes.\<close>

datatype 'a cl_event =
    Ev_call bytes 'a
  | Ev_call_packed bytes bytes
  | Ev_call_raw bytes
  | Ev_call_cb nat bytes 'a
  | Ev_subscribe bytes bytes
  | Ev_connect
  | Ev_close
  | Ev_heartbeat bool
  | Ev_connected error_code
  | Ev_head error_code bytes
  | Ev_body error_code bytes
  | Ev_written error_code
  | Ev_call_timer u64
  | Ev_deadline nat

inductive cl_step :: "('a, 'r) msgpack \<Rightarrow> client \<Rightarrow> 'a cl_event \<Rightarrow> cl_output list \<Rightarrow> client \<Rightarrow> bool"
  for mp where
  call: "async_call mp rpc_name args s = Some (s', i) \<Longrightarrow> cl_step mp s (Ev_call rpc_name args) [] s'"
| call_packed: "async_call_packed rpc_name ret s = Some (s', i) \<Longrightarrow> cl_step mp s (Ev_call_packed rpc_name ret) [] s'"
| call_raw: "internal_async_call enc s = Some (s', i) \<Longrightarrow> cl_step mp s (Ev_call_raw enc) [] s'"
| call_cb: "async_call_cb mp TIMEOUT rpc_name args s = Some (s', out) \<Longrightarrow>
    cl_step mp s (Ev_call_cb TIMEOUT rpc_name args) out s'"
| subscribe: "subscribe_token mp key token s = Some s' \<Longrightarrow> cl_step mp s (Ev_subscribe key token) [] s'"
| connect: "connect False s = Some s' \<Longrightarrow> cl_step mp s Ev_connect [] s'"
| close: "cl_step mp s Ev_close [] (cl_close s)"
| heartbeat: "cl_step mp s (Ev_heartbeat b) [] (enable_auto_heartbeat b s)"
| connected: "cl_connects s = Suc n \<Longrightarrow> cl_on_connect mp ec (s\<lparr>cl_connects := n\<rparr>) = Some (s', out) \<Longrightarrow>
    cl_step mp s (Ev_connected ec) out s'"
| head: "cl_reads s = Cl_read_head # rest \<Longrightarrow> length head \<le> HEAD_LEN \<Longrightarrow> ec = None \<longrightarrow> length head = HEAD_LEN \<Longrightarrow>
    cl_on_read_head ec head (s\<lparr>cl_reads := rest\<rparr>) = Some (s', out) \<Longrightarrow> cl_step mp s (Ev_head ec head) out s'"
| body: "cl_reads s = Cl_read_body req_id req_type n # rest \<Longrightarrow> length data \<le> n \<Longrightarrow> ec = None \<longrightarrow> length data = n \<Longrightarrow>
    cl_on_read_body mp req_id req_type n ec
      (s\<lparr>cl_reads := rest, cl_body := data @ drop (length data) (cl_body s)\<rparr>) = Some (s', out) \<Longrightarrow>
    cl_step mp s (Ev_body ec data) out s'"
| written: "cl_writes s = w # rest \<Longrightarrow> cl_on_write ec (s\<lparr>cl_writes := rest\<rparr>) = Some (s', out) \<Longrightarrow>
    cl_step mp s (Ev_written ec) out s'"
| call_timer: "map_of (cl_callback_map s) i = Some c \<Longrightarrow> ca_timer c \<Longrightarrow>
    cl_step mp s (Ev_call_timer i) []
      (s\<lparr>cl_callback_map := map (\<lambda>(k, c). (k, if k = i then call_on_timer None (c\<lparr>ca_timer := False\<rparr>) else c))
           (cl_callback_map s)\<rparr>)"
| deadline: "j < length (cl_deadline s) \<Longrightarrow> cl_deadline s ! j = (timeout, cancelled) \<Longrightarrow>
    on_deadline cancelled timeout
      (s\<lparr>cl_deadline := take j (cl_deadline s) @ drop (Suc j) (cl_deadline s)\<rparr>) = Some s' \<Longrightarrow>
    cl_step mp s (Ev_deadline j) [] s'"

inductive cl_run :: "('a, 'r) msgpack \<Rightarrow> client \<Rightarrow> ('a cl_event \<times> cl_output list) list \<Rightarrow> client \<Rightarrow> bool"
  for mp where
  nil: "cl_run mp s [] s"
| cons: "cl_step mp s e out s' \<Longrightarrow> cl_run mp s' es s'' \<Longrightarrow> cl_run mp s ((e, out) # es) s''"

inductive_cases cl_run_NilE [elim!]: "cl_run mp s [] s'"

inductive_simps cl_step_head: "cl_step mp s (Ev_head ec head) out s'"
inductive_simps cl_step_body: "cl_step mp s (Ev_body ec data) out s'"
inductive_simps cl_step_written: "cl_step mp s (Ev_written ec) out s'"
inductive_simps cl_step_call: "cl_step mp s (Ev_call rpc_name args) out s'"
inductive_simps cl_step_connected: "cl_step mp s (Ev_connected ec) out s'"

end
