(* ===== verification/Client_Calls.thy ===== *)
theory Client_Calls
  imports Client
begin

section \<open>Calls, answers and the outbox of the client\<close>

text \<open>
  The lemmas and properties of \<^verbatim>\<open>Client\<close>: the outbox satisfies the contract \<open>send_queue\<close>; the ids of
  futures and callbacks never meet; a future is pending exactly while its promise is in the map; an
  answer resolves its own call; and the situations in which the client loses calls or stops sending.
\<close>

subsection \<open>The outbox\<close>

definition cl_frame :: "client_message_type \<Rightarrow> rpc_header \<times> bytes" where
  "cl_frame m =
     (\<lparr>hd_magic = MAGIC_NUM, hd_req_type = cm_req_type m, hd_body_len = of_nat (length (cm_content m)),
       hd_req_id = cm_req_id m, hd_func_id = cm_func_id m\<rparr>, cm_content m)"

definition cl_msg_of_frame :: "rpc_header \<times> bytes \<Rightarrow> client_message_type" where
  "cl_msg_of_frame f = \<lparr>cm_req_id = hd_req_id (fst f), cm_req_type = hd_req_type (fst f),
     cm_content = snd f, cm_func_id = hd_func_id (fst f)\<rparr>"

lemma msg_of_cl_frame [simp]: "cl_msg_of_frame (cl_frame m) = m"
  by (simp add: cl_msg_of_frame_def cl_frame_def)

abbreviation cl_mk_msg :: "u64 \<Rightarrow> request_type \<Rightarrow> bytes \<Rightarrow> u32 \<Rightarrow> client_message_type" where
  "cl_mk_msg req_id req_type message func_id \<equiv>
     \<lparr>cm_req_id = req_id, cm_req_type = req_type, cm_content = message, cm_func_id = func_id\<rparr>"

lemma cl_write_eq:
  assumes "cl_outbox s = m # q" and "length (cm_content m) < MAX_BUF_LEN"
  shows "cl_write s = s\<lparr>cl_write_size := of_nat (length (cm_content m)), cl_header := fst (cl_frame m),
           cl_writes := cl_writes s @ [cl_frame m]\<rparr>"
  using assms by (simp add: cl_write_def Let_def cl_async_write_def cl_frame_def frame_len)

lemma cl_write_msg_eq:
  assumes "length message < MAX_BUF_LEN"
  shows "cl_write_msg req_id req_type message func_id s =
     Some (if cl_outbox s = []
           then s\<lparr>cl_outbox := [cl_mk_msg req_id req_type message func_id],
                  cl_write_size := of_nat (length message),
                  cl_header := fst (cl_frame (cl_mk_msg req_id req_type message func_id)),
                  cl_writes := cl_writes s @ [cl_frame (cl_mk_msg req_id req_type message func_id)]\<rparr>
           else s\<lparr>cl_outbox := cl_outbox s @ [cl_mk_msg req_id req_type message func_id]\<rparr>)"
  using assms by (cases "cl_outbox s") (simp_all add: cl_write_msg_def Let_def cl_write_eq)

lemma cl_write_msg_Some:
  "cl_write_msg req_id req_type message func_id s = Some s' \<Longrightarrow> length message < MAX_BUF_LEN"
  by (auto simp: cl_write_msg_def split: if_splits)

text \<open>Everything but the outbox and the pending write is left alone.\<close>

lemma cl_write_msg_cases:
  assumes "cl_write_msg req_id req_type message func_id s = Some s'"
  obtains w z h where
    "s' = s\<lparr>cl_outbox := cl_outbox s @ [cl_mk_msg req_id req_type message func_id], cl_writes := w,
            cl_write_size := z, cl_header := h\<rparr>"
    "cl_outbox s \<noteq> [] \<Longrightarrow> w = cl_writes s"
proof -
  have len: "length message < MAX_BUF_LEN" using assms by (rule cl_write_msg_Some)
  show thesis
  proof (cases "cl_outbox s = []")
    case True
    then have "s' = s\<lparr>cl_outbox := cl_outbox s @ [cl_mk_msg req_id req_type message func_id],
        cl_writes := cl_writes s @ [cl_frame (cl_mk_msg req_id req_type message func_id)],
        cl_write_size := of_nat (length message),
        cl_header := fst (cl_frame (cl_mk_msg req_id req_type message func_id))\<rparr>"
      using assms by (auto simp: cl_write_msg_eq [OF len])
    then show thesis using that True by blast
  next
    case False
    then have "s' = s\<lparr>cl_outbox := cl_outbox s @ [cl_mk_msg req_id req_type message func_id],
        cl_writes := cl_writes s, cl_write_size := cl_write_size s, cl_header := cl_header s\<rparr>"
      using assms by (auto simp: cl_write_msg_eq [OF len])
    then show thesis using that by blast
  qed
qed

subsection \<open>The contract of the outbox\<close>

abbreviation cl_writing :: "client \<Rightarrow> client_message_type list" where
  "cl_writing s \<equiv> map cl_msg_of_frame (cl_writes s)"

definition cl_send :: "client_message_type \<Rightarrow> client \<Rightarrow> client" where
  "cl_send m s = the (cl_write_msg (cm_req_id m) (cm_req_type m) (cm_content m) (cm_func_id m) s)"

definition cl_sent :: "client \<Rightarrow> client" where
  "cl_sent s = fst (the (cl_on_write None (s\<lparr>cl_writes := tl (cl_writes s)\<rparr>)))"

abbreviation cl_up :: "client \<Rightarrow> bool" where
  "cl_up s \<equiv> \<forall>m\<in>set (cl_outbox s). length (cm_content m) < MAX_BUF_LEN"

lemma cl_send_eq:
  assumes "length (cm_content m) < MAX_BUF_LEN"
  shows "cl_send m s =
     (if cl_outbox s = []
      then s\<lparr>cl_outbox := [m], cl_write_size := of_nat (length (cm_content m)),
             cl_header := fst (cl_frame m), cl_writes := cl_writes s @ [cl_frame m]\<rparr>
      else s\<lparr>cl_outbox := cl_outbox s @ [m]\<rparr>)"
  using assms by (cases m) (simp add: cl_send_def cl_write_msg_eq)

lemma cl_sent_eq:
  assumes "cl_up s" and "cl_outbox s \<noteq> []"
  shows "cl_sent s =
     (case tl (cl_outbox s) of
        [] \<Rightarrow> s\<lparr>cl_writes := tl (cl_writes s), cl_outbox := []\<rparr>
      | m # q \<Rightarrow> s\<lparr>cl_writes := tl (cl_writes s) @ [cl_frame m], cl_outbox := m # q,
                   cl_write_size := of_nat (length (cm_content m)), cl_header := fst (cl_frame m)\<rparr>)"
  using assms
  by (cases "cl_outbox s"; cases "tl (cl_outbox s)")
    (auto simp: cl_sent_def cl_on_write_def Let_def cl_write_eq)

interpretation clq: send_queue cl_outbox cl_writing cl_up
  "\<lambda>m. length (cm_content m) < MAX_BUF_LEN" cl_send cl_sent
  by unfold_locales
    (auto simp: cl_send_eq cl_sent_eq map_tl neq_Nil_conv split: list.splits dest: list.set_sel)

subsection \<open>Ids\<close>

text \<open>The top bit of an id tells callbacks from futures.\<close>

lemma bit_63: "bit (w :: u64) 63 \<longleftrightarrow> 2 ^ 63 \<le> unat w"
proof -
  have "bit w 63 \<longleftrightarrow> odd (unat w div 2 ^ 63)"
    using bit_unsigned_iff [of w 63, where 'a = nat] by (simp add: bit_iff_odd)
  moreover have "unat w div 2 ^ 63 = (if 2 ^ 63 \<le> unat w then 1 else 0)"
    using unat_u64_lt [of w] by (simp add: div_nat_eqI)
  ultimately show ?thesis by simp
qed

lemma bit_flag: "bit (push_bit 63 (1 :: u64)) n \<longleftrightarrow> n = 63"
  by (subst bit_push_bit_iff) (auto simp: bit_1_iff)

lemma unat_flag: "unat (w OR push_bit 63 1 :: u64) = (if unat w < 2 ^ 63 then unat w + 2 ^ 63 else unat w)"
proof (cases "unat w < 2 ^ 63")
  case True
  then have "\<not> bit w 63" by (simp add: bit_63)
  then have "w + push_bit 63 1 = w OR push_bit 63 1"
    by (intro disjunctive_add) (auto simp only: bit_flag)
  moreover have "unat (w + push_bit 63 1) = unat w + 2 ^ 63"
    using True by (simp add: unat_word_ariths(1))
  ultimately show ?thesis using True by metis
next
  case False
  then have "bit w 63" by (simp add: bit_63)
  then have "w OR push_bit 63 1 = w"
    by (intro bit_word_eqI) (auto simp only: bit_or_iff bit_flag)
  then show ?thesis using False by simp
qed

lemma drop_bit_63: "drop_bit 63 (w :: u64) \<noteq> 0 \<longleftrightarrow> 2 ^ 63 \<le> unat w"
proof -
  have "drop_bit 63 w = 0 \<longleftrightarrow> unat w div 2 ^ 63 = 0"
    by (simp only: unat_eq_0 [symmetric] unat_drop_bit_eq drop_bit_eq_div [of 63 "unat w"])
  then show ?thesis by auto
qed
definition cl_ids :: "nat \<Rightarrow> client \<Rightarrow> bool" where
  "cl_ids n s \<longleftrightarrow>
     unat (cl_fu_id s) \<le> n \<and>
     (\<forall>i\<in>set (cl_future_map s). unat i \<le> unat (cl_fu_id s)) \<and>
     (cl_callback_id s = 0 \<and> cl_callback_map s = [] \<or>
        2 ^ 63 < unat (cl_callback_id s) \<and> unat (cl_callback_id s) \<le> 2 ^ 63 + n) \<and>
     (\<forall>i\<in>fst ` set (cl_callback_map s). 2 ^ 63 < unat i \<and> unat i \<le> unat (cl_callback_id s)) \<and>
     distinct (map fst (cl_callback_map s))"

lemma cl_ids_mono: "cl_ids n s \<Longrightarrow> n \<le> m \<Longrightarrow> cl_ids m s"
  by (auto simp: cl_ids_def)

lemma cl_ids_frame:
  assumes "cl_ids n s" and "cl_fu_id s' = cl_fu_id s" and "set (cl_future_map s') \<subseteq> set (cl_future_map s)"
    and "cl_callback_id s' = cl_callback_id s" and "set (cl_callback_map s') \<subseteq> set (cl_callback_map s)"
    and "distinct (map fst (cl_callback_map s'))"
  shows "cl_ids n s'"
  using assms by (fastforce simp: cl_ids_def)

lemma unat_Suc_u64: "unat (w :: u64) < 2 ^ 64 - 1 \<Longrightarrow> unat (w + 1) = unat w + 1"
  by (simp add: unat_word_ariths(1))

lemma cl_ids_write_msg:
  assumes "cl_ids n s" and "cl_write_msg i t m f s = Some s'"
  shows "cl_ids n s'"
  using assms by (elim cl_write_msg_cases) (auto simp: cl_ids_def)

text \<open>The id of a new future and of a new callback is fresh.\<close>

lemma fresh_future:
  assumes "cl_ids n s" and "n < 2 ^ 63"
  shows "unat (cl_fu_id s + 1) = unat (cl_fu_id s) + 1" and "cl_fu_id s + 1 \<notin> set (cl_future_map s)"
proof -
  show u: "unat (cl_fu_id s + 1) = unat (cl_fu_id s) + 1"
    using assms by (intro unat_Suc_u64) (simp add: cl_ids_def)
  show "cl_fu_id s + 1 \<notin> set (cl_future_map s)"
    using assms(1) u unfolding cl_ids_def by fastforce
qed

lemma fresh_callback:
  assumes "cl_ids n s" and "n < 2 ^ 63 - 1"
  defines "i \<equiv> (cl_callback_id s + 1) OR push_bit 63 1"
  shows "unat i = (if cl_callback_id s = 0 then 2 ^ 63 + 1 else unat (cl_callback_id s) + 1)"
    and "i \<notin> fst ` set (cl_callback_map s)"
proof -
  show u: "unat i = (if cl_callback_id s = 0 then 2 ^ 63 + 1 else unat (cl_callback_id s) + 1)"
  proof (cases "cl_callback_id s = 0")
    case True
    then show ?thesis by (simp add: i_def unat_flag del: push_bit_of_1)
  next
    case False
    then have c: "2 ^ 63 < unat (cl_callback_id s)" "unat (cl_callback_id s) \<le> 2 ^ 63 + n"
      using assms(1) by (auto simp: cl_ids_def)
    then have "unat (cl_callback_id s + 1) = unat (cl_callback_id s) + 1"
      using assms(2) by (intro unat_Suc_u64) simp
    then show ?thesis using False c unfolding i_def unat_flag by simp
  qed
  show "i \<notin> fst ` set (cl_callback_map s)"
    using assms(1) u unfolding cl_ids_def by (fastforce split: if_splits)
qed

text \<open>What the operations leave unchanged or make smaller, for the invariants on pending calls.\<close>

definition cl_shrinks :: "client \<Rightarrow> client \<Rightarrow> bool" where
  "cl_shrinks s s' \<longleftrightarrow>
     cl_fu_id s' = cl_fu_id s \<and> set (cl_future_map s') \<subseteq> set (cl_future_map s) \<and>
     cl_callback_id s' = cl_callback_id s \<and> set (cl_callback_map s') \<subseteq> set (cl_callback_map s) \<and>
     (distinct (map fst (cl_callback_map s)) \<longrightarrow> distinct (map fst (cl_callback_map s'))) \<and>
     (\<forall>i. cl_futures s' i = Fs_pending \<longleftrightarrow> i \<in> set (cl_future_map s') \<and> cl_futures s i = Fs_pending \<or>
        i \<notin> set (cl_future_map s) \<and> cl_futures s i = Fs_pending)"

lemma cl_shrinks_refl [simp]: "cl_shrinks s s"
  by (auto simp: cl_shrinks_def)

lemma cl_shrinks_trans: "cl_shrinks s s' \<Longrightarrow> cl_shrinks s' s'' \<Longrightarrow> cl_shrinks s s''"
  unfolding cl_shrinks_def by (intro conjI) (simp, blast, simp, blast, blast, (simp, blast))

lemma cl_shrinks_same:
  assumes "cl_fu_id s' = cl_fu_id s" "cl_future_map s' = cl_future_map s"
    "cl_callback_id s' = cl_callback_id s" "cl_callback_map s' = cl_callback_map s" "cl_futures s' = cl_futures s"
  shows "cl_shrinks s s'"
  using assms by (auto simp: cl_shrinks_def)

lemma cl_shrinks_ids: "cl_shrinks s s' \<Longrightarrow> cl_ids n s \<Longrightarrow> cl_ids n s'"
  by (rule cl_ids_frame) (auto simp: cl_shrinks_def cl_ids_def)

lemma cl_shrinks_write_msg: "cl_write_msg i t m f s = Some s' \<Longrightarrow> cl_shrinks s s'"
  by (elim cl_write_msg_cases) (simp add: cl_shrinks_same)

lemma cl_write_same [simp]:
  "cl_fu_id (cl_write s) = cl_fu_id s" "cl_future_map (cl_write s) = cl_future_map s"
  "cl_callback_id (cl_write s) = cl_callback_id s" "cl_callback_map (cl_write s) = cl_callback_map s"
  "cl_futures (cl_write s) = cl_futures s" "cl_outbox (cl_write s) = cl_outbox s"
  "cl_reads (cl_write s) = cl_reads s" "cl_deadline (cl_write s) = cl_deadline s"
  by (simp_all add: cl_write_def Let_def cl_async_write_def)

lemma cl_shrinks_close [simp]: "cl_shrinks s (cl_close s)"
  by (auto simp: cl_shrinks_def cl_close_def clear_cache_def)

lemma cl_shrinks_error_callback: "error_callback e s = Some (s', out) \<Longrightarrow> cl_shrinks s s'"
  by (auto simp: error_callback_def async_reconnect_def async_connect_def reset_socket_def Let_def
      split: if_splits intro!: cl_shrinks_same)

lemma cl_shrinks_call_back: "call_back i ec data s = Some (s', out) \<Longrightarrow> cl_shrinks s s'"
  by (auto simp: call_back_def Let_def cl_shrinks_def distinct_map_filter split: if_splits option.splits)

lemma cl_shrinks_send_subscribes: "send_subscribes mp ps s = Some s' \<Longrightarrow> cl_shrinks s s'"
proof (induction mp ps s rule: send_subscribes.induct)
  case (2 mp key token ps s)
  then show ?case
    by (auto simp: send_subscribe_def bind_eq_Some_conv intro: cl_shrinks_trans cl_shrinks_write_msg)
qed simp

lemma cl_shrinks_async_read [simp]:
  "cl_shrinks s (cl_async_read i t n (s\<lparr>cl_body := b\<rparr>))" "cl_shrinks s (cl_async_read i t n s)"
  "cl_shrinks s (do_read s)"
  by (auto simp: cl_async_read_def do_read_def cl_async_read_head_def intro!: cl_shrinks_same)

lemma cl_shrinks_on_read_head:
  assumes "cl_on_read_head ec head s = Some (s', out)"
  shows "cl_shrinks s s'"
proof -
  have "cl_shrinks s s'" if "error_callback e (cl_close s) = Some (s', out')" for e out'
    using that cl_shrinks_error_callback cl_shrinks_close cl_shrinks_trans by blast
  moreover have "cl_shrinks s (s\<lparr>cl_has_connected := b\<rparr>)" for b
    by (simp add: cl_shrinks_same)
  ultimately show ?thesis
    using assms by (auto simp: cl_on_read_head_def Let_def split: if_splits option.splits)
qed

lemma cl_shrinks_on_read_body:
  assumes "cl_on_read_body mp i t n ec s = Some (s', out)"
  shows "cl_shrinks s s'"
proof -
  have close: "cl_shrinks t s'" if "error_callback e (cl_close t) = Some (s', out')" for t e out'
    using that cl_shrinks_error_callback cl_shrinks_close cl_shrinks_trans by blast
  have sub: "cl_shrinks s t" if "callback_sub mp d s = Some (t, out')" for d t out'
    using that cl_shrinks_error_callback by (auto simp: callback_sub_def split: sum.splits prod.splits)
  have disc: "cl_shrinks s (s\<lparr>cl_has_connected := False\<rparr>)"
    by (simp add: cl_shrinks_same)
  show ?thesis
    using assms
    by (auto simp: cl_on_read_body_def Let_def bind_eq_Some_conv split: if_splits option.splits
        dest: cl_shrinks_call_back sub close
        intro: cl_shrinks_trans cl_shrinks_async_read(3) cl_shrinks_trans [OF disc])
qed

lemma cl_shrinks_on_connect:
  assumes "cl_on_connect mp ec s = Some (s', out)"
  shows "cl_shrinks s s'"
proof -
  have "cl_shrinks s t" if "resend_subscribe mp (do_read (s\<lparr>cl_has_connected := True\<rparr>)) = Some t" for t
  proof -
    have "cl_shrinks s (do_read (s\<lparr>cl_has_connected := True\<rparr>))"
      by (auto simp: do_read_def cl_async_read_head_def intro!: cl_shrinks_same)
    moreover have "cl_shrinks (do_read (s\<lparr>cl_has_connected := True\<rparr>)) t"
      using that cl_shrinks_send_subscribes by (auto simp: resend_subscribe_def split: if_splits)
    ultimately show ?thesis by (rule cl_shrinks_trans)
  qed
  moreover have "cl_shrinks s t" if "async_reconnect (s\<lparr>cl_has_connected := b, cl_reconnect_cnt := k\<rparr>) = Some t" for b k t
    using that by (auto simp: async_reconnect_def async_connect_def reset_socket_def split: if_splits intro!: cl_shrinks_same)
  moreover have "cl_shrinks s (s\<lparr>cl_has_connected := b\<rparr>)" for b
    by (simp add: cl_shrinks_same)
  ultimately show ?thesis
    using assms
    by (auto simp: cl_on_connect_def Let_def bind_eq_Some_conv split: if_splits option.splits)
qed

lemma cl_shrinks_on_write:
  assumes "cl_on_write ec s = Some (s', out)"
  shows "cl_shrinks s s'"
proof -
  have "cl_shrinks s s'" if "error_callback e (cl_close (s\<lparr>cl_has_connected := False\<rparr>)) = Some (s', out')" for e out'
  proof -
    have "cl_close (s\<lparr>cl_has_connected := False\<rparr>) = s\<lparr>cl_has_connected := False\<rparr>"
      by (simp add: cl_close_def)
    then have "cl_shrinks (s\<lparr>cl_has_connected := False\<rparr>) s'"
      using that cl_shrinks_error_callback by metis
    moreover have "cl_shrinks s (s\<lparr>cl_has_connected := False\<rparr>)" by (simp add: cl_shrinks_same)
    ultimately show ?thesis by (rule cl_shrinks_trans [rotated])
  qed
  then show ?thesis
    using assms by (auto simp: cl_on_write_def Let_def split: option.splits if_splits intro!: cl_shrinks_same)
qed

lemma cl_shrinks_subscribe:
  "subscribe_token mp key token s = Some s' \<Longrightarrow> cl_shrinks s s'"
proof -
  assume a: "subscribe_token mp key token s = Some s'"
  have "cl_shrinks s (t\<lparr>cl_key_token_set := k\<rparr>)"
    if "cl_write_msg i ty m f (s\<lparr>cl_sub_map := u\<rparr>) = Some t" for t k i ty m f u
    using that by (elim cl_write_msg_cases) (simp add: cl_shrinks_same)
  then show ?thesis
    using a by (auto simp: subscribe_token_def Let_def bind_eq_Some_conv send_subscribe_def split: if_splits)
qed

lemma cl_shrinks_deadline:
  assumes "on_deadline c t s = Some s'"
  shows "cl_shrinks s s'"
proof -
  have "cl_shrinks s (reset_deadline_timer k t)" if "cl_write_msg i ty m f s = Some t" for i ty m f t k
    using that by (elim cl_write_msg_cases)
      (simp add: cl_shrinks_same reset_deadline_timer_def Let_def cancel_deadline_def)
  moreover have "cl_shrinks s (reset_deadline_timer k s)" for k
    by (simp add: cl_shrinks_same reset_deadline_timer_def Let_def cancel_deadline_def)
  ultimately show ?thesis
    using assms by (auto simp: on_deadline_def bind_eq_Some_conv split: if_splits)
qed

text \<open>One step: an invariant on the ids, with one more call allowed.\<close>

lemma cl_ids_call:
  assumes "async_call_packed name ret s = Some (s', i)" and "cl_ids n s" and "n < 2 ^ 63"
  shows "cl_ids (Suc n) s'" and "i = cl_fu_id s + 1" and "i \<notin> set (cl_future_map s)"
proof -
  note f = fresh_future [OF assms(2,3)]
  let ?s = "s\<lparr>cl_fu_id := cl_fu_id s + 1, cl_future_map := List.insert (cl_fu_id s + 1) (cl_future_map s),
      cl_futures := (cl_futures s)(cl_fu_id s + 1 := Fs_pending)\<rparr>"
  have "cl_ids (Suc n) ?s"
    using assms(2) f by (auto simp: cl_ids_def)
  then show "cl_ids (Suc n) s'"
    using assms(1) cl_ids_write_msg by (auto simp: async_call_packed_def Let_def)
  show "i = cl_fu_id s + 1" using assms(1) by (auto simp: async_call_packed_def Let_def)
  then show "i \<notin> set (cl_future_map s)" using f(2) by simp
qed

lemma cl_ids_call_raw:
  assumes "internal_async_call enc s = Some (s', i)" and "cl_ids n s" and "n < 2 ^ 63"
  shows "cl_ids (Suc n) s'"
proof -
  have "cl_ids (Suc n) (s\<lparr>cl_fu_id := cl_fu_id s + 1\<rparr>)"
    using assms(2) fresh_future(1) [OF assms(2,3)] by (auto simp: cl_ids_def)
  then show ?thesis
    using assms(1) cl_ids_write_msg by (auto simp: internal_async_call_def Let_def)
qed

lemma cl_ids_call_cb:
  assumes "async_call_cb mp TIMEOUT name args s = Some (s', out)" and "cl_ids n s" and "n < 2 ^ 63 - 1"
  shows "cl_ids (Suc n) s'"
proof (cases "cl_has_connected s")
  case False
  then show ?thesis using assms(1,2) cl_ids_mono [of n s "Suc n"] by (simp add: async_call_cb_def)
next
  case True
  let ?i = "(cl_callback_id s + 1) OR push_bit 63 1"
  note f = fresh_callback [OF assms(2,3)]
  have "cl_ids (Suc n) (s\<lparr>cl_callback_id := ?i, cl_callback_map := cl_callback_map s @ [(?i, c)]\<rparr>)" for c
    using assms(2) f unfolding cl_ids_def
    by (auto simp del: push_bit_of_1 push_bit_numeral split: if_splits)
  moreover have "\<exists>c. cl_write_msg ?i req_res (mp_pack_args mp args) (md5_hash32 name)
      (s\<lparr>cl_callback_id := ?i, cl_callback_map := cl_callback_map s @ [(?i, c)]\<rparr>) = Some s'"
    using assms(1) True f(2) by (auto simp: async_call_cb_def Let_def simp del: push_bit_of_1)
  ultimately show ?thesis by (blast intro: cl_ids_write_msg)
qed

text \<open>The kinds of steps.\<close>

lemma cl_step_kinds:
  assumes "cl_step mp s e out s'"
  obtains (shrinks) "cl_shrinks s s'"
    | (call) name ret i where "async_call_packed name ret s = Some (s', i)"
    | (raw) enc i where "internal_async_call enc s = Some (s', i)"
    | (cb) TIMEOUT name args where "async_call_cb mp TIMEOUT name args s = Some (s', out)"
    | (timer) f where "s' = s\<lparr>cl_callback_map := map (\<lambda>(k, c). (k, f k c)) (cl_callback_map s)\<rparr>"
proof -
  have frame: "cl_shrinks s s'" if "cl_shrinks t s'" and "cl_fu_id t = cl_fu_id s" "cl_future_map t = cl_future_map s"
    "cl_callback_id t = cl_callback_id s" "cl_callback_map t = cl_callback_map s" "cl_futures t = cl_futures s" for t
    using that by (simp add: cl_shrinks_def)
  from assms show thesis
  proof (cases rule: cl_step.cases)
    case call
    then show ?thesis using that(2) by (simp add: async_call_def)
  next
    case subscribe
    then show ?thesis using that(1) cl_shrinks_subscribe by blast
  next
    case connect
    then show ?thesis
      by (intro that(1)) (auto simp: connect_def async_connect_def wait_conn_begin_def bind_eq_Some_conv
          split: if_splits intro!: cl_shrinks_same)
  next
    case close
    then show ?thesis using that(1) by simp
  next
    case heartbeat
    then show ?thesis
      by (intro that(1)) (auto simp: enable_auto_heartbeat_def reset_deadline_timer_def cancel_deadline_def Let_def
          intro!: cl_shrinks_same)
  next
    case connected
    show ?thesis using frame [OF cl_shrinks_on_connect [OF connected(3)]] that(1) by simp
  next
    case head
    show ?thesis using frame [OF cl_shrinks_on_read_head [OF head(5)]] that(1) by simp
  next
    case body
    show ?thesis using frame [OF cl_shrinks_on_read_body [OF body(5)]] that(1) by simp
  next
    case written
    show ?thesis using frame [OF cl_shrinks_on_write [OF written(3)]] that(1) by simp
  next
    case (call_timer i c)
    show ?thesis by (rule that(5)) (rule call_timer(3))
  next
    case deadline
    show ?thesis using frame [OF cl_shrinks_deadline [OF deadline(5)]] that(1) by simp
  qed (use that in blast)+
qed

lemma map_fst_snd_update [simp]: "map fst (map (\<lambda>(k, c). (k, f k c)) xs) = map fst xs"
  by (induction xs) auto

lemma cl_ids_step:
  assumes "cl_step mp s e out s'" and "cl_ids n s" and "n < 2 ^ 63 - 1"
  shows "cl_ids (Suc n) s'"
  using assms(1)
proof (cases rule: cl_step_kinds)
  case shrinks
  then have "cl_ids n s'" using assms(2) by (rule cl_shrinks_ids)
  then show ?thesis by (rule cl_ids_mono) simp
next
  case call
  then show ?thesis using cl_ids_call(1) assms(2,3) by simp
next
  case raw
  then show ?thesis using cl_ids_call_raw assms(2,3) by simp
next
  case cb
  show ?thesis by (rule cl_ids_call_cb [OF cb assms(2,3)])
next
  case (timer f)
  have "\<forall>i\<in>fst ` set (map (\<lambda>(k, c). (k, f k c)) (cl_callback_map s)).
      2 ^ 63 < unat i \<and> unat i \<le> unat (cl_callback_id s)"
    using assms(2) by (force simp: cl_ids_def)
  then have "cl_ids n s'"
    using assms(2) unfolding timer by (simp add: cl_ids_def del: map_map)
  then show ?thesis by (rule cl_ids_mono) simp
qed

lemma cl_ids_run:
  assumes "cl_run mp s es s'" and "cl_ids n s" and "n + length es < 2 ^ 63"
  shows "cl_ids (n + length es) s'"
  using assms
proof (induction arbitrary: n rule: cl_run.induct)
  case (cons s e out s' es s'')
  then have "cl_ids (Suc n) s'" by (auto intro: cl_ids_step)
  then show ?case using cons.IH [of "Suc n"] cons.prems(2) by simp
qed simp

lemma cl_ids_new: "cl_ids 0 (new_client lang host port)"
  by (simp add: cl_ids_def new_client_def)

subsection \<open>Pending futures\<close>

definition cl_pending :: "client \<Rightarrow> bool" where
  "cl_pending s \<longleftrightarrow> (\<forall>i. cl_futures s i = Fs_pending \<longleftrightarrow> i \<in> set (cl_future_map s))"

lemma cl_pending_write_msg: "cl_write_msg i t m f s = Some s' \<Longrightarrow> cl_pending s' = cl_pending s"
  by (elim cl_write_msg_cases) (simp add: cl_pending_def)

lemma cl_pending_step:
  assumes "cl_step mp s e out s'" and "cl_pending s"
  shows "cl_pending s'"
  using assms(1)
proof (cases rule: cl_step_kinds)
  case shrinks
  then show ?thesis using assms(2) unfolding cl_shrinks_def cl_pending_def by blast
next
  case (call name ret i)
  have "cl_pending (s\<lparr>cl_fu_id := k, cl_future_map := List.insert k (cl_future_map s),
      cl_futures := (cl_futures s)(k := Fs_pending)\<rparr>)" for k
    using assms(2) by (simp add: cl_pending_def)
  then show ?thesis
    using call by (auto simp: async_call_packed_def Let_def cl_pending_write_msg)
next
  case (raw enc i)
  then show ?thesis
    using assms(2) by (auto simp: internal_async_call_def Let_def cl_pending_write_msg)
      (simp add: cl_pending_def)
next
  case (cb TIMEOUT name args)
  have "cl_pending s'" if "cl_write_msg i t m f (s\<lparr>cl_callback_id := i', cl_callback_map := x\<rparr>) = Some s'" for i t m f i' x
    using cl_pending_write_msg [OF that] assms(2) by (simp add: cl_pending_def)
  moreover have "cl_pending s'" if "cl_write_msg i t m f (s\<lparr>cl_callback_id := i'\<rparr>) = Some s'" for i t m f i'
    using cl_pending_write_msg [OF that] assms(2) by (simp add: cl_pending_def)
  ultimately show ?thesis
    using cb assms(2) by (auto simp: async_call_cb_def Let_def split: if_splits)
next
  case (timer f)
  then show ?thesis using assms(2) by (simp add: cl_pending_def)
qed

lemma cl_pending_run: "cl_run mp s es s' \<Longrightarrow> cl_pending s \<Longrightarrow> cl_pending s'"
  by (induction rule: cl_run.induct) (auto dest: cl_pending_step)

subsection \<open>An example\<close>

text \<open>A client that has connected and made one call through a future and one with a callback.\<close>

definition demo_cl1 :: client where
  "demo_cl1 = the (connect False (new_client Lang_CPP [] 9000))"

definition demo_cl2 :: client where
  "demo_cl2 = fst (the (cl_on_connect demo_msgpack None (demo_cl1\<lparr>cl_connects := 0\<rparr>)))"

definition demo_cl3 :: client where
  "demo_cl3 = fst (the (async_call demo_msgpack [97] [5] demo_cl2))"

definition demo_cl :: client where
  "demo_cl = fst (the (async_call_cb demo_msgpack 5000 [97] [6] demo_cl3))"

abbreviation demo_cl_events :: "(bytes cl_event \<times> cl_output list) list" where
  "demo_cl_events \<equiv> [(Ev_connect, []), (Ev_connected None, [Notify_connected]), (Ev_call [97] [5], []),
     (Ev_call_cb 5000 [97] [6], [])]"

lemma demo_cl1: "connect False (new_client Lang_CPP [] 9000) = Some demo_cl1" "cl_connects demo_cl1 = 1"
  by (simp_all add: demo_cl1_def connect_def async_connect_def new_client_def wait_conn_begin_def)

lemma demo_cl2: "cl_on_connect demo_msgpack None (demo_cl1\<lparr>cl_connects := 0\<rparr>) = Some (demo_cl2, [Notify_connected])"
  by (simp add: demo_cl2_def demo_cl1_def connect_def async_connect_def new_client_def wait_conn_begin_def
      cl_on_connect_def resend_subscribe_def do_read_def cl_async_read_head_def Let_def)

lemma demo_cl2_simps [simp]:
  "cl_outbox demo_cl2 = []" "cl_writes demo_cl2 = []" "cl_future_map demo_cl2 = []" "cl_fu_id demo_cl2 = 0"
  "cl_callback_id demo_cl2 = 0" "cl_callback_map demo_cl2 = []" "cl_has_connected demo_cl2"
  "cl_socket_open demo_cl2" "cl_reads demo_cl2 = [Cl_read_head]" "cl_language demo_cl2 = Lang_CPP"
  "cl_futures demo_cl2 i = Fs_none" "length (cl_body demo_cl2) = INIT_BUF_SIZE" "cl_port demo_cl2 = 9000"
  "cl_connects demo_cl2 = 0" "cl_key_token_set demo_cl2 = []" "cl_has_wait demo_cl2" "\<not> cl_err_cb demo_cl2"
  "cl_deadline demo_cl2 = []" "cl_sub_map demo_cl2 = []" "cl_enable_reconnect demo_cl2 = False"
  by (simp_all add: demo_cl2_def demo_cl1_def connect_def async_connect_def new_client_def wait_conn_begin_def
      cl_on_connect_def resend_subscribe_def do_read_def cl_async_read_head_def Let_def)

lemma demo_small: "length [5 :: u8] < MAX_BUF_LEN" "length [6 :: u8] < MAX_BUF_LEN"
  by (simp_all add: MAX_BUF_LEN_def)

lemma demo_cl3: "async_call demo_msgpack [97] [5] demo_cl2 = Some (demo_cl3, 1)"
  and demo_cl3_simps [simp]:
  "cl_outbox demo_cl3 = [cl_mk_msg 1 req_res [5] (md5_hash32 [97])]"
  "cl_writes demo_cl3 = [cl_frame (cl_mk_msg 1 req_res [5] (md5_hash32 [97]))]"
  "cl_future_map demo_cl3 = [1]" "cl_fu_id demo_cl3 = 1" "cl_futures demo_cl3 1 = Fs_pending"
  "cl_callback_id demo_cl3 = 0" "cl_callback_map demo_cl3 = []" "cl_has_connected demo_cl3"
  "cl_socket_open demo_cl3" "cl_reads demo_cl3 = [Cl_read_head]" "cl_language demo_cl3 = Lang_CPP"
  "cl_port demo_cl3 = 9000" "cl_connects demo_cl3 = 0" "cl_key_token_set demo_cl3 = []" "cl_has_wait demo_cl3"
  "\<not> cl_err_cb demo_cl3" "cl_deadline demo_cl3 = []"
  using demo_small
  by (simp_all add: demo_cl3_def async_call_def async_call_packed_def Let_def demo_msgpack_def cl_write_msg_eq)

lemma demo_cl: "async_call_cb demo_msgpack 5000 [97] [6] demo_cl3 = Some (demo_cl, [])"
  and demo_cl_simps [simp]:
  "cl_future_map demo_cl = [1]" "cl_futures demo_cl 1 = Fs_pending"
  "cl_callback_map demo_cl = [(9223372036854775809, \<lparr>ca_timeout = 5000, ca_has_timeout = False, ca_timer = True\<rparr>)]"
  "cl_has_connected demo_cl"
  "cl_socket_open demo_cl" "cl_reads demo_cl = [Cl_read_head]" "cl_language demo_cl = Lang_CPP"
  "cl_writes demo_cl = [cl_frame (cl_mk_msg 1 req_res [5] (md5_hash32 [97]))]"
  "cl_outbox demo_cl = [cl_mk_msg 1 req_res [5] (md5_hash32 [97]),
     cl_mk_msg 9223372036854775809 req_res [6] (md5_hash32 [97])]"
  "cl_port demo_cl = 9000" "cl_connects demo_cl = 0" "cl_key_token_set demo_cl = []" "cl_has_wait demo_cl"
  "\<not> cl_err_cb demo_cl" "cl_deadline demo_cl = []"
  using demo_small
  by (simp_all add: demo_cl_def async_call_cb_def Let_def demo_msgpack_def cl_write_msg_eq start_timer_def)

lemma demo_cl_run: "cl_run demo_msgpack (new_client Lang_CPP [] 9000) demo_cl_events demo_cl"
  using demo_cl1 demo_cl2 demo_cl3 demo_cl
  by (auto intro!: cl_run.intros intro: cl_step.intros)

subsection \<open>Properties\<close>

text \<open>C21. Requests leave in the order of the calls, none is lost or sent twice, and only one is being
  written at any time, as long as writes succeed and the client is not closed.\<close>

theorem cl_requests_in_order:
  assumes "\<forall>m\<in>set (cl_outbox s). length (cm_content m) < MAX_BUF_LEN"
    and "cl_writes s = map cl_frame (take 1 (cl_outbox s))"
    and "\<forall>m\<in>set (q_sends es). length (cm_content m) < MAX_BUF_LEN"
    and "q_run cl_send cl_sent cl_writing es s = (s', done)"
  shows "done @ cl_outbox s' = cl_outbox s @ q_sends es \<and>
         map cl_msg_of_frame (cl_writes s') = take 1 (cl_outbox s')"
proof -
  have "clq.one_write s" using assms(2) by (simp add: clq.one_write_def o_def)
  then show ?thesis
    using clq.fifo [OF assms(1) _ assms(3,4)] by (simp add: clq.one_write_def)
qed

theorem cl_requests_in_order_witness:
  "\<exists>s' done. q_run cl_send cl_sent cl_writing [Send (cl_mk_msg 1 0 [5] 7), Send (cl_mk_msg 2 0 [6] 7), Sent]
       (new_client Lang_CPP [] 9000) = (s', done) \<and>
     done @ cl_outbox s' = [cl_mk_msg 1 0 [5] 7, cl_mk_msg 2 0 [6] 7]"
proof -
  let ?es = "[Send (cl_mk_msg 1 0 [5] 7), Send (cl_mk_msg 2 0 [6] 7), Sent]"
  obtain s' "done" where r: "q_run cl_send cl_sent cl_writing ?es (new_client Lang_CPP [] 9000) = (s', done)"
    by fastforce
  have "\<forall>m\<in>set (q_sends ?es). length (cm_content m) < MAX_BUF_LEN" by (simp add: MAX_BUF_LEN_def)
  then show ?thesis
    using cl_requests_in_order [OF _ _ _ r] r by (simp add: new_client_def)
qed

text \<open>C17. Pending calls of the two kinds never mix and ids are not reused: after any history of fewer than
  \<open>2 ^ 63 - 1\<close> steps the ids of pending futures have the top bit clear and those of pending callbacks
  have it set, which is what decides where an answer goes; the next id of either kind is not pending;
  and a future is unresolved exactly while its promise is in the map.\<close>

theorem cl_ids_separate:
  assumes "cl_run mp (new_client lang host port) es s" and "length es < 2 ^ 63 - 1"
  shows "(\<forall>i\<in>set (cl_future_map s). drop_bit 63 i = 0) \<and>
         (\<forall>i\<in>fst ` set (cl_callback_map s). drop_bit 63 i \<noteq> 0) \<and>
         cl_fu_id s + 1 \<notin> set (cl_future_map s) \<and>
         (cl_callback_id s + 1) OR push_bit 63 1 \<notin> fst ` set (cl_callback_map s) \<and>
         (\<forall>i. cl_futures s i = Fs_pending \<longleftrightarrow> i \<in> set (cl_future_map s))"
proof -
  have ids: "cl_ids (length es) s"
    using cl_ids_run [OF assms(1) cl_ids_new] assms(2) by simp
  have "drop_bit 63 i = 0" if "i \<in> set (cl_future_map s)" for i
  proof -
    have "unat i \<le> length es" using ids that by (auto simp: cl_ids_def)
    then show ?thesis using drop_bit_63 [of i] assms(2) by linarith
  qed
  moreover have "drop_bit 63 i \<noteq> 0" if "i \<in> fst ` set (cl_callback_map s)" for i
  proof -
    have "2 ^ 63 < unat i" using ids that unfolding cl_ids_def by blast
    then show ?thesis by (simp add: drop_bit_63)
  qed
  moreover have "cl_pending (new_client lang host port)"
    by (simp add: cl_pending_def new_client_def)
  then have "cl_pending s" using assms(1) cl_pending_run by blast
  ultimately show ?thesis
    using fresh_future(2) [OF ids] fresh_callback(2) [OF ids] assms(2) by (simp add: cl_pending_def)
qed

theorem cl_ids_separate_witness:
  "cl_run demo_msgpack (new_client Lang_CPP [] 9000) demo_cl_events demo_cl \<and>
   set (cl_future_map demo_cl) = {1} \<and> fst ` set (cl_callback_map demo_cl) = {9223372036854775809} \<and>
   cl_fu_id demo_cl + 1 \<notin> set (cl_future_map demo_cl)"
  using cl_ids_separate [OF demo_cl_run] demo_cl_run by simp

text \<open>C8. An answer resolves its own call and nothing else: when the body of a response with the id of a
  pending future arrives, exactly that future becomes ready with exactly the bytes received, its
  promise leaves the map, everything else is unchanged and the next head is read. With the id of a
  pending callback the callback is called once, with the bytes or, when its time limit had passed,
  with the error \<open>timed_out\<close>, and is forgotten.\<close>

theorem cl_answer_resolves_its_call:
  assumes "cl_reads s = [Cl_read_body i req_res (length data)]" and "cl_socket_open s"
    and "cl_language s = Lang_CPP"
  shows "(drop_bit 63 i = 0 \<and> i \<in> set (cl_future_map s) \<longrightarrow>
            (\<forall>out s'. cl_step mp s (Ev_body None data) out s' \<longleftrightarrow>
               out = [] \<and> s' = s\<lparr>cl_reads := [Cl_read_head], cl_body := data @ drop (length data) (cl_body s),
                   cl_temp_req_id := i, cl_futures := (cl_futures s)(i := Fs_ready \<lparr>rr_data = data\<rparr>),
                                cl_future_map := removeAll i (cl_future_map s)\<rparr>)) \<and>
         (drop_bit 63 i \<noteq> 0 \<and> map_of (cl_callback_map s) i = Some c \<longrightarrow>
            (\<forall>out s'. cl_step mp s (Ev_body None data) out s' \<longleftrightarrow>
               out = [if ca_has_timeout c then Callback i (Some Ec_timed_out) [] else Callback i None data] \<and>
               s' = s\<lparr>cl_reads := [Cl_read_head], cl_body := data @ drop (length data) (cl_body s),
                   cl_temp_req_id := i, cl_callback_map := filter (\<lambda>x. fst x \<noteq> i) (cl_callback_map s)\<rparr>))"
  using assms(1-3)
  by (auto simp: cl_step_body cl_on_read_body_def call_back_def Let_def do_read_def cl_async_read_head_def)

lemma demo_flag: "drop_bit 63 (9223372036854775809 :: u64) \<noteq> 0" "drop_bit 63 (1 :: u64) = 0"
  by code_simp+

theorem cl_answer_resolves_its_call_witness:
  "(\<exists>s'. cl_step demo_msgpack (demo_cl\<lparr>cl_reads := [Cl_read_body 1 req_res 2]\<rparr>) (Ev_body None [0, 7]) [] s' \<and>
      cl_futures s' 1 = Fs_ready \<lparr>rr_data = [0, 7]\<rparr>) \<and>
   (\<exists>s'. cl_step demo_msgpack (demo_cl\<lparr>cl_reads := [Cl_read_body 9223372036854775809 req_res 2]\<rparr>) (Ev_body None [0, 7])
      [Callback 9223372036854775809 None [0, 7]] s' \<and> cl_callback_map s' = [])"
proof -
  let ?s = "\<lambda>i. demo_cl\<lparr>cl_reads := [Cl_read_body i req_res 2]\<rparr>"
  let ?c = "\<lparr>ca_timeout = 5000, ca_has_timeout = False, ca_timer = True\<rparr>"
  have r: "cl_reads (?s i) = [Cl_read_body i req_res (length [0 :: u8, 7])]"
    "cl_socket_open (?s i)" "cl_language (?s i) = Lang_CPP" for i by simp_all
  have f: "drop_bit 63 1 = (0 :: u64) \<and> 1 \<in> set (cl_future_map (?s 1))" using demo_flag by simp
  have m: "drop_bit 63 9223372036854775809 \<noteq> (0 :: u64) \<and>
      map_of (cl_callback_map (?s 9223372036854775809)) 9223372036854775809 = Some ?c"
    by (intro conjI demo_flag) simp
  note 1 = cl_answer_resolves_its_call [OF r, THEN conjunct1, THEN mp, OF f, of demo_msgpack, rule_format, THEN iffD2,
      OF conjI, OF refl refl]
  note 2 = cl_answer_resolves_its_call [OF r, THEN conjunct2, THEN mp, OF m, of demo_msgpack, rule_format, THEN iffD2,
      OF conjI, OF refl refl]
  have "\<exists>s'. cl_step demo_msgpack (?s 1) (Ev_body None [0, 7]) [] s' \<and>
      cl_futures s' 1 = Fs_ready \<lparr>rr_data = [0, 7]\<rparr>"
    by (rule exI, rule conjI, rule 1) simp
  moreover have "\<exists>s'. cl_step demo_msgpack (?s 9223372036854775809) (Ev_body None [0, 7])
      [Callback 9223372036854775809 None [0, 7]] s' \<and> cl_callback_map s' = []"
    using 2 by (intro exI conjI) (simp, simp)
  ultimately show ?thesis by blast
qed

text \<open>An answer with an id that is not pending (a second answer, an answer after its call was dropped, an
  id the server made up) aborts the client: the assertion on the promise or on the callback fails, so
  there is no step on the arrival of the body.\<close>

theorem cl_unknown_answer_aborts:
  assumes "cl_reads s = [Cl_read_body i req_res (length data)]" and "cl_socket_open s"
    and "cl_language s = Lang_CPP" and "i \<notin> set (cl_future_map s)" and "i \<notin> fst ` set (cl_callback_map s)"
  shows "\<nexists>out s'. cl_step mp s (Ev_body None data) out s'"
proof -
  have "map_of (cl_callback_map s) i = None" using assms(5) by (simp add: map_of_eq_None_iff)
  then show ?thesis
    using assms(1-4) by (auto simp: cl_step_body cl_on_read_body_def call_back_def Let_def)
qed

theorem cl_unknown_answer_aborts_witness:
  "\<nexists>out s'. cl_step demo_msgpack (demo_cl\<lparr>cl_reads := [Cl_read_body 5 req_res 2]\<rparr>) (Ev_body None [0, 7]) out s'"
proof -
  have "cl_reads (demo_cl\<lparr>cl_reads := [Cl_read_body 5 req_res 2]\<rparr>) = [Cl_read_body 5 req_res (length [0 :: u8, 7])]"
    by simp
  then show ?thesis by (rule cl_unknown_answer_aborts) simp_all
qed



end
