(* ===== verification/Client_Faults.thy ===== *)
theory Client_Faults
  imports Client_Calls
begin

section \<open>The client after errors, and its heartbeat\<close>

text \<open>
  What the client does when the network fails: a failed write leaves the outbox in a state in which
  nothing is written until the client is closed while connected, a body of exactly the maximal length stops the reading loop, a
  reconnect repeats the subscriptions; and the timer of the heartbeat, which cannot be switched off.
\<close>

subsection \<open>A failed write\<close>

text \<open>The outbox grows and no write is started.\<close>

definition cl_grows :: "client \<Rightarrow> client \<Rightarrow> bool" where
  "cl_grows s s' \<longleftrightarrow> (cl_outbox s \<noteq> [] \<longrightarrow> cl_writes s' = cl_writes s \<and> (\<exists>q. cl_outbox s' = cl_outbox s @ q))"

lemma cl_grows_refl [simp]: "cl_grows s s"
  by (simp add: cl_grows_def)


lemma cl_grows_same: "cl_outbox s' = cl_outbox s \<Longrightarrow> cl_writes s' = cl_writes s \<Longrightarrow> cl_grows s s'"
  by (simp add: cl_grows_def)



lemma cl_grows_async_connect: "async_connect s = Some s' \<Longrightarrow> cl_grows s s'"
  by (auto simp: async_connect_def split: if_splits intro!: cl_grows_same)


















subsection \<open>Reading\<close>

text \<open>A body of exactly \<open>MAX_BUF_LEN\<close> bytes is neither read nor refused: the length passes neither test
  of the handler, so the client starts no read, reports no error and stays connected, and nothing
  that the server sends afterwards is ever read.\<close>

theorem cl_max_len_stalls:
  assumes "cl_reads s = [Cl_read_head]" and "cl_socket_open s" and "unat (hd_body_len h) = MAX_BUF_LEN"
  shows "cl_step mp s (Ev_head None (encode_header p q h)) out s' \<longleftrightarrow> out = [] \<and> s' = s\<lparr>cl_reads := []\<rparr>"
proof -
  have "hd_body_len h \<noteq> 0" using assms(3) by (auto simp: MAX_BUF_LEN_def)
  then show ?thesis
    using assms by (auto simp: cl_step_head cl_on_read_head_def Let_def)
qed

theorem cl_max_len_stalls_witness:
  "cl_step demo_msgpack demo_cl (Ev_head None (encode_header 0 0
       \<lparr>hd_magic = MAGIC_NUM, hd_req_type = req_res, hd_body_len = 10485760, hd_req_id = 1, hd_func_id = 0\<rparr>)) []
     (demo_cl\<lparr>cl_reads := []\<rparr>)"
  by (subst cl_max_len_stalls) (simp_all add: MAX_BUF_LEN_def)

definition subscribe_messages :: "('a, 'r) msgpack \<Rightarrow> (bytes \<times> bytes) list \<Rightarrow> client_message_type list" where
  "subscribe_messages mp ps =
     map (\<lambda>(key, token). cl_mk_msg 0 sub_pub (mp_pack_key_token mp key token) (md5_hash32 key)) ps"

lemma send_subscribes_eq:
  assumes "\<forall>(key, token)\<in>set ps. length (mp_pack_key_token mp key token) < MAX_BUF_LEN"
  shows "\<exists>s' z h. send_subscribes mp ps s = Some s' \<and>
     s' = s\<lparr>cl_outbox := cl_outbox s @ subscribe_messages mp ps, cl_write_size := z, cl_header := h,
            cl_writes := cl_writes s @ (if cl_outbox s = [] then map cl_frame (take 1 (subscribe_messages mp ps)) else [])\<rparr>"
  using assms(1)
proof (induction ps arbitrary: s)
  case Nil
  then show ?case by (intro exI [of _ s] exI [of _ "cl_write_size s"] exI [of _ "cl_header s"])
      (simp add: subscribe_messages_def)
next
  case (Cons p ps)
  obtain key token where p: "p = (key, token)" by fastforce
  let ?m = "cl_mk_msg 0 sub_pub (mp_pack_key_token mp key token) (md5_hash32 key)"
  obtain t z h where t: "cl_write_msg 0 sub_pub (mp_pack_key_token mp key token) (md5_hash32 key) s = Some t"
    and t_eq: "t = s\<lparr>cl_outbox := cl_outbox s @ [?m], cl_write_size := z, cl_header := h,
      cl_writes := cl_writes s @ (if cl_outbox s = [] then [cl_frame ?m] else [])\<rparr>"
    using Cons.prems p
    by (cases "cl_outbox s = []") (force simp: cl_write_msg_eq intro: that [of _ "cl_header s" "cl_write_size s"])+
  have "\<forall>(key, token)\<in>set ps. length (mp_pack_key_token mp key token) < MAX_BUF_LEN"
    using Cons.prems by simp
  from Cons.IH [OF this, of t] show ?case
    by (auto simp: p t t_eq send_subscribe_def subscribe_messages_def) blast+
qed

text \<open>C16. A new connection repeats the subscriptions. When connecting succeeds on a client that is not
  connected, the client marks itself connected, starts reading, and queues one subscription message for
  each pair of key and token that was subscribed, in the order of the set, behind what the outbox holds;
  the write of the first one is started when the outbox was empty. Nothing else of the client changes
  but the buffer of the header and its size, and the user is only told when \<open>wait_conn\<close> waits for it.\<close>

theorem cl_reconnect_resubscribes:
  assumes "\<not> cl_has_connected s" and "cl_connects s = Suc n"
    and "\<forall>(key, token)\<in>set (cl_key_token_set s). length (mp_pack_key_token mp key token) < MAX_BUF_LEN"
  shows "(\<exists>out s'. cl_step mp s (Ev_connected None) out s') \<and>
     (\<forall>out s'. cl_step mp s (Ev_connected None) out s' \<longrightarrow>
        out = (if cl_has_wait s then [Notify_connected] else []) \<and>
        s' = s\<lparr>cl_connects := n, cl_has_connected := True, cl_reads := cl_reads s @ [Cl_read_head],
               cl_outbox := cl_outbox s @ subscribe_messages mp (cl_key_token_set s),
               cl_writes := cl_writes s @ (if cl_outbox s = [] then map cl_frame (take 1 (subscribe_messages mp (cl_key_token_set s))) else []),
               cl_write_size := cl_write_size s', cl_header := cl_header s'\<rparr>)"
proof -
  let ?t = "do_read (s\<lparr>cl_connects := n, cl_has_connected := True\<rparr>)"
  obtain s' z h where "send_subscribes mp (cl_key_token_set s) ?t = Some s'"
    and s': "s' = ?t\<lparr>cl_outbox := cl_outbox s @ subscribe_messages mp (cl_key_token_set s), cl_write_size := z, cl_header := h,
      cl_writes := cl_writes s @ (if cl_outbox s = [] then map cl_frame (take 1 (subscribe_messages mp (cl_key_token_set s))) else [])\<rparr>"
    using send_subscribes_eq [OF assms(3), of ?t] by (auto simp: do_read_def cl_async_read_head_def)
  then have "resend_subscribe mp ?t = Some s'"
    by (auto simp: resend_subscribe_def do_read_def cl_async_read_head_def)
  then show ?thesis
    using assms(1,2) s' by (auto simp: cl_step_connected cl_on_connect_def Let_def do_read_def cl_async_read_head_def)
qed

theorem cl_reconnect_resubscribes_witness:
  "\<exists>s'. cl_step demo_msgpack (demo_cl1\<lparr>cl_key_token_set := [([107], [116])]\<rparr>) (Ev_connected None) [Notify_connected] s' \<and>
     cl_outbox s' = [cl_mk_msg 0 sub_pub [1, 107, 0, 116] (md5_hash32 [107])] \<and>
     cl_writes s' = map cl_frame (cl_outbox s')"
proof -
  let ?s = "demo_cl1\<lparr>cl_key_token_set := [([107], [116])]\<rparr>"
  have d: "\<not> cl_has_connected demo_cl1" "cl_has_wait demo_cl1" "cl_outbox demo_cl1 = []" "cl_writes demo_cl1 = []"
    by (simp_all add: demo_cl1_def connect_def async_connect_def new_client_def wait_conn_begin_def)
  have k: "mp_pack_key_token demo_msgpack = demo_pair" by (simp add: demo_msgpack_def)
  have "\<not> cl_has_connected ?s" and "cl_connects ?s = Suc 0" using demo_cl1(2) d(1) by simp_all
  note rule = cl_reconnect_resubscribes [OF this, of demo_msgpack]
  have small: "\<forall>(key, token)\<in>set (cl_key_token_set ?s). length (mp_pack_key_token demo_msgpack key token) < MAX_BUF_LEN"
    using k by (simp add: MAX_BUF_LEN_def)
  obtain out s' where step: "cl_step demo_msgpack ?s (Ev_connected None) out s'"
    using rule [OF small] by blast
  note after = conjunct2 [OF rule [OF small], rule_format, OF step]
  have "out = [Notify_connected]" using after d by simp
  moreover have "cl_outbox s' = [cl_mk_msg 0 sub_pub [1, 107, 0, 116] (md5_hash32 [107])]"
    using arg_cong [OF conjunct2 [OF after], of cl_outbox] d k by (simp add: subscribe_messages_def)
  moreover have "cl_writes s' = [cl_frame (cl_mk_msg 0 sub_pub [1, 107, 0, 116] (md5_hash32 [107]))]"
    using arg_cong [OF conjunct2 [OF after], of cl_writes] d k by (simp add: subscribe_messages_def)
  moreover note step
  ultimately show ?thesis by auto
qed

subsection \<open>Heartbeat\<close>

text \<open>Only the heartbeat's own members touch its timer.\<close>

lemma deadline_write_msg: "cl_write_msg i t m f s = Some s' \<Longrightarrow> cl_deadline s' = cl_deadline s"
  by (elim cl_write_msg_cases) simp

lemma deadline_error_callback: "error_callback e s = Some (s', out) \<Longrightarrow> cl_deadline s' = cl_deadline s"
  by (auto simp: error_callback_def async_reconnect_def async_connect_def reset_socket_def Let_def split: if_splits)

lemma deadline_close [simp]: "cl_deadline (cl_close s) = cl_deadline s"
  by (simp add: cl_close_def clear_cache_def)

lemma deadline_do_read [simp]: "cl_deadline (do_read s) = cl_deadline s"
  by (simp add: do_read_def cl_async_read_head_def)

lemma deadline_call_back: "call_back i ec d s = Some (s', out) \<Longrightarrow> cl_deadline s' = cl_deadline s"
  by (auto simp: call_back_def Let_def split: if_splits option.splits)

lemma deadline_send_subscribes: "send_subscribes mp ps s = Some s' \<Longrightarrow> cl_deadline s' = cl_deadline s"
  by (induction mp ps s rule: send_subscribes.induct)
    (auto simp: send_subscribe_def bind_eq_Some_conv dest: deadline_write_msg)

lemma deadline_callback_sub: "callback_sub mp d s = Some (s', out) \<Longrightarrow> cl_deadline s' = cl_deadline s"
  by (auto simp: callback_sub_def dest: deadline_error_callback split: sum.splits prod.splits)

lemmas deadline_dest = deadline_write_msg deadline_error_callback deadline_call_back
  deadline_send_subscribes deadline_callback_sub

lemma deadline_on_connect: "cl_on_connect mp ec s = Some (s', out) \<Longrightarrow> cl_deadline s' = cl_deadline s"
  by (auto simp: cl_on_connect_def Let_def bind_eq_Some_conv resend_subscribe_def async_reconnect_def
      async_connect_def reset_socket_def dest: deadline_dest split: if_splits option.splits)

lemma deadline_on_read_head: "cl_on_read_head ec head s = Some (s', out) \<Longrightarrow> cl_deadline s' = cl_deadline s"
  by (auto simp: cl_on_read_head_def Let_def cl_async_read_def dest: deadline_dest split: if_splits option.splits)

lemma deadline_on_read_body: "cl_on_read_body mp i t n ec s = Some (s', out) \<Longrightarrow> cl_deadline s' = cl_deadline s"
  by (auto simp: cl_on_read_body_def Let_def bind_eq_Some_conv dest!: deadline_dest split: if_splits option.splits)

lemma deadline_on_write: "cl_on_write ec s = Some (s', out) \<Longrightarrow> cl_deadline s' = cl_deadline s"
  by (auto simp: cl_on_write_def Let_def dest: deadline_dest split: if_splits option.splits)

lemma deadline_step:
  assumes "cl_step mp s e out s'"
  obtains (same) "cl_deadline s' = cl_deadline s"
    | (beat) b where "s' = enable_auto_heartbeat b s"
    | (handler) j timeout where "j < length (cl_deadline s)"
        "cl_deadline s' = cl_deadline (reset_deadline_timer timeout
           (s\<lparr>cl_deadline := take j (cl_deadline s) @ drop (Suc j) (cl_deadline s)\<rparr>))"
  using assms
proof (cases rule: cl_step.cases)
  case call
  then show ?thesis
    by (intro same) (auto simp: async_call_def async_call_packed_def Let_def dest: deadline_dest)
next
  case call_packed
  then show ?thesis by (intro same) (auto simp: async_call_packed_def Let_def dest: deadline_dest)
next
  case call_raw
  then show ?thesis by (intro same) (auto simp: internal_async_call_def Let_def dest: deadline_dest)
next
  case call_cb
  then show ?thesis
    by (intro same) (auto simp: async_call_cb_def Let_def dest: deadline_dest split: if_splits)
next
  case subscribe
  then show ?thesis
    by (intro same)
      (auto simp: subscribe_token_def Let_def bind_eq_Some_conv send_subscribe_def dest: deadline_dest split: if_splits)
next
  case connect
  then show ?thesis
    by (intro same) (auto simp: connect_def async_connect_def wait_conn_begin_def bind_eq_Some_conv split: if_splits)
next
  case close
  then show ?thesis by (intro same) simp
next
  case connected
  then show ?thesis by (intro same) (auto dest: deadline_on_connect)
next
  case head
  then show ?thesis by (intro same) (auto dest: deadline_on_read_head)
next
  case body
  then show ?thesis by (intro same) (auto dest: deadline_on_read_body)
next
  case written
  then show ?thesis by (intro same) (auto dest: deadline_on_write)
next
  case call_timer
  then show ?thesis by (intro same) simp
next
  case (deadline j timeout cancelled)
  then show ?thesis
    by (intro handler [of j timeout])
      (auto simp: on_deadline_def bind_eq_Some_conv reset_deadline_timer_def cancel_deadline_def Let_def
        dest: deadline_dest split: if_splits)
qed (rule beat)

text \<open>At most one wait is not cancelled.\<close>

definition cl_beats :: "client \<Rightarrow> bool" where
  "cl_beats s \<longleftrightarrow> length (filter (\<lambda>(t, cancelled). \<not> cancelled) (cl_deadline s)) \<le> 1"

lemma filter_cancelled [simp]: "filter (\<lambda>(t, c). \<not> c) (map (\<lambda>(t, c). (t, True)) xs) = []"
  by (induction xs) auto

lemma beats_reset [simp]: "cl_beats (reset_deadline_timer t s)"
  by (simp add: cl_beats_def reset_deadline_timer_def cancel_deadline_def Let_def)

lemma beats_step:
  assumes "cl_step mp s e out s'" and "cl_beats s"
  shows "cl_beats s' \<and> length (cl_deadline s) \<le> length (cl_deadline s')"
  using assms(1)
proof (cases rule: deadline_step)
  case same
  then show ?thesis using assms(2) by (simp add: cl_beats_def)
next
  case (beat b)
  then show ?thesis
    by (auto simp: enable_auto_heartbeat_def cl_beats_def reset_deadline_timer_def cancel_deadline_def Let_def)
next
  case (handler j timeout)
  then show ?thesis
    by (simp add: cl_beats_def reset_deadline_timer_def cancel_deadline_def Let_def)
qed

lemma beats_run:
  assumes "cl_run mp s es s'" and "cl_beats s"
  shows "cl_beats s' \<and> length (cl_deadline s) \<le> length (cl_deadline s')"
  using assms
proof (induction rule: cl_run.induct)
  case (cons s e out s' es s'')
  then show ?case using beats_step by fastforce
qed simp

lemma two_waits_one_cancelled:
  assumes "cl_beats s" and "2 \<le> length (cl_deadline s)"
  shows "\<exists>t. (t, True) \<in> set (cl_deadline s)"
proof (rule ccontr)
  assume "\<not> ?thesis"
  then have "filter (\<lambda>(t, c). \<not> c) (cl_deadline s) = cl_deadline s"
    by (intro filter_True) auto
  then show False using assms by (simp add: cl_beats_def)
qed

text \<open>C40. Once enabled the heartbeat cannot be disabled, and enabling it twice makes the client spin: every
  handler of the timer, also that of a cancelled wait, starts a new wait, so the number of waits never
  falls; and with two of them each new wait cancels the other, so that there is always a cancelled
  wait whose handler is ready to run.\<close>

theorem heartbeat_never_stops:
  assumes "cl_run mp (new_client lang host port) es s" and "cl_run mp s es' s'"
  shows "length (cl_deadline s) \<le> length (cl_deadline s') \<and>
         (2 \<le> length (cl_deadline s) \<longrightarrow> (\<exists>t. (t, True) \<in> set (cl_deadline s')))"
proof -
  have "cl_beats (new_client lang host port)" by (simp add: cl_beats_def new_client_def)
  then have "cl_beats s" using assms(1) beats_run by blast
  then have "cl_beats s' \<and> length (cl_deadline s) \<le> length (cl_deadline s')"
    using assms(2) beats_run by blast
  then show ?thesis using two_waits_one_cancelled [of s'] by auto
qed

theorem heartbeat_never_stops_witness:
  "\<exists>s s'. cl_run demo_msgpack (new_client Lang_CPP [] 9000) [(Ev_heartbeat True, []), (Ev_heartbeat True, [])] s \<and>
     cl_run demo_msgpack s [(Ev_heartbeat False, [])] s' \<and>
     length (cl_deadline s) = 2 \<and> (\<exists>t. (t, True) \<in> set (cl_deadline s'))"
proof -
  let ?b = "enable_auto_heartbeat True" and ?s0 = "new_client Lang_CPP [] 9000"
  have 1: "cl_run demo_msgpack ?s0 [(Ev_heartbeat True, []), (Ev_heartbeat True, [])] (?b (?b ?s0))"
    by (rule cl_step.heartbeat cl_run.intros)+
  have 2: "cl_run demo_msgpack (?b (?b ?s0)) [(Ev_heartbeat False, [])] (enable_auto_heartbeat False (?b (?b ?s0)))"
    by (rule cl_step.heartbeat cl_run.intros)+
  have l: "length (cl_deadline (?b (?b ?s0))) = 2"
    by (simp add: enable_auto_heartbeat_def reset_deadline_timer_def cancel_deadline_def Let_def new_client_def)
  then show ?thesis
    using heartbeat_never_stops [OF 1 2] 1 2 by (metis order_refl)
qed

end
