(* ===== verification/Round_Trip.thy ===== *)
theory Round_Trip
  imports Server Client_Faults
begin

section \<open>Frames between the client and the server\<close>

text \<open>
  What a frame that one side has written does on the other side. \<open>cl_frame\<close> and \<open>cn_frame\<close> are what a
  client and a connection of the server hand to the socket; \<open>encode_header\<close> is the header in the bytes
  of the stream. The lemmas deliver a response and a publication to the client, and follow a message
  of the server from an idle connection to its frame.
\<close>

subsection \<open>The client reads a frame\<close>

definition cl_await_body :: "rpc_header \<Rightarrow> client \<Rightarrow> client" where
  "cl_await_body h s =
     cl_async_read (hd_req_id h) (hd_req_type h) (unat (hd_body_len h))
       (if length (cl_body s) < unat (hd_body_len h)
        then s\<lparr>cl_body := resize (unat (hd_body_len h)) 0 (cl_body s)\<rparr> else s)"

lemma cl_await_body_simps [simp]:
  "cl_reads (cl_await_body h s) =
     cl_reads s @ [Cl_read_body (hd_req_id h) (hd_req_type h) (unat (hd_body_len h))]"
  "cl_socket_open (cl_await_body h s) = cl_socket_open s"
  "cl_language (cl_await_body h s) = cl_language s"
  "cl_future_map (cl_await_body h s) = cl_future_map s"
  "cl_sub_map (cl_await_body h s) = cl_sub_map s"
  by (simp_all add: cl_await_body_def cl_async_read_def)

lemma cl_head_step:
  assumes "cl_socket_open s" and "cl_reads s = [Cl_read_head]"
    and "unat (hd_body_len h) = n" and "0 < n" and "n < MAX_BUF_LEN"
  shows "cl_step mp s (Ev_head None (encode_header p q h)) [] (cl_await_body h (s\<lparr>cl_reads := []\<rparr>))"
proof -
  have "hd_body_len h > 0" using assms(3,4) by (metis unat_gt_0 word_neq_0_conv)
  then show ?thesis
    using assms by (simp add: cl_step_head cl_on_read_head_def Let_def cl_await_body_def)
qed

lemma response_delivered:
  assumes "cl_socket_open s" and "cl_reads s = [Cl_read_head]" and "cl_language s = Lang_CPP"
    and "i \<in> set (cl_future_map s)" and "drop_bit 63 i = 0"
    and "data \<noteq> []" and "length data < MAX_BUF_LEN"
  shows "\<exists>s'. cl_run mp s [(Ev_head None (encode_header p q (fst (cn_frame (mk_msg i req_res data)))), []),
                            (Ev_body None data, [])] s' \<and>
     cl_futures s' i = Fs_ready \<lparr>rr_data = data\<rparr> \<and> cl_reads s' = [Cl_read_head] \<and> i \<notin> set (cl_future_map s')"
proof -
  let ?h = "fst (cn_frame (mk_msg i req_res data))"
  let ?s1 = "cl_await_body ?h (s\<lparr>cl_reads := []\<rparr>)"
  have h: "unat (hd_body_len ?h) = length data" "hd_req_id ?h = i" "hd_req_type ?h = req_res"
    using assms(7) by (simp_all add: cn_frame_def frame_len)
  have 1: "cl_step mp s (Ev_head None (encode_header p q ?h)) [] ?s1"
    using assms(1,2,6,7) h by (intro cl_head_step) auto
  let ?s2 = "do_read (?s1\<lparr>cl_reads := [], cl_body := data @ drop (length data) (cl_body ?s1), cl_temp_req_id := i,
      cl_futures := (cl_futures ?s1)(i := Fs_ready \<lparr>rr_data = data\<rparr>),
      cl_future_map := removeAll i (cl_future_map ?s1)\<rparr>)"
  have 2: "cl_step mp ?s1 (Ev_body None data) [] ?s2"
    using assms h by (simp add: cl_step_body cl_on_read_body_def call_back_def Let_def)
  have "cl_run mp s [(Ev_head None (encode_header p q ?h), []), (Ev_body None data, [])] ?s2"
    by (rule cl_run.cons [OF 1 cl_run.cons [OF 2 cl_run.nil]])
  then show ?thesis
    by (intro exI [of _ ?s2]) (simp add: do_read_def cl_async_read_head_def)
qed

lemma publication_delivered:
  assumes "cl_socket_open s" and "cl_reads s = [Cl_read_head]" and "key \<in> set (cl_sub_map s)"
    and "mp_unpack_code_key_data mp data = Some (c, key, value)"
    and "data \<noteq> []" and "length data < MAX_BUF_LEN"
  shows "\<exists>s'. cl_run mp s [(Ev_head None (encode_header p q (fst (cn_frame (mk_msg 0 sub_pub data)))), []),
                            (Ev_body None data, [Sub_data key value])] s' \<and> cl_reads s' = [Cl_read_head]"
proof -
  let ?h = "fst (cn_frame (mk_msg 0 sub_pub data))"
  let ?s1 = "cl_await_body ?h (s\<lparr>cl_reads := []\<rparr>)"
  have h: "unat (hd_body_len ?h) = length data" "hd_req_id ?h = 0" "hd_req_type ?h = sub_pub"
    using assms(6) by (simp_all add: cn_frame_def frame_len)
  have 1: "cl_step mp s (Ev_head None (encode_header p q ?h)) [] ?s1"
    using assms(1,2,5,6) h by (intro cl_head_step) auto
  let ?s2 = "do_read (?s1\<lparr>cl_reads := [], cl_body := data @ drop (length data) (cl_body ?s1)\<rparr>)"
  have 2: "cl_step mp ?s1 (Ev_body None data) [Sub_data key value] ?s2"
    using assms h
    by (simp add: cl_step_body cl_on_read_body_def callback_sub_def codec_unpack_def Let_def)
  have "cl_run mp s [(Ev_head None (encode_header p q ?h), []), (Ev_body None data, [Sub_data key value])] ?s2"
    by (rule cl_run.cons [OF 1 cl_run.cons [OF 2 cl_run.nil]])
  then show ?thesis
    by (intro exI [of _ ?s2]) (simp add: do_read_def cl_async_read_head_def)
qed

subsection \<open>An idle side writes at once\<close>

lemma cn_idle_writes:
  assumes "cn_ok s" and "\<not> cn_has_closed s" and "cn_write_queue s = [m]"
  shows "cn_writes s = [cn_frame m]"
  using assms by (simp add: cn_ok_def)

lemma async_call_idle:
  assumes "cl_outbox c = []" and "cl_writes c = []" and "length (mp_pack_args mp args) < MAX_BUF_LEN"
  obtains c1 where "async_call mp name args c = Some (c1, cl_fu_id c + 1)"
    and "cl_writes c1 = [cl_frame (cl_mk_msg (cl_fu_id c + 1) req_res (mp_pack_args mp args) (md5_hash32 name))]"
    and "cl_fu_id c + 1 \<in> set (cl_future_map c1)" and "cl_reads c1 = cl_reads c"
    and "cl_socket_open c1 = cl_socket_open c" and "cl_language c1 = cl_language c"
  using assms by (auto simp: async_call_def async_call_packed_def Let_def cl_write_msg_eq)

lemma subscribe_idle:
  assumes "cl_outbox c = []" and "cl_writes c = []" and "key @ token \<notin> set (cl_sub_map c)"
    and "length (mp_pack_key_token mp key token) < MAX_BUF_LEN"
  obtains c1 where "subscribe_token mp key token c = Some c1"
    and "cl_writes c1 = [cl_frame (cl_mk_msg 0 sub_pub (mp_pack_key_token mp key token) (md5_hash32 key))]"
    and "key @ token \<in> set (cl_sub_map c1)" and "cl_reads c1 = cl_reads c"
    and "cl_socket_open c1 = cl_socket_open c"
  using assms by (auto simp: subscribe_token_def send_subscribe_def Let_def cl_write_msg_eq)

subsection \<open>What the caller gets\<close>

text \<open>The bytes of the response to a call whose function has the given outcome.\<close>

definition packed_outcome :: "('a, 'r) msgpack \<Rightarrow> 'r outcome \<Rightarrow> bytes" where
  "packed_outcome mp result =
     (case result of
        Returned r \<Rightarrow> pack_args_str_value mp Result_OK r
      | Returned_void \<Rightarrow> pack_args_str mp Result_OK
      | Threw e \<Rightarrow> pack_args_str_string mp Result_FAIL (what e))"

text \<open>\<open>call\<close> for functions with a result and for \<open>void\<close> functions.\<close>

definition caller_sees :: "('a, 'r) msgpack \<Rightarrow> 'r outcome \<Rightarrow> future_state \<Rightarrow> bool" where
  "caller_sees mp result f =
     (case result of
        Returned r \<Rightarrow> call_result mp f = Inr r
      | Returned_void \<Rightarrow> call_result_void mp f = Inr ()
      | Threw e \<Rightarrow> call_result mp f = Inl (Exn_logic_error (what e)) \<and>
                   call_result_void mp f = Inl (Exn_logic_error (what e)))"

lemma caller_sees_packed:
  assumes "msgpack_ok mp"
  shows "caller_sees mp result (Fs_ready \<lparr>rr_data = packed_outcome mp result\<rparr>)"
  using assms
  by (cases result)
    (simp_all add: caller_sees_def packed_outcome_def call_result_def call_result_void_def future_get_def
      result_defs codec_unpack_def msgpack_okD result_code_value_def)

lemma packed_outcome_nonempty: "msgpack_ok mp \<Longrightarrow> packed_outcome mp result \<noteq> []"
  by (cases result) (simp_all add: packed_outcome_def msgpack_okD)

lemma route_registered:
  assumes "msgpack_ok mp" and "length (packed_outcome mp (f self args)) < MAX_BUF_LEN"
  shows "route mp (register_handler mp Exec_sync name (mp_unpack_args mp) f r) (md5_hash32 name)
           (mp_pack_args mp args) (Some self) req_id = Some (req_id, packed_outcome mp (f self args))"
  using assms
  by (simp add: route_Some [OF register_handler_same(1)] response_of_def packed_outcome_def msgpack_okD Let_def
      split: outcome.splits)

end
