(* ===== verification/Channel.thy ===== *)
theory Channel
  imports Wire
begin

section \<open>Frames in a stream of bytes\<close>

text \<open>
  One direction of a connection between the client and the server. The sender hands one frame at a time
  to its socket, header and body in one write; the bytes of the frame enter the stream one after the
  other, and the write completes after the last one. The receiver takes \<open>HEAD_LEN\<close> bytes for a header
  and then as many bytes as the header announces. \<open>chan_ok\<close> says that the stream, at whatever byte it
  is cut, still is the sequence of frames that the sender has queued and the receiver has not read. The
  lemmas follow it through the steps of both sides; nothing in them depends on what the frames say.
\<close>

type_synonym frame = "rpc_header \<times> bytes"

text \<open>The bytes of one frame; \<open>p\<close> and \<open>q\<close> are the padding of its header.\<close>

definition frame_bytes :: "u8 \<Rightarrow> u8 \<Rightarrow> frame \<Rightarrow> bytes" where
  "frame_bytes p q f = encode_header p q (fst f) @ snd f"

inductive framed :: "frame list \<Rightarrow> bytes \<Rightarrow> bool" where
  nil: "framed [] []"
| cons: "framed fs bs \<Longrightarrow> framed (f # fs) (frame_bytes p q f @ bs)"

inductive_cases framed_NilE [elim!]: "framed [] bs"
inductive_cases framed_ConsE: "framed (f # fs) bs"

lemma framed_append: "framed fs xs \<Longrightarrow> framed gs ys \<Longrightarrow> framed (fs @ gs) (xs @ ys)"
  by (induction rule: framed.induct) (auto intro: framed.intros)

lemma framed_one: "framed [f] (frame_bytes p q f)"
  using framed.cons [OF framed.nil, of f p q] by simp

lemma framed_empty: "framed fs [] \<longleftrightarrow> fs = []"
  by (cases fs) (auto elim!: framed_ConsE intro: framed.nil simp: frame_bytes_def encode_header_def)

text \<open>The frames that the receiver has not read, from a stream. A receiver that has taken the header of a
  frame waits for its body.\<close>

fun receiving :: "frame option \<Rightarrow> frame list \<Rightarrow> bytes \<Rightarrow> bool" where
  "receiving None fs bs \<longleftrightarrow> framed fs bs"
| "receiving (Some f) fs bs \<longleftrightarrow> (\<exists>gs bs'. fs = f # gs \<and> bs = snd f @ bs' \<and> framed gs bs')"

lemma receiving_append:
  "receiving pending fs bs \<Longrightarrow> framed gs ys \<Longrightarrow> receiving pending (fs @ gs) (bs @ ys)"
  by (cases pending) (auto intro: framed_append)

text \<open>\<open>all\<close> are the frames that the receiver has not read, \<open>queue\<close> those that the sender still holds;
  \<open>tx\<close> is what the running write has not put into the stream yet, \<^const>\<open>None\<close> before it starts.\<close>

definition in_flight :: "bytes \<Rightarrow> bytes option \<Rightarrow> bytes" where
  "in_flight stream tx = stream @ (case tx of None \<Rightarrow> [] | Some rest \<Rightarrow> rest)"

definition chan_ok :: "frame option \<Rightarrow> frame list \<Rightarrow> bytes \<Rightarrow> bytes option \<Rightarrow> frame list \<Rightarrow> bool" where
  "chan_ok pending all stream tx queue \<longleftrightarrow>
     (tx \<noteq> None \<longrightarrow> queue \<noteq> []) \<and>
     (\<exists>sent. all = sent @ (if tx = None then queue else tl queue) \<and>
        receiving pending sent (in_flight stream tx))"

lemma chan_ok_start: "chan_ok None [] [] None []"
  by (simp add: chan_ok_def in_flight_def framed_empty)

lemma chan_enqueue:
  assumes "chan_ok pending all stream tx queue"
  shows "chan_ok pending (all @ fs) stream tx (queue @ fs)"
  using assms by (cases queue; cases tx) (auto simp: chan_ok_def)

lemma chan_begin:
  assumes "chan_ok pending all stream None (f # queue)"
  shows "chan_ok pending all stream (Some (frame_bytes p q f)) (f # queue)"
proof -
  obtain sent where sent: "all = sent @ f # queue" "receiving pending sent stream"
    using assms by (auto simp: chan_ok_def in_flight_def)
  then have "receiving pending (sent @ [f]) (stream @ frame_bytes p q f)"
    by (intro receiving_append framed_one)
  then show ?thesis
    using sent(1) by (auto simp: chan_ok_def in_flight_def intro!: exI [of _ "sent @ [f]"])
qed

lemma chan_byte:
  "chan_ok pending all stream (Some (b # bs)) queue \<Longrightarrow> chan_ok pending all (stream @ [b]) (Some bs) queue"
  by (simp add: chan_ok_def in_flight_def)

lemma chan_end:
  "chan_ok pending all stream (Some []) queue \<Longrightarrow> chan_ok pending all stream None (tl queue)"
  by (simp add: chan_ok_def in_flight_def)

lemma append_take_eq:
  assumes "stream @ rest = xs @ ys" and "length xs \<le> length stream"
  shows "take (length xs) stream = xs" and "drop (length xs) stream @ rest = ys"
  using assms by (auto simp: append_eq_append_conv2)

text \<open>A header that has arrived is the header of the first frame not read.\<close>

lemma chan_head:
  assumes "chan_ok None all stream tx queue" and "HEAD_LEN \<le> length stream"
  obtains f fs p q where "all = f # fs" and "take HEAD_LEN stream = encode_header p q (fst f)"
    and "chan_ok (Some f) all (drop HEAD_LEN stream) tx queue"
proof -
  obtain sent where sent: "all = sent @ (if tx = None then queue else tl queue)"
    "framed sent (in_flight stream tx)"
    using assms(1) by (auto simp: chan_ok_def)
  have "sent \<noteq> []"
    using sent(2) assms(2) by (auto simp: in_flight_def HEAD_LEN_def)
  then obtain f fs where f: "sent = f # fs" by (cases sent) auto
  obtain p q bs where bs: "in_flight stream tx = encode_header p q (fst f) @ snd f @ bs" "framed fs bs"
    using sent(2) f by (auto elim!: framed_ConsE simp: frame_bytes_def)
  note split = append_take_eq [OF bs(1) [unfolded in_flight_def], simplified, OF assms(2)]
  have "receiving (Some f) sent (in_flight (drop HEAD_LEN stream) tx)"
    using split(2) bs(2) f by (auto simp: in_flight_def)
  then have "chan_ok (Some f) all (drop HEAD_LEN stream) tx queue"
    using assms(1) sent(1) unfolding chan_ok_def by blast
  then show thesis
    using that split(1) sent(1) f by simp
qed

text \<open>A body that has arrived is the body of the frame whose header was read.\<close>

lemma chan_body:
  assumes "chan_ok (Some f) all stream tx queue" and "length (snd f) \<le> length stream"
  shows "take (length (snd f)) stream = snd f" and "all = f # tl all"
    and "chan_ok None (tl all) (drop (length (snd f)) stream) tx queue"
proof -
  obtain gs bs where gs: "all = (f # gs) @ (if tx = None then queue else tl queue)"
    "in_flight stream tx = snd f @ bs" "framed gs bs"
    using assms(1) unfolding chan_ok_def by auto
  note split = append_take_eq [OF gs(2) [unfolded in_flight_def] assms(2)]
  show "take (length (snd f)) stream = snd f" by (rule split(1))
  show "all = f # tl all" using gs(1) by simp
  have "receiving None gs (in_flight (drop (length (snd f)) stream) tx)"
    using split(2) gs(3) by (simp add: in_flight_def)
  then show "chan_ok None (tl all) (drop (length (snd f)) stream) tx queue"
    using assms(1) gs(1) unfolding chan_ok_def by auto
qed

text \<open>As long as a frame is not read or a write runs, the sender can go on or the receiver can.\<close>

lemma chan_progress:
  assumes "chan_ok pending all stream tx queue" and "all \<noteq> [] \<or> tx \<noteq> None"
  obtains (start) "tx = None" "queue \<noteq> []" | (byte) b bs where "tx = Some (b # bs)" | (finish) "tx = Some []"
    | (head) "pending = None" "HEAD_LEN \<le> length stream"
    | (body) f where "pending = Some f" "length (snd f) \<le> length stream"
proof (cases tx)
  case None
  obtain sent where sent: "all = sent @ queue" "receiving pending sent stream"
    using assms(1) None by (auto simp: chan_ok_def in_flight_def)
  show thesis
  proof (cases "queue = []")
    case False
    then show thesis using None start by blast
  next
    case True
    show thesis
    proof (cases pending)
      case None
      obtain f fs where "sent = f # fs" using assms(2) sent(1) True \<open>tx = None\<close> by (cases sent) auto
      then show thesis using sent(2) None head by (auto elim!: framed_ConsE simp: frame_bytes_def)
    next
      case (Some f)
      then show thesis using sent(2) body by auto
    qed
  qed
next
  case (Some rest)
  then show thesis using byte finish by (cases rest) auto
qed

lemma chan_pending_all: "chan_ok (Some f) all stream tx queue \<Longrightarrow> all \<noteq> []"
  by (auto simp: chan_ok_def)

subsection \<open>Work\<close>

text \<open>The steps that are left: every byte of a frame enters the stream once, its write starts and ends, and
  its header and its body are read.\<close>

definition frame_work :: "frame \<Rightarrow> nat" where
  "frame_work f = HEAD_LEN + length (snd f) + 2"

definition write_work :: "bytes option \<Rightarrow> frame list \<Rightarrow> nat" where
  "write_work tx queue =
     (case tx of
        None \<Rightarrow> sum_list (map frame_work queue)
      | Some rest \<Rightarrow> length rest + 1 + sum_list (map frame_work (tl queue)))"

lemma write_work_begin: "write_work None (f # queue) = Suc (write_work (Some (frame_bytes p q f)) (f # queue))"
  by (simp add: write_work_def frame_work_def frame_bytes_def)

lemma write_work_byte: "write_work (Some (b # bs)) queue = Suc (write_work (Some bs) queue)"
  by (simp add: write_work_def)

lemma write_work_end: "write_work (Some []) queue = Suc (write_work None (tl queue))"
  by (simp add: write_work_def)

lemma write_work_append:
  "tx \<noteq> None \<longrightarrow> queue \<noteq> [] \<Longrightarrow> write_work tx (queue @ fs) = write_work tx queue + sum_list (map frame_work fs)"
  by (cases queue) (auto simp: write_work_def split: option.split)

subsection \<open>A sender and a receiver\<close>

text \<open>What the two ends of a stream have to offer: the frames that the sender has queued, and in which state
  of the receiver it reads a header, or the body of a frame. Both directions are instances.\<close>

locale frame_link =
  fixes outgoing :: "'s \<Rightarrow> frame list"
    and reading :: "frame option \<Rightarrow> 'r \<Rightarrow> bool"
  assumes reading_None: "reading None r \<Longrightarrow> \<not> reading (Some f) r"
begin

definition link_ok :: "'s \<Rightarrow> 'r \<Rightarrow> frame list \<Rightarrow> bytes \<Rightarrow> bytes option \<Rightarrow> bool" where
  "link_ok s r all stream tx \<longleftrightarrow> (\<exists>pending. reading pending r \<and> chan_ok pending all stream tx (outgoing s))"

definition link_work :: "'s \<Rightarrow> 'r \<Rightarrow> frame list \<Rightarrow> bytes option \<Rightarrow> nat" where
  "link_work s r all tx = write_work tx (outgoing s) + 2 * length all - (if reading None r then 0 else 1)"

text \<open>While a body is awaited there is a frame, so the subtraction is exact.\<close>

lemma link_work_pending:
  assumes "reading pending r" and "chan_ok pending all stream tx (outgoing s)"
  shows "link_work s r all tx + (if pending = None then 0 else 1) = write_work tx (outgoing s) + 2 * length all"
proof (cases pending)
  case (Some f)
  then have "\<not> reading None r" and "all \<noteq> []"
    using assms reading_None chan_pending_all by blast+
  then show ?thesis using Some by (cases all) (simp_all add: link_work_def)
qed (use assms(1) in \<open>simp add: link_work_def\<close>)

lemma link_sender: "outgoing s' = outgoing s \<Longrightarrow> link_ok s' r all stream tx = link_ok s r all stream tx"
  "outgoing s' = outgoing s \<Longrightarrow> link_work s' r all tx = link_work s r all tx"
  by (simp_all add: link_ok_def link_work_def)

lemma link_receiver:
  "(\<And>pending. reading pending r' = reading pending r) \<Longrightarrow> link_ok s r' all stream tx = link_ok s r all stream tx"
  "(\<And>pending. reading pending r' = reading pending r) \<Longrightarrow> link_work s r' all tx = link_work s r all tx"
  by (simp_all add: link_ok_def link_work_def)

lemma link_enqueue:
  assumes "link_ok s r all stream tx" and "outgoing s' = outgoing s @ fs"
  shows "link_ok s' r (all @ fs) stream tx"
    and "link_work s' r (all @ fs) tx = link_work s r all tx + sum_list (map (\<lambda>f. frame_work f + 2) fs)"
proof -
  obtain pending where pending: "reading pending r" "chan_ok pending all stream tx (outgoing s)"
    using assms(1) by (auto simp: link_ok_def)
  have chan: "chan_ok pending (all @ fs) stream tx (outgoing s')"
    using chan_enqueue [OF pending(2)] assms(2) by simp
  then show "link_ok s' r (all @ fs) stream tx" using pending(1) unfolding link_ok_def by blast
  have "tx \<noteq> None \<longrightarrow> outgoing s \<noteq> []" using pending(2) by (simp add: chan_ok_def)
  moreover have "sum_list (map (\<lambda>f. frame_work f + 2) fs) = sum_list (map frame_work fs) + 2 * length fs"
    by (induction fs) auto
  ultimately show "link_work s' r (all @ fs) tx = link_work s r all tx + sum_list (map (\<lambda>f. frame_work f + 2) fs)"
    using link_work_pending [OF pending] link_work_pending [OF pending(1) chan] assms(2) write_work_append by simp
qed

lemma link_begin:
  assumes "link_ok s r all stream None" and "outgoing s = f # queue"
  shows "link_ok s r all stream (Some (frame_bytes p q f))"
    and "link_work s r all None = Suc (link_work s r all (Some (frame_bytes p q f)))"
proof -
  obtain pending where pending: "reading pending r" "chan_ok pending all stream None (outgoing s)"
    using assms(1) by (auto simp: link_ok_def)
  note chan = chan_begin [OF pending(2) [unfolded assms(2)], of p q, folded assms(2)]
  then show "link_ok s r all stream (Some (frame_bytes p q f))" using pending(1) unfolding link_ok_def by blast
  show "link_work s r all None = Suc (link_work s r all (Some (frame_bytes p q f)))"
    using link_work_pending [OF pending] link_work_pending [OF pending(1) chan] assms(2)
      write_work_begin [of f queue p q] by simp
qed

lemma link_byte:
  assumes "link_ok s r all stream (Some (b # bs))"
  shows "link_ok s r all (stream @ [b]) (Some bs)"
    and "link_work s r all (Some (b # bs)) = Suc (link_work s r all (Some bs))"
proof -
  obtain pending where pending: "reading pending r" "chan_ok pending all stream (Some (b # bs)) (outgoing s)"
    using assms by (auto simp: link_ok_def)
  note chan = chan_byte [OF pending(2)]
  then show "link_ok s r all (stream @ [b]) (Some bs)" using pending(1) unfolding link_ok_def by blast
  show "link_work s r all (Some (b # bs)) = Suc (link_work s r all (Some bs))"
    using link_work_pending [OF pending] link_work_pending [OF pending(1) chan] by (simp add: write_work_byte)
qed

lemma link_end_queue: "link_ok s r all stream (Some rest) \<Longrightarrow> outgoing s \<noteq> []"
  by (auto simp: link_ok_def chan_ok_def)

lemma link_end:
  assumes "link_ok s r all stream (Some [])" and "outgoing s' = tl (outgoing s)"
  shows "link_ok s' r all stream None" and "link_work s r all (Some []) = Suc (link_work s' r all None)"
proof -
  obtain pending where pending: "reading pending r" "chan_ok pending all stream (Some []) (outgoing s)"
    using assms(1) by (auto simp: link_ok_def)
  note chan = chan_end [OF pending(2), folded assms(2)]
  then show "link_ok s' r all stream None" using pending(1) unfolding link_ok_def by blast
  show "link_work s r all (Some []) = Suc (link_work s' r all None)"
    using link_work_pending [OF pending] link_work_pending [OF pending(1) chan] assms(2) by (simp add: write_work_end)
qed

text \<open>A header that was read is that of the first frame, and the receiver then has to wait for its body; a
  body that was read is the body of this frame.\<close>

lemma link_head:
  assumes "link_ok s r all stream tx" and "reading None r" and "HEAD_LEN \<le> length stream"
  obtains f fs p q where "all = f # fs" and "take HEAD_LEN stream = encode_header p q (fst f)"
    and "\<And>r'. reading (Some f) r' \<Longrightarrow>
           link_ok s r' all (drop HEAD_LEN stream) tx \<and> link_work s r all tx = Suc (link_work s r' all tx)"
proof -
  have chan0: "chan_ok None all stream tx (outgoing s)"
    using assms(1,2) reading_None unfolding link_ok_def by (metis option.exhaust)
  obtain f fs p q where f: "all = f # fs" "take HEAD_LEN stream = encode_header p q (fst f)"
    and chan: "chan_ok (Some f) all (drop HEAD_LEN stream) tx (outgoing s)"
    using chan_head [OF chan0 assms(3)] .
  have "link_ok s r' all (drop HEAD_LEN stream) tx \<and> link_work s r all tx = Suc (link_work s r' all tx)"
    if read: "reading (Some f) r'" for r'
    using link_work_pending [OF assms(2) chan0] link_work_pending [OF read chan] read chan
    unfolding link_ok_def by auto
  then show thesis using that f by blast
qed

lemma link_body:
  assumes "link_ok s r all stream tx" and "\<not> reading None r"
  obtains f where "reading (Some f) r" and "all = f # tl all"
    and "length (snd f) \<le> length stream \<Longrightarrow> take (length (snd f)) stream = snd f"
    and "\<And>r'. length (snd f) \<le> length stream \<Longrightarrow> reading None r' \<Longrightarrow>
           link_ok s r' (tl all) (drop (length (snd f)) stream) tx \<and>
           link_work s r all tx = Suc (link_work s r' (tl all) tx)"
proof -
  obtain f where read: "reading (Some f) r" and chan0: "chan_ok (Some f) all stream tx (outgoing s)"
    using assms unfolding link_ok_def by (metis option.exhaust)
  have all: "all = f # tl all" using chan0 by (auto simp: chan_ok_def)
  have "link_ok s r' (tl all) (drop (length (snd f)) stream) tx \<and>
      link_work s r all tx = Suc (link_work s r' (tl all) tx)"
    if len: "length (snd f) \<le> length stream" and read': "reading None r'" for r'
  proof -
    note chan = chan_body(3) [OF chan0 len]
    have "length all = Suc (length (tl all))" by (subst all) simp
    then show ?thesis
      using link_work_pending [OF read chan0] link_work_pending [OF read' chan] read' chan
      unfolding link_ok_def by auto
  qed
  then show thesis using that read all chan_body(1) [OF chan0] by blast
qed

lemma link_progress:
  assumes "link_ok s r all stream tx" and "0 < link_work s r all tx"
  obtains (start) "tx = None" "outgoing s \<noteq> []" | (byte) b bs where "tx = Some (b # bs)" | (finish) "tx = Some []"
    | (head) "reading None r" "HEAD_LEN \<le> length stream"
    | (body) f where "\<not> reading None r" "reading (Some f) r" "length (snd f) \<le> length stream"
proof -
  obtain pending where pending: "reading pending r" "chan_ok pending all stream tx (outgoing s)"
    using assms(1) by (auto simp: link_ok_def)
  have "all \<noteq> [] \<or> tx \<noteq> None"
    using assms(2) pending(2) by (cases tx) (auto simp: link_work_def write_work_def chan_ok_def)
  from chan_progress [OF pending(2) this] show thesis
    using that pending(1) reading_None by metis
qed

lemma link_idle: "link_work s r all tx = 0 \<Longrightarrow> all = []"
  by (cases all) (auto simp: link_work_def split: if_splits)

end

end
