(* ===== verification/Session.thy ===== *)
theory Session
  imports Round_Trip Channel
begin

section \<open>A client and a connection of the server\<close>

text \<open>
  The client, the connection that the server has accepted for it, and the two directions of the TCP
  stream between them, as one system. The user of the client makes calls through futures and through
  callbacks at any time, timers of calls expire, and the network moves single bytes; reads and writes
  of both sides complete as soon as their bytes are there, in any order. Network errors and the time
  limit of the connection are not part of this system: it shows what the protocol does as long as the
  two sides are connected. Three fields only record the history: the calls made, the requests that the
  server has handed to its router, and what the user's callbacks were told.
\<close>

type_synonym 'a rpc_call = "u64 \<times> bytes \<times> 'a"

record 'a session =
  ss_client :: client
  ss_conn :: connection
  ss_up :: bytes
  ss_up_tx :: "bytes option"
  ss_down :: bytes
  ss_down_tx :: "bytes option"
  ss_calls :: "'a rpc_call list"
  ss_served :: "(u64 \<times> u32 \<times> bytes) list"
  ss_callbacks :: "cl_output list"

subsection \<open>Steps\<close>

text \<open>The user's side: calls, and the timers of calls.\<close>

inductive ss_user :: "('a, 'r) msgpack \<Rightarrow> 'a session \<Rightarrow> 'a session \<Rightarrow> bool"
  for mp where
  call: "async_call mp name args (ss_client t) = Some (c, i) \<Longrightarrow>
    ss_user mp t (t\<lparr>ss_client := c, ss_calls := ss_calls t @ [(i, name, args)]\<rparr>)"
| call_cb: "async_call_cb mp TIMEOUT name args (ss_client t) = Some (c, []) \<Longrightarrow>
    ss_user mp t (t\<lparr>ss_client := c, ss_calls := ss_calls t @ [(cl_callback_id c, name, args)]\<rparr>)"
| call_timer: "cl_step mp (ss_client t) (Ev_call_timer i) out c \<Longrightarrow> ss_user mp t (t\<lparr>ss_client := c\<rparr>)"

text \<open>Everything else: writes start, enter the stream byte by byte and complete, reads complete.\<close>

inductive ss_net :: "('a, 'r) msgpack \<Rightarrow> router \<Rightarrow> nat \<Rightarrow> 'a session \<Rightarrow> 'a session \<Rightarrow> bool"
  for mp r self where
  up_begin: "ss_up_tx t = None \<Longrightarrow> cl_writes (ss_client t) = f # rest \<Longrightarrow>
    ss_net mp r self t (t\<lparr>ss_up_tx := Some (frame_bytes p q f)\<rparr>)"
| up_byte: "ss_up_tx t = Some (b # bs) \<Longrightarrow>
    ss_net mp r self t (t\<lparr>ss_up := ss_up t @ [b], ss_up_tx := Some bs\<rparr>)"
| up_end: "ss_up_tx t = Some [] \<Longrightarrow> cl_step mp (ss_client t) (Ev_written None) out c \<Longrightarrow>
    ss_net mp r self t (t\<lparr>ss_client := c, ss_up_tx := None\<rparr>)"
| server_head: "HEAD_LEN \<le> length (ss_up t) \<Longrightarrow>
    cn_step mp r self (ss_conn t) (E_head None (take HEAD_LEN (ss_up t))) out s \<Longrightarrow>
    ss_net mp r self t (t\<lparr>ss_conn := s, ss_up := drop HEAD_LEN (ss_up t)\<rparr>)"
| server_body: "cn_reads (ss_conn t) = Read_body f n # rest \<Longrightarrow> n \<le> length (ss_up t) \<Longrightarrow>
    cn_step mp r self (ss_conn t) (E_body None (take n (ss_up t))) out s \<Longrightarrow>
    ss_net mp r self t (t\<lparr>ss_conn := s, ss_up := drop n (ss_up t),
      ss_served := ss_served t @ [(cn_req_id (ss_conn t), f, take n (ss_up t))]\<rparr>)"
| down_begin: "ss_down_tx t = None \<Longrightarrow> cn_writes (ss_conn t) = f # rest \<Longrightarrow>
    ss_net mp r self t (t\<lparr>ss_down_tx := Some (frame_bytes p q f)\<rparr>)"
| down_byte: "ss_down_tx t = Some (b # bs) \<Longrightarrow>
    ss_net mp r self t (t\<lparr>ss_down := ss_down t @ [b], ss_down_tx := Some bs\<rparr>)"
| down_end: "ss_down_tx t = Some [] \<Longrightarrow> cn_step mp r self (ss_conn t) (E_write None) out s \<Longrightarrow>
    ss_net mp r self t (t\<lparr>ss_conn := s, ss_down_tx := None\<rparr>)"
| client_head: "HEAD_LEN \<le> length (ss_down t) \<Longrightarrow>
    cl_step mp (ss_client t) (Ev_head None (take HEAD_LEN (ss_down t))) out c \<Longrightarrow>
    ss_net mp r self t (t\<lparr>ss_client := c, ss_down := drop HEAD_LEN (ss_down t)\<rparr>)"
| client_body: "cl_reads (ss_client t) = Cl_read_body i ty n # rest \<Longrightarrow> n \<le> length (ss_down t) \<Longrightarrow>
    cl_step mp (ss_client t) (Ev_body None (take n (ss_down t))) out c \<Longrightarrow>
    ss_net mp r self t (t\<lparr>ss_client := c, ss_down := drop n (ss_down t),
      ss_callbacks := ss_callbacks t @ out\<rparr>)"

inductive ss_reach :: "('a, 'r) msgpack \<Rightarrow> router \<Rightarrow> nat \<Rightarrow> 'a session \<Rightarrow> 'a session \<Rightarrow> bool"
  for mp r self t0 where
  start: "ss_reach mp r self t0 t0"
| user: "ss_reach mp r self t0 t \<Longrightarrow> ss_user mp t t' \<Longrightarrow> ss_reach mp r self t0 t'"
| net: "ss_reach mp r self t0 t \<Longrightarrow> ss_net mp r self t t' \<Longrightarrow> ss_reach mp r self t0 t'"

text \<open>The start: a C++ client that has just been connected, and the connection just started.\<close>

definition connected_client :: "('a, 'r) msgpack \<Rightarrow> bytes \<Rightarrow> nat \<Rightarrow> client" where
  "connected_client mp host port =
     (let c = the (connect False (new_client Lang_CPP host port))
      in fst (the (cl_on_connect mp None (c\<lparr>cl_connects := 0\<rparr>))))"

definition session_start :: "('a, 'r) msgpack \<Rightarrow> bytes \<Rightarrow> nat \<Rightarrow> nat \<Rightarrow> 'a session" where
  "session_start mp host port timeout =
     \<lparr>ss_client = connected_client mp host port, ss_conn = cn_start (new_connection timeout),
      ss_up = [], ss_up_tx = None, ss_down = [], ss_down_tx = None,
      ss_calls = [], ss_served = [], ss_callbacks = []\<rparr>"

subsection \<open>What is exchanged\<close>

definition request_of :: "('a, 'r) msgpack \<Rightarrow> 'a rpc_call \<Rightarrow> client_message_type" where
  "request_of mp x = (case x of (i, name, args) \<Rightarrow> cl_mk_msg i req_res (mp_pack_args mp args) (md5_hash32 name))"

definition routed_as :: "('a, 'r) msgpack \<Rightarrow> 'a rpc_call \<Rightarrow> u64 \<times> u32 \<times> bytes" where
  "routed_as mp x = (case x of (i, name, args) \<Rightarrow> (i, md5_hash32 name, mp_pack_args mp args))"

text \<open>The response of the server to a request, if it gives one, and all responses in the order of the
  requests.\<close>

definition answer :: "('a, 'r) msgpack \<Rightarrow> router \<Rightarrow> nat \<Rightarrow> u64 \<times> u32 \<times> bytes \<Rightarrow> (u64 \<times> bytes) option" where
  "answer mp r self x = (case x of (i, key, data) \<Rightarrow> route mp r key data (Some self) i)"

definition answers :: "('a, 'r) msgpack \<Rightarrow> router \<Rightarrow> nat \<Rightarrow> (u64 \<times> u32 \<times> bytes) list \<Rightarrow> (u64 \<times> bytes) list" where
  "answers mp r self xs = List.map_filter (answer mp r self) xs"

abbreviation answer_msg :: "u64 \<times> bytes \<Rightarrow> message_type" where
  "answer_msg x \<equiv> mk_msg (fst x) req_res (snd x)"

text \<open>The router never answers with nothing: every response is a packed tuple.\<close>

definition router_answers :: "router \<Rightarrow> bool" where
  "router_answers r \<longleftrightarrow> (\<forall>key f conn data. rt_map_invokers r key = Some f \<longrightarrow> fst (f conn data) \<noteq> [])"

lemma router_answers_new [simp]: "router_answers new_router"
  by (simp add: router_answers_def new_router_def)

lemma invoker_apply_nonempty: "msgpack_ok mp \<Longrightarrow> fst (invoker_apply mp model as_args f conn data) \<noteq> []"
  by (simp add: invoker_apply_def call_def codec_unpack_def msgpack_okD split: option.splits outcome.splits)

lemma router_answers_register:
  "msgpack_ok mp \<Longrightarrow> router_answers r \<Longrightarrow> router_answers (register_handler mp model name as_args f r)"
  by (auto simp: router_answers_def router_defs invoker_apply_nonempty split: if_splits)

lemma router_answers_remove: "router_answers r \<Longrightarrow> router_answers (remove_handler name r)"
  by (auto simp: router_answers_def router_defs split: if_splits)

lemma router_answersD: "router_answers r \<Longrightarrow> rt_map_invokers r key = Some f \<Longrightarrow> f conn data \<noteq> ([], m)"
  unfolding router_answers_def by (metis fst_conv)

lemma answer_Some:
  assumes "answer mp r self x = Some y" and "msgpack_ok mp" and "router_answers r"
  shows "fst y = fst x" and "snd y \<noteq> []"
  using assms
  by (auto simp: answer_def route_def Let_def msgpack_okD dest: router_answersD
      split: prod.splits option.splits if_splits)

lemma answers_snoc: "answers mp r self (xs @ [x]) = answers mp r self xs @ (case answer mp r self x of None \<Rightarrow> [] | Some y \<Rightarrow> [y])"
  by (simp add: answers_def map_filter_def split: option.split)

lemma answers_ids:
  assumes "msgpack_ok mp" and "router_answers r"
  shows "\<exists>zs. map fst (answers mp r self xs) = map fst (filter zs xs)"
proof -
  have "map fst (answers mp r self xs) = map fst (filter (\<lambda>x. answer mp r self x \<noteq> None) xs)"
    using answer_Some(1) [OF _ assms] by (induction xs) (auto simp: answers_def map_filter_simps split: option.splits)
  then show ?thesis by blast
qed

subsection \<open>The two ends\<close>

text \<open>What both ends keep while they are connected.\<close>

definition cl_stable :: "client \<Rightarrow> bool" where
  "cl_stable c \<longleftrightarrow>
     cl_socket_open c \<and> cl_has_connected c \<and> cl_language c = Lang_CPP \<and> cl_up c \<and>
     cl_writes c = map cl_frame (take 1 (cl_outbox c))"

definition cn_stable :: "connection \<Rightarrow> bool" where
  "cn_stable s \<longleftrightarrow> cn_ok s \<and> \<not> cn_has_closed s"

text \<open>Both read one frame after the other.\<close>

definition cl_reading :: "frame option \<Rightarrow> client \<Rightarrow> bool" where
  "cl_reading pending c \<longleftrightarrow> cl_reads c =
     [case pending of None \<Rightarrow> Cl_read_head | Some f \<Rightarrow> Cl_read_body (hd_req_id (fst f)) req_res (length (snd f))]"

definition cn_reading :: "frame option \<Rightarrow> connection \<Rightarrow> bool" where
  "cn_reading pending s \<longleftrightarrow>
     (case pending of
        None \<Rightarrow> cn_reads s = [Read_head]
      | Some f \<Rightarrow> cn_reads s = [Read_body (hd_func_id (fst f)) (length (snd f))] \<and>
                  cn_req_id s = hd_req_id (fst f) \<and> cn_req_type s = req_res)"

text \<open>The two directions: the outbox of the client feeds the reads of the connection, and the write queue of
  the connection those of the client.\<close>

interpretation up: frame_link "\<lambda>c :: client. map cl_frame (cl_outbox c)" cn_reading
  by unfold_locales (auto simp: cn_reading_def)

interpretation down: frame_link "\<lambda>s :: connection. map cn_frame (cn_write_queue s)" cl_reading
  by unfold_locales (auto simp: cl_reading_def)

text \<open>What a step of the client leaves as it is.\<close>

definition cl_same_calls :: "client \<Rightarrow> client \<Rightarrow> bool" where
  "cl_same_calls c c' \<longleftrightarrow>
     cl_fu_id c' = cl_fu_id c \<and> cl_future_map c' = cl_future_map c \<and> cl_futures c' = cl_futures c \<and>
     cl_callback_id c' = cl_callback_id c \<and> map fst (cl_callback_map c') = map fst (cl_callback_map c)"

lemma cl_stable_enqueue:
  assumes "cl_stable s" and "cl_write_msg i t m f s = Some s'"
  shows "cl_stable s'" and "cl_outbox s' = cl_outbox s @ [cl_mk_msg i t m f]" and "cl_reads s' = cl_reads s"
    and "cl_same_calls s s'" and "cl_callback_id s' = cl_callback_id s" and "length m < MAX_BUF_LEN"
proof -
  have len: "length m < MAX_BUF_LEN" using assms(2) by (rule cl_write_msg_Some)
  show "length m < MAX_BUF_LEN" by (rule len)
  show "cl_stable s'" "cl_outbox s' = cl_outbox s @ [cl_mk_msg i t m f]" "cl_reads s' = cl_reads s"
    "cl_same_calls s s'" "cl_callback_id s' = cl_callback_id s"
    using assms len
    by (cases "cl_outbox s"; auto simp: cl_stable_def cl_same_calls_def cl_write_msg_eq)+
qed

lemma cl_written:
  assumes "cl_stable s" and "cl_outbox s = m # q"
  shows "cl_step mp s (Ev_written None) out s' \<longleftrightarrow> out = [] \<and> s' = cl_sent s"
    and "cl_stable (cl_sent s)" and "cl_outbox (cl_sent s) = q" and "cl_reads (cl_sent s) = cl_reads s"
    and "cl_same_calls s (cl_sent s)"
proof -
  have w: "cl_writes s = [cl_frame m]" using assms by (simp add: cl_stable_def)
  show "cl_step mp s (Ev_written None) out s' \<longleftrightarrow> out = [] \<and> s' = cl_sent s"
    using assms(2) w by (auto simp: cl_step_written cl_on_write_def cl_sent_def Let_def)
  show "cl_stable (cl_sent s)" "cl_outbox (cl_sent s) = q" "cl_reads (cl_sent s) = cl_reads s"
    "cl_same_calls s (cl_sent s)"
    using assms w by (cases q; auto simp: cl_stable_def cl_same_calls_def cl_sent_eq)+
qed

lemma cn_written:
  assumes "cn_stable s" and "cn_write_queue s = m # q"
  shows "cn_step mp r self s (E_write None) out s' \<longleftrightarrow> out = [] \<and> s' = cn_sent s"
    and "cn_stable (cn_sent s)" and "cn_write_queue (cn_sent s) = q" and "cn_reading pending (cn_sent s) = cn_reading pending s"
proof -
  have w: "cn_writes s = [cn_frame m]" and up: "cn_up s" and ok: "cn_ok s"
    using assms by (auto simp: cn_stable_def cn_ok_def)
  have *: "cn_step mp r self s (E_write None) out s' \<longleftrightarrow> out = [] \<and> s' = cn_sent s" for r :: router and out s'
    using assms w by (auto simp: cn_sent_def on_write_def Let_def cn_stable_def elim!: cn_stepE intro!: cn_step.written)
  then show "cn_step mp r self s (E_write None) out s' \<longleftrightarrow> out = [] \<and> s' = cn_sent s" .
  show q: "cn_write_queue (cn_sent s) = q" and "cn_reading pending (cn_sent s) = cn_reading pending s"
    using up assms(2) by (cases q; auto simp: cn_sent_eq cn_reading_def split: option.splits)+
  have "cn_step mp r self s (E_write None) [] (cn_sent s)" using * by simp
  then have "cn_ok (cn_sent s)" using ok by (rule cn_ok_step)
  moreover have "\<not> cn_has_closed (cn_sent s)"
    using up assms(2) by (cases q) (auto simp: cn_sent_eq)
  ultimately show "cn_stable (cn_sent s)" by (simp add: cn_stable_def)
qed

subsection \<open>Reading at both ends\<close>

lemma cl_head_iff:
  assumes "cl_stable s" and "cl_reading None s" and "0 < unat (hd_body_len h)" and "unat (hd_body_len h) < MAX_BUF_LEN"
  shows "cl_step mp s (Ev_head None (encode_header p q h)) out s' \<longleftrightarrow>
    out = [] \<and> s' = cl_await_body h (s\<lparr>cl_reads := []\<rparr>)"
proof -
  have "hd_body_len h > 0" using assms(3) by (metis unat_gt_0 word_neq_0_conv)
  then show ?thesis
    using assms by (auto simp: cl_step_head cl_on_read_head_def Let_def cl_await_body_def cl_stable_def cl_reading_def)
qed

lemma cl_await_body_keeps:
  "cl_stable (cl_await_body h s) = cl_stable s" "cl_outbox (cl_await_body h s) = cl_outbox s"
  "cl_same_calls s (cl_await_body h s)"
  by (simp_all add: cl_await_body_def cl_async_read_def cl_stable_def cl_same_calls_def)

lemma cl_future_answered:
  assumes "cl_stable s" and "cl_reads s = [Cl_read_body i req_res (length data)]"
    and "drop_bit 63 i = 0" and "i \<in> set (cl_future_map s)"
  shows "cl_step mp s (Ev_body None data) out s' \<longleftrightarrow> out = [] \<and>
     s' = s\<lparr>cl_reads := [Cl_read_head], cl_body := data @ drop (length data) (cl_body s), cl_temp_req_id := i,
            cl_futures := (cl_futures s)(i := Fs_ready \<lparr>rr_data = data\<rparr>),
            cl_future_map := removeAll i (cl_future_map s)\<rparr>"
  using assms
  by (auto simp: cl_stable_def cl_step_body cl_on_read_body_def call_back_def Let_def do_read_def cl_async_read_head_def)

lemma cl_callback_answered:
  assumes "cl_stable s" and "cl_reads s = [Cl_read_body i req_res (length data)]"
    and "drop_bit 63 i \<noteq> 0" and "map_of (cl_callback_map s) i = Some k"
  shows "cl_step mp s (Ev_body None data) out s' \<longleftrightarrow>
     out = [if ca_has_timeout k then Callback i (Some Ec_timed_out) [] else Callback i None data] \<and>
     s' = s\<lparr>cl_reads := [Cl_read_head], cl_body := data @ drop (length data) (cl_body s), cl_temp_req_id := i,
            cl_callback_map := filter (\<lambda>x. fst x \<noteq> i) (cl_callback_map s)\<rparr>"
  using assms
  by (auto simp: cl_stable_def cl_step_body cl_on_read_body_def call_back_def Let_def do_read_def cl_async_read_head_def)

lemma cn_head_iff:
  assumes "cn_stable s" and "cn_reading None s" and "hd_magic h = MAGIC_NUM"
    and "0 < unat (hd_body_len h)" and "unat (hd_body_len h) < MAX_BUF_LEN"
  shows "cn_step mp r self s (E_head None (encode_header p q h)) out s' \<longleftrightarrow>
    out = [] \<and> s' = cn_await_body h (s\<lparr>cn_reads := []\<rparr>)"
proof -
  have "cn_socket_open s" using assms(1) open_of by (simp add: cn_stable_def)
  then show ?thesis
    using assms(2-) on_read_head_body [of "s\<lparr>cn_reads := []\<rparr>" h p q]
    by (auto simp: cn_reading_def elim!: cn_stepE intro!: cn_step.head)
qed

text \<open>What a request does: the router runs, and its answer is queued.\<close>

definition cn_after_body :: "bytes \<Rightarrow> connection \<Rightarrow> connection" where
  "cn_after_body data s =
     cn_read_head (cn_cancel_timer (s\<lparr>cn_reads := [], cn_body := data @ drop (length data) (cn_body s)\<rparr>))"

lemma cn_body_iff:
  assumes "cn_stable s" and "cn_reads s = [Read_body key (length data)]" and "cn_req_type s = req_res"
  shows "cn_step mp r self s (E_body None data) out s' \<longleftrightarrow> out = [] \<and>
     (case route mp r key data (Some self) (cn_req_id s) of
        None \<Rightarrow> s' = cn_after_body data s
      | Some (i, result) \<Rightarrow> response i result req_res (cn_after_body data s) = Some s')"
proof -
  have "cn_socket_open s" using assms(1) open_of by (simp add: cn_stable_def)
  then have "on_read_body mp r self key None (length data)
      (s\<lparr>cn_reads := [], cn_body := data @ drop (length data) (cn_body s)\<rparr>) =
    (case route mp r key data (Some self) (cn_req_id s) of
       None \<Rightarrow> Some (cn_after_body data s, [])
     | Some (i, result) \<Rightarrow> map_option (\<lambda>s. (s, [])) (response i result req_res (cn_after_body data s)))"
    unfolding cn_after_body_def using assms(3) by (simp add: on_read_body_def Let_def)
  then show ?thesis
    using assms(2) by (auto split: option.splits prod.splits elim!: cn_stepE intro!: cn_step.body)
qed

lemma cn_after_body_simps [simp]:
  "cn_reads (cn_after_body data s) = [Read_head]" "cn_write_queue (cn_after_body data s) = cn_write_queue s"
  "cn_has_closed (cn_after_body data s) = cn_has_closed s"
  by (simp_all add: cn_after_body_def)

subsection \<open>The invariant\<close>

text \<open>Of the calls with the given ids, those in \<open>del\<close> have been answered, and all others are pending.\<close>

fun called_back :: "cl_output \<Rightarrow> u64 \<times> bytes \<Rightarrow> bool" where
  "called_back (Callback i ec data) x \<longleftrightarrow>
     i = fst x \<and> (ec = None \<and> data = snd x \<or> ec = Some Ec_timed_out \<and> data = [])"
| "called_back _ x \<longleftrightarrow> False"

definition is_pending :: "client \<Rightarrow> u64 \<Rightarrow> bool" where
  "is_pending c i \<longleftrightarrow>
     (if drop_bit 63 i = 0 then i \<in> set (cl_future_map c) \<and> cl_futures c i = Fs_pending
      else i \<in> fst ` set (cl_callback_map c))"

definition id_limit :: "client \<Rightarrow> u64 \<Rightarrow> nat" where
  "id_limit c i = (if drop_bit 63 i = 0 then unat (cl_fu_id c) else unat (cl_callback_id c))"

definition calls_ok :: "client \<Rightarrow> u64 list \<Rightarrow> (u64 \<times> bytes) list \<Rightarrow> cl_output list \<Rightarrow> bool" where
  "calls_ok c ids del outs \<longleftrightarrow>
     cl_ids (length ids) c \<and> distinct ids \<and>
     (\<forall>i\<in>set ids. unat i \<le> id_limit c i) \<and>
     fst ` set del \<subseteq> set ids \<and>
     (\<forall>x\<in>set del. drop_bit 63 (fst x) = 0 \<longrightarrow> cl_futures c (fst x) = Fs_ready \<lparr>rr_data = snd x\<rparr>) \<and>
     (\<forall>i\<in>set ids - fst ` set del. is_pending c i) \<and>
     list_all2 called_back outs (filter (\<lambda>x. drop_bit 63 (fst x) \<noteq> 0) del)"

lemma cl_same_calls_refl [simp]: "cl_same_calls c c"
  by (simp add: cl_same_calls_def)

lemma calls_ok_same:
  assumes "calls_ok c ids del outs" and "cl_same_calls c c'"
  shows "calls_ok c' ids del outs"
proof -
  have *: "cl_callback_map c' = [] \<longleftrightarrow> cl_callback_map c = []" "fst ` set (cl_callback_map c') = fst ` set (cl_callback_map c)"
    using assms(2) by (metis cl_same_calls_def map_is_Nil_conv, metis cl_same_calls_def set_map)
  have "is_pending c' i = is_pending c i" for i
    using assms(2) * by (simp add: is_pending_def cl_same_calls_def)
  moreover have "id_limit c' = id_limit c"
    using assms(2) by (simp add: id_limit_def cl_same_calls_def fun_eq_iff)
  moreover have "cl_ids n c' = cl_ids n c" for n
    using assms(2) * by (simp add: cl_ids_def cl_same_calls_def)
  ultimately show ?thesis
    using assms by (simp add: calls_ok_def cl_same_calls_def)
qed

lemma calls_ok_call:
  assumes "calls_ok c ids del outs" and "cl_stable c" and "length ids < 2 ^ 63 - 1"
    and "async_call mp name args c = Some (c', i)"
  shows "calls_ok c' (ids @ [i]) del outs" and "cl_stable c'" and "cl_reads c' = cl_reads c"
    and "cl_outbox c' = cl_outbox c @ [request_of mp (i, name, args)]"
    and "length (mp_pack_args mp args) < MAX_BUF_LEN"
proof -
  let ?c = "c\<lparr>cl_fu_id := cl_fu_id c + 1, cl_future_map := List.insert (cl_fu_id c + 1) (cl_future_map c),
      cl_futures := (cl_futures c)(cl_fu_id c + 1 := Fs_pending)\<rparr>"
  have ids: "cl_ids (length ids) c" using assms(1) by (simp add: calls_ok_def)
  have packed: "async_call_packed name (mp_pack_args mp args) c = Some (c', i)"
    using assms(4) by (simp add: async_call_def)
  have i: "i = cl_fu_id c + 1" and ids': "cl_ids (Suc (length ids)) c'"
    using cl_ids_call [OF packed ids] assms(3) by auto
  have w: "cl_write_msg i req_res (mp_pack_args mp args) (md5_hash32 name) ?c = Some c'"
    using packed i by (auto simp: async_call_packed_def Let_def)
  have "cl_stable ?c" using assms(2) by (simp add: cl_stable_def)
  note e = cl_stable_enqueue [OF this w]
  show "cl_stable c'" "cl_reads c' = cl_reads c" "length (mp_pack_args mp args) < MAX_BUF_LEN"
    "cl_outbox c' = cl_outbox c @ [request_of mp (i, name, args)]"
    using e by (simp_all add: request_of_def)
  have u: "unat i = unat (cl_fu_id c) + 1"
    using fresh_future(1) [OF ids] assms(3) i by simp
  moreover have "unat (cl_fu_id c) \<le> length ids" using ids by (simp add: cl_ids_def)
  ultimately have flag: "drop_bit 63 i = 0" using drop_bit_63 [of i] assms(3) by linarith
  then have new: "i \<notin> set ids" using assms(1) u by (fastforce simp: calls_ok_def id_limit_def)
  have s: "cl_fu_id c' = i" "set (cl_future_map c') = insert i (set (cl_future_map c))"
    "cl_futures c' = (cl_futures c)(i := Fs_pending)" "cl_callback_id c' = cl_callback_id c"
    "fst ` set (cl_callback_map c') = fst ` set (cl_callback_map c)"
    using e(4) i by (auto simp: cl_same_calls_def) (metis image_eqI list.set_map fst_conv)+
  have "\<forall>j\<in>set (ids @ [i]) - fst ` set del. is_pending c' j"
    using assms(1) flag new unfolding calls_ok_def by (auto simp: is_pending_def s)
  moreover have "\<forall>j\<in>set (ids @ [i]). unat j \<le> id_limit c' j"
    using assms(1) flag u unfolding calls_ok_def id_limit_def by (fastforce simp: s)
  moreover have "\<forall>x\<in>set del. drop_bit 63 (fst x) = 0 \<longrightarrow> cl_futures c' (fst x) = Fs_ready \<lparr>rr_data = snd x\<rparr>"
    using assms(1) new unfolding calls_ok_def by (fastforce simp: s)
  ultimately show "calls_ok c' (ids @ [i]) del outs"
    using assms(1) ids' new unfolding calls_ok_def by auto
qed

lemma calls_ok_call_cb:
  assumes "calls_ok c ids del outs" and "cl_stable c" and "length ids < 2 ^ 63 - 1"
    and "async_call_cb mp TIMEOUT name args c = Some (c', [])"
  shows "calls_ok c' (ids @ [cl_callback_id c']) del outs" and "cl_stable c'" and "cl_reads c' = cl_reads c"
    and "cl_outbox c' = cl_outbox c @ [request_of mp (cl_callback_id c', name, args)]"
    and "length (mp_pack_args mp args) < MAX_BUF_LEN"
proof -
  define i where "i = (cl_callback_id c + 1) OR push_bit 63 1"
  have ids: "cl_ids (length ids) c" using assms(1) by (simp add: calls_ok_def)
  note f = fresh_callback [OF ids assms(3), folded i_def]
  obtain k where w: "cl_write_msg i req_res (mp_pack_args mp args) (md5_hash32 name)
      (c\<lparr>cl_callback_id := i, cl_callback_map := cl_callback_map c @ [(i, k)]\<rparr>) = Some c'"
    using assms(2,4) f(2) unfolding i_def
    by (auto simp: async_call_cb_def Let_def cl_stable_def simp del: push_bit_of_1)
  have ids': "cl_ids (Suc (length ids)) c'"
    using cl_ids_call_cb [OF assms(4) ids assms(3)] .
  have "cl_stable (c\<lparr>cl_callback_id := i, cl_callback_map := cl_callback_map c @ [(i, k)]\<rparr>)"
    using assms(2) by (simp add: cl_stable_def)
  note e = cl_stable_enqueue [OF this w]
  have cb: "cl_callback_id c' = i" using e(5) by simp
  show "cl_stable c'" "cl_reads c' = cl_reads c" "length (mp_pack_args mp args) < MAX_BUF_LEN"
    "cl_outbox c' = cl_outbox c @ [request_of mp (cl_callback_id c', name, args)]"
    using e by (simp_all add: request_of_def cb)
  have "cl_callback_id c = 0 \<or> 2 ^ 63 < unat (cl_callback_id c)" using ids unfolding cl_ids_def by blast
  then have "2 ^ 63 \<le> unat i" and above: "unat (cl_callback_id c) < unat i"
    by (cases "cl_callback_id c = 0"; simp add: f(1))+
  then have flag: "drop_bit 63 i \<noteq> 0" by (simp only: drop_bit_63)
  then have new: "i \<notin> set ids" using assms(1) above by (fastforce simp: calls_ok_def id_limit_def)
  have "map fst (cl_callback_map c') = map fst (cl_callback_map c) @ [i]"
    using e(4) by (simp add: cl_same_calls_def)
  from arg_cong [OF this, of set] have s: "fst ` set (cl_callback_map c') = insert i (fst ` set (cl_callback_map c))"
    "cl_fu_id c' = cl_fu_id c" "cl_future_map c' = cl_future_map c" "cl_futures c' = cl_futures c"
    using e(4) by (simp_all add: cl_same_calls_def)
  have "\<forall>j\<in>set (ids @ [i]) - fst ` set del. is_pending c' j"
    using assms(1) flag new unfolding calls_ok_def by (auto simp: is_pending_def s)
  moreover have "\<forall>j\<in>set (ids @ [i]). unat j \<le> id_limit c' j"
    using assms(1) flag above unfolding calls_ok_def id_limit_def by (fastforce simp: s cb)
  ultimately show "calls_ok c' (ids @ [cl_callback_id c']) del outs"
    using assms(1) ids' new unfolding calls_ok_def by (auto simp: s cb)
qed

lemma call_timer_same:
  assumes "cl_step mp c (Ev_call_timer i) out c'" and "cl_stable c"
  shows "cl_same_calls c c'" and "cl_stable c'" and "cl_reads c' = cl_reads c" and "cl_outbox c' = cl_outbox c"
  using assms by (auto elim!: cl_step.cases simp: cl_same_calls_def cl_stable_def simp del: map_map)

text \<open>An answer that arrives for a call that has none yet.\<close>

lemma calls_ok_answered:
  assumes "calls_ok c ids del outs" and "cl_stable c"
    and "cl_reads c = [Cl_read_body (fst x) req_res (length (snd x))]"
    and "fst x \<in> set ids" and "fst x \<notin> fst ` set del"
  shows "\<exists>out c'. cl_step mp c (Ev_body None (snd x)) out c'"
    and "cl_step mp c (Ev_body None (snd x)) out c' \<Longrightarrow>
           calls_ok c' ids (del @ [x]) (outs @ out) \<and> cl_stable c' \<and> cl_reads c' = [Cl_read_head] \<and>
           cl_outbox c' = cl_outbox c"
proof -
  have p: "is_pending c (fst x)" using assms(1,4,5) by (auto simp: calls_ok_def)
  have distinct: "distinct (map fst (cl_callback_map c))" using assms(1) by (simp add: calls_ok_def cl_ids_def)
  show "\<exists>out c'. cl_step mp c (Ev_body None (snd x)) out c'"
  proof (cases "drop_bit 63 (fst x) = 0")
    case True
    then have "fst x \<in> set (cl_future_map c)" using p by (simp add: is_pending_def)
    from cl_future_answered [OF assms(2,3) True this, of mp] show ?thesis by blast
  next
    case False
    then obtain k where "map_of (cl_callback_map c) (fst x) = Some k"
      using p by (auto simp: is_pending_def) (metis weak_map_of_SomeI prod.collapse)
    from cl_callback_answered [OF assms(2,3) False this, of mp] show ?thesis by blast
  qed
  assume step: "cl_step mp c (Ev_body None (snd x)) out c'"
  show "calls_ok c' ids (del @ [x]) (outs @ out) \<and> cl_stable c' \<and> cl_reads c' = [Cl_read_head] \<and>
      cl_outbox c' = cl_outbox c"
  proof (cases "drop_bit 63 (fst x) = 0")
    case True
    then have c': "out = []" "c' = c\<lparr>cl_reads := [Cl_read_head], cl_body := snd x @ drop (length (snd x)) (cl_body c),
        cl_temp_req_id := fst x, cl_futures := (cl_futures c)(fst x := Fs_ready \<lparr>rr_data = snd x\<rparr>),
        cl_future_map := removeAll (fst x) (cl_future_map c)\<rparr>"
      using p step cl_future_answered [OF assms(2,3) True] by (auto simp: is_pending_def)
    have "cl_ids (length ids) c'"
      using assms(1) by (auto simp: c' calls_ok_def cl_ids_def)
    moreover have "id_limit c' = id_limit c" by (simp add: c'(2) id_limit_def fun_eq_iff)
    moreover have "\<forall>y\<in>set (del @ [x]). drop_bit 63 (fst y) = 0 \<longrightarrow> cl_futures c' (fst y) = Fs_ready \<lparr>rr_data = snd y\<rparr>"
      using assms(1,5) by (auto simp: c' calls_ok_def image_iff)
    moreover have "\<forall>i\<in>set ids - fst ` set (del @ [x]). is_pending c' i"
      using assms(1) by (auto simp: c' calls_ok_def is_pending_def)
    ultimately show ?thesis
      using assms(1,2,4) True by (simp add: calls_ok_def c'(1)) (simp add: c'(2) cl_stable_def)
  next
    case False
    then obtain k where k: "map_of (cl_callback_map c) (fst x) = Some k"
      using p by (auto simp: is_pending_def) (metis weak_map_of_SomeI prod.collapse)
    then have c': "out = [if ca_has_timeout k then Callback (fst x) (Some Ec_timed_out) [] else Callback (fst x) None (snd x)]"
      "c' = c\<lparr>cl_reads := [Cl_read_head], cl_body := snd x @ drop (length (snd x)) (cl_body c),
        cl_temp_req_id := fst x, cl_callback_map := filter (\<lambda>y. fst y \<noteq> fst x) (cl_callback_map c)\<rparr>"
      using cl_callback_answered [OF assms(2,3) False k, THEN iffD1, OF step] by auto
    have "cl_ids (length ids) c'"
      using assms(1) distinct by (auto simp: c' calls_ok_def distinct_map_filter intro!: cl_ids_frame [of "length ids" c])
    moreover have "id_limit c' = id_limit c" by (simp add: c'(2) id_limit_def fun_eq_iff)
    moreover have "\<forall>y\<in>set (del @ [x]). drop_bit 63 (fst y) = 0 \<longrightarrow> cl_futures c' (fst y) = Fs_ready \<lparr>rr_data = snd y\<rparr>"
      using assms(1) False by (auto simp: c' calls_ok_def)
    moreover have keep: "is_pending c i \<Longrightarrow> i \<noteq> fst x \<Longrightarrow> is_pending c' i" for i
      by (auto simp: c'(2) is_pending_def image_iff split: if_splits)
    have "\<forall>i\<in>set ids - fst ` set (del @ [x]). is_pending c' i"
      using assms(1) keep by (simp add: calls_ok_def)
    moreover have "list_all2 called_back (outs @ out) (filter (\<lambda>y. drop_bit 63 (fst y) \<noteq> 0) (del @ [x]))"
      using assms(1) False by (auto simp: c'(1) calls_ok_def intro!: list_all2_appendI)
    ultimately show ?thesis
      using assms(1,2,4) by (simp add: calls_ok_def) (simp add: c'(2) cl_stable_def)
  qed
qed

end
