(* ===== verification/Session_Safety.thy ===== *)
theory Session_Safety
  imports Session
begin

section \<open>Every caller gets the answer to its own call\<close>

text \<open>
  The invariant of the system of \<^verbatim>\<open>Session\<close>, whatever its steps: both streams hold whole frames, the
  requests that the server has not routed yet and the responses that the client has not read yet, in
  order; what the server has routed is a prefix of the calls; and the calls whose answer the client has
  read are answered, all others pending. The two properties say what this means for the callers, and
  that nothing is left unanswered.
\<close>

subsection \<open>The invariant\<close>

definition request_frame :: "('a, 'r) msgpack \<Rightarrow> 'a rpc_call \<Rightarrow> frame" where
  "request_frame mp x = cl_frame (request_of mp x)"

definition answer_frame :: "u64 \<times> bytes \<Rightarrow> frame" where
  "answer_frame x = cn_frame (answer_msg x)"

definition call_fits :: "('a, 'r) msgpack \<Rightarrow> 'a rpc_call \<Rightarrow> bool" where
  "call_fits mp x \<longleftrightarrow> mp_pack_args mp (snd (snd x)) \<noteq> [] \<and> length (mp_pack_args mp (snd (snd x))) < MAX_BUF_LEN"

definition answer_fits :: "u64 \<times> bytes \<Rightarrow> bool" where
  "answer_fits x \<longleftrightarrow> snd x \<noteq> [] \<and> length (snd x) < MAX_BUF_LEN"

definition unserved :: "'a session \<Rightarrow> 'a rpc_call list" where
  "unserved t = drop (length (ss_served t)) (ss_calls t)"

definition ss_ok :: "('a, 'r) msgpack \<Rightarrow> router \<Rightarrow> nat \<Rightarrow> 'a session \<Rightarrow> (u64 \<times> bytes) list \<Rightarrow> (u64 \<times> bytes) list \<Rightarrow> bool" where
  "ss_ok mp r self t del und \<longleftrightarrow>
     cl_stable (ss_client t) \<and> cn_stable (ss_conn t) \<and>
     (\<forall>x\<in>set (ss_calls t). call_fits mp x) \<and>
     (\<forall>x\<in>set und. answer_fits x) \<and>
     ss_served t = map (routed_as mp) (take (length (ss_served t)) (ss_calls t)) \<and>
     answers mp r self (ss_served t) = del @ und \<and>
     up.link_ok (ss_client t) (ss_conn t) (map (request_frame mp) (unserved t)) (ss_up t) (ss_up_tx t) \<and>
     down.link_ok (ss_conn t) (ss_client t) (map answer_frame und) (ss_down t) (ss_down_tx t) \<and>
     calls_ok (ss_client t) (map fst (ss_calls t)) del (ss_callbacks t)"

lemma request_frame_simps [simp]:
  "hd_magic (fst (request_frame mp x)) = MAGIC_NUM" "hd_req_type (fst (request_frame mp x)) = req_res"
  "hd_req_id (fst (request_frame mp x)) = fst x" "hd_func_id (fst (request_frame mp x)) = md5_hash32 (fst (snd x))"
  "snd (request_frame mp x) = mp_pack_args mp (snd (snd x))"
  by (auto simp: request_frame_def request_of_def cl_frame_def split: prod.split)

lemma answer_frame_simps [simp]:
  "hd_req_type (fst (answer_frame x)) = req_res" "hd_req_id (fst (answer_frame x)) = fst x"
  "snd (answer_frame x) = snd x"
  by (simp_all add: answer_frame_def cn_frame_def)

lemma request_frame_len: "call_fits mp x \<Longrightarrow> unat (hd_body_len (fst (request_frame mp x))) = length (mp_pack_args mp (snd (snd x)))"
  by (auto simp: request_frame_def request_of_def cl_frame_def call_fits_def frame_len split: prod.split)

lemma answer_frame_len: "answer_fits x \<Longrightarrow> unat (hd_body_len (fst (answer_frame x))) = length (snd x)"
  by (simp add: answer_frame_def cn_frame_def answer_fits_def frame_len)

lemma served_le: "ss_ok mp r self t del und \<Longrightarrow> length (ss_served t) \<le> length (ss_calls t)"
proof -
  assume "ss_ok mp r self t del und"
  then have "ss_served t = map (routed_as mp) (take (length (ss_served t)) (ss_calls t))"
    unfolding ss_ok_def by blast
  from arg_cong [OF this, of length] show ?thesis by simp
qed

subsection \<open>The user's steps keep it\<close>

lemma ss_ok_new_call:
  assumes "ss_ok mp r self t del und" and "cl_stable c" and "cl_reads c = cl_reads (ss_client t)"
    and "cl_outbox c = cl_outbox (ss_client t) @ [request_of mp x]" and "call_fits mp x"
    and "calls_ok c (map fst (ss_calls t) @ [fst x]) del (ss_callbacks t)"
  shows "ss_ok mp r self (t\<lparr>ss_client := c, ss_calls := ss_calls t @ [x]\<rparr>) del und"
proof -
  let ?t = "t\<lparr>ss_client := c, ss_calls := ss_calls t @ [x]\<rparr>"
  have "up.link_ok (ss_client t) (ss_conn t) (map (request_frame mp) (unserved t)) (ss_up t) (ss_up_tx t)"
    using assms(1) by (simp add: ss_ok_def)
  from up.link_enqueue(1) [OF this, of c "[request_frame mp x]"]
  have "up.link_ok c (ss_conn t) (map (request_frame mp) (unserved ?t)) (ss_up t) (ss_up_tx t)"
    using assms(4) served_le [OF assms(1)] by (simp add: unserved_def request_frame_def)
  moreover have "cl_reading pending c = cl_reading pending (ss_client t)" for pending
    using assms(3) by (simp add: cl_reading_def)
  note down.link_receiver(1) [OF this]
  ultimately show ?thesis
    using assms(1,2,5,6) served_le [OF assms(1)] by (simp add: ss_ok_def)
qed

lemma ss_ok_user:
  assumes "ss_user mp t t'" and "ss_ok mp r self t del und" and "length (ss_calls t') < 2 ^ 63"
    and "\<forall>a. mp_pack_args mp a \<noteq> []"
  shows "ss_ok mp r self t' del und"
proof -
  have calls: "calls_ok (ss_client t) (map fst (ss_calls t)) del (ss_callbacks t)" and c: "cl_stable (ss_client t)"
    using assms(2) by (simp_all add: ss_ok_def)
  from assms(1) show ?thesis
  proof cases
    case (call name args c i)
    have "length (map fst (ss_calls t)) < 2 ^ 63 - 1" using assms(3) call(1) by simp
    note k = calls_ok_call [OF calls c this call(2)]
    show ?thesis
      unfolding call(1) using assms(4) k by (intro ss_ok_new_call [OF assms(2)]) (simp_all add: call_fits_def)
  next
    case (call_cb TIMEOUT name args c)
    have "length (map fst (ss_calls t)) < 2 ^ 63 - 1" using assms(3) call_cb(1) by simp
    note k = calls_ok_call_cb [OF calls c this call_cb(2)]
    show ?thesis
      unfolding call_cb(1) using assms(4) k by (intro ss_ok_new_call [OF assms(2)]) (simp_all add: call_fits_def)
  next
    case (call_timer i out c)
    note k = call_timer_same [OF call_timer(2) c]
    have "cl_reading pending c = cl_reading pending (ss_client t)" for pending by (simp add: cl_reading_def k(3))
    note d = down.link_receiver(1) [OF this]
    have "map cl_frame (cl_outbox c) = map cl_frame (cl_outbox (ss_client t))" by (simp add: k(4))
    note u = up.link_sender(1) [OF this]
    show ?thesis
      using assms(2) call_timer(1) k(2) calls_ok_same [OF _ k(1)] by (simp add: ss_ok_def unserved_def u d)
  qed
qed

subsection \<open>Work\<close>

text \<open>How many steps of the network are left: what is left on the two streams, and for a request that will be
  answered the work of its answer.\<close>

definition answered_with :: "('a, 'r) msgpack \<Rightarrow> router \<Rightarrow> nat \<Rightarrow> 'a rpc_call \<Rightarrow> (u64 \<times> bytes) list" where
  "answered_with mp r self x = (case answer mp r self (routed_as mp x) of None \<Rightarrow> [] | Some y \<Rightarrow> [y])"

definition answer_work :: "('a, 'r) msgpack \<Rightarrow> router \<Rightarrow> nat \<Rightarrow> 'a rpc_call \<Rightarrow> nat" where
  "answer_work mp r self x = sum_list (map (\<lambda>f. frame_work f + 2) (map answer_frame (answered_with mp r self x)))"

definition ss_work :: "('a, 'r) msgpack \<Rightarrow> router \<Rightarrow> nat \<Rightarrow> 'a session \<Rightarrow> (u64 \<times> bytes) list \<Rightarrow> nat" where
  "ss_work mp r self t und =
     up.link_work (ss_client t) (ss_conn t) (map (request_frame mp) (unserved t)) (ss_up_tx t) +
     sum_list (map (answer_work mp r self) (unserved t)) +
     down.link_work (ss_conn t) (ss_client t) (map answer_frame und) (ss_down_tx t)"

subsection \<open>The reads of the two ends\<close>

lemma unserved_fits: "ss_ok mp r self t del und \<Longrightarrow> unserved t = x # xs \<Longrightarrow> x \<in> set (ss_calls t) \<and> call_fits mp x"
  using in_set_dropD [of x "length (ss_served t)" "ss_calls t"] by (simp add: ss_ok_def unserved_def)

lemma request_header:
  assumes "call_fits mp x"
  shows "0 < unat (hd_body_len (fst (request_frame mp x)))" "unat (hd_body_len (fst (request_frame mp x))) < MAX_BUF_LEN"
  using assms by (simp_all add: request_frame_len) (auto simp: call_fits_def)

lemma answer_header:
  assumes "answer_fits x"
  shows "0 < unat (hd_body_len (fst (answer_frame x)))" "unat (hd_body_len (fst (answer_frame x))) < MAX_BUF_LEN"
  using assms by (simp_all add: answer_frame_len) (auto simp: answer_fits_def)

text \<open>A header that the connection reads is the header of the first request not served.\<close>

lemma server_head_at:
  assumes "ss_ok mp r self t del und" and "cn_reading None (ss_conn t)" and "HEAD_LEN \<le> length (ss_up t)"
  obtains f where "hd_magic (fst f) = MAGIC_NUM" and "cn_reading (Some f) (cn_await_body (fst f) (ss_conn t\<lparr>cn_reads := []\<rparr>))"
    and "\<And>out s'. cn_step mp r self (ss_conn t) (E_head None (take HEAD_LEN (ss_up t))) out s' \<longleftrightarrow>
           out = [] \<and> s' = cn_await_body (fst f) (ss_conn t\<lparr>cn_reads := []\<rparr>)"
    and "\<And>s'. cn_reading (Some f) s' \<Longrightarrow>
           up.link_ok (ss_client t) s' (map (request_frame mp) (unserved t)) (drop HEAD_LEN (ss_up t)) (ss_up_tx t) \<and>
           up.link_work (ss_client t) (ss_conn t) (map (request_frame mp) (unserved t)) (ss_up_tx t) =
             Suc (up.link_work (ss_client t) s' (map (request_frame mp) (unserved t)) (ss_up_tx t))"
proof -
  have link: "up.link_ok (ss_client t) (ss_conn t) (map (request_frame mp) (unserved t)) (ss_up t) (ss_up_tx t)"
    and s: "cn_stable (ss_conn t)"
    using assms(1) by (simp_all add: ss_ok_def)
  obtain f fs p q where f: "map (request_frame mp) (unserved t) = f # fs" "take HEAD_LEN (ss_up t) = encode_header p q (fst f)"
    and after: "\<And>s'. cn_reading (Some f) s' \<Longrightarrow>
           up.link_ok (ss_client t) s' (map (request_frame mp) (unserved t)) (drop HEAD_LEN (ss_up t)) (ss_up_tx t) \<and>
           up.link_work (ss_client t) (ss_conn t) (map (request_frame mp) (unserved t)) (ss_up_tx t) =
             Suc (up.link_work (ss_client t) s' (map (request_frame mp) (unserved t)) (ss_up_tx t))"
    using up.link_head [OF link assms(2,3)] by blast
  obtain x xs where x: "unserved t = x # xs" "f = request_frame mp x" using f(1) by (cases "unserved t") auto
  have fits: "call_fits mp x" using unserved_fits [OF assms(1) x(1)] by blast
  have magic: "hd_magic (fst f) = MAGIC_NUM" by (simp add: x(2))
  have read: "cn_reading (Some f) (cn_await_body (fst f) (ss_conn t\<lparr>cn_reads := []\<rparr>))"
    using fits x(2) by (simp add: cn_reading_def request_frame_len)
  show thesis
    by (rule that [OF magic read _ after]) (simp_all add: f(2) x(2) cn_head_iff [OF s assms(2) _ request_header [OF fits]])
qed

text \<open>A body that it reads is the packed arguments of this request; the router's answer, if there is one, is
  queued.\<close>

lemma server_body_at:
  assumes "ss_ok mp r self t del und" and "\<not> cn_reading None (ss_conn t)"
  obtains x n where "unserved t = x # tl (unserved t)"
    and "cn_reads (ss_conn t) = [Read_body (md5_hash32 (fst (snd x))) n]" and "cn_req_id (ss_conn t) = fst x"
    and "n \<le> length (ss_up t) \<Longrightarrow> take n (ss_up t) = mp_pack_args mp (snd (snd x))"
    and "\<And>out s'. n \<le> length (ss_up t) \<Longrightarrow> cn_step mp r self (ss_conn t) (E_body None (take n (ss_up t))) out s' \<longleftrightarrow>
           out = [] \<and>
           (case answer mp r self (routed_as mp x) of
              None \<Rightarrow> s' = cn_after_body (take n (ss_up t)) (ss_conn t)
            | Some (i, result) \<Rightarrow> response i result req_res (cn_after_body (take n (ss_up t)) (ss_conn t)) = Some s')"
    and "\<And>s'. n \<le> length (ss_up t) \<Longrightarrow> cn_reading None s' \<Longrightarrow>
           up.link_ok (ss_client t) s' (map (request_frame mp) (tl (unserved t))) (drop n (ss_up t)) (ss_up_tx t) \<and>
           up.link_work (ss_client t) (ss_conn t) (map (request_frame mp) (unserved t)) (ss_up_tx t) =
             Suc (up.link_work (ss_client t) s' (map (request_frame mp) (tl (unserved t))) (ss_up_tx t))"
proof -
  have link: "up.link_ok (ss_client t) (ss_conn t) (map (request_frame mp) (unserved t)) (ss_up t) (ss_up_tx t)"
    and s: "cn_stable (ss_conn t)"
    using assms(1) by (simp_all add: ss_ok_def)
  obtain f where read: "cn_reading (Some f) (ss_conn t)"
    and all: "map (request_frame mp) (unserved t) = f # tl (map (request_frame mp) (unserved t))"
    and data: "length (snd f) \<le> length (ss_up t) \<Longrightarrow> take (length (snd f)) (ss_up t) = snd f"
    and after: "\<And>s'. length (snd f) \<le> length (ss_up t) \<Longrightarrow> cn_reading None s' \<Longrightarrow>
           up.link_ok (ss_client t) s' (tl (map (request_frame mp) (unserved t))) (drop (length (snd f)) (ss_up t)) (ss_up_tx t) \<and>
           up.link_work (ss_client t) (ss_conn t) (map (request_frame mp) (unserved t)) (ss_up_tx t) =
             Suc (up.link_work (ss_client t) s' (tl (map (request_frame mp) (unserved t))) (ss_up_tx t))"
    using up.link_body [OF link assms(2)] by blast
  obtain x where x: "unserved t = x # tl (unserved t)" "f = request_frame mp x"
    using all by (cases "unserved t") auto
  have reads: "cn_reads (ss_conn t) = [Read_body (md5_hash32 (fst (snd x))) (length (snd f))]"
    "cn_req_type (ss_conn t) = req_res" "cn_req_id (ss_conn t) = fst x"
    using read x(2) by (simp_all add: cn_reading_def)
  have route: "route mp r (md5_hash32 (fst (snd x))) (snd f) (Some self) (cn_req_id (ss_conn t)) = answer mp r self (routed_as mp x)"
    using x(2) reads(3) by (simp add: answer_def routed_as_def split: prod.split)
  have step: "cn_step mp r self (ss_conn t) (E_body None (snd f)) out s' \<longleftrightarrow> out = [] \<and>
      (case answer mp r self (routed_as mp x) of
         None \<Rightarrow> s' = cn_after_body (snd f) (ss_conn t)
       | Some (i, result) \<Rightarrow> response i result req_res (cn_after_body (snd f) (ss_conn t)) = Some s')" for out s'
    using cn_body_iff [OF s reads(1,2), of mp r self out s', unfolded route] .
  show thesis
  proof (rule that [OF x(1) reads(1,3)])
    show "take (length (snd f)) (ss_up t) = mp_pack_args mp (snd (snd x))" if "length (snd f) \<le> length (ss_up t)"
      using data [OF that] x(2) by simp
  qed (use data step after in \<open>simp_all only: map_tl\<close>)
qed

text \<open>A header that the client reads is that of the first answer not delivered.\<close>

lemma client_head_at:
  assumes "ss_ok mp r self t del und" and "cl_reading None (ss_client t)" and "HEAD_LEN \<le> length (ss_down t)"
  obtains f where "cl_reading (Some f) (cl_await_body (fst f) (ss_client t\<lparr>cl_reads := []\<rparr>))"
    and "\<And>out c'. cl_step mp (ss_client t) (Ev_head None (take HEAD_LEN (ss_down t))) out c' \<longleftrightarrow>
           out = [] \<and> c' = cl_await_body (fst f) (ss_client t\<lparr>cl_reads := []\<rparr>)"
    and "\<And>c'. cl_reading (Some f) c' \<Longrightarrow>
           down.link_ok (ss_conn t) c' (map answer_frame und) (drop HEAD_LEN (ss_down t)) (ss_down_tx t) \<and>
           down.link_work (ss_conn t) (ss_client t) (map answer_frame und) (ss_down_tx t) =
             Suc (down.link_work (ss_conn t) c' (map answer_frame und) (ss_down_tx t))"
proof -
  have link: "down.link_ok (ss_conn t) (ss_client t) (map answer_frame und) (ss_down t) (ss_down_tx t)"
    and c: "cl_stable (ss_client t)" and fits: "\<forall>x\<in>set und. answer_fits x"
    using assms(1) by (simp_all add: ss_ok_def)
  obtain f fs p q where f: "map answer_frame und = f # fs" "take HEAD_LEN (ss_down t) = encode_header p q (fst f)"
    and after: "\<And>c'. cl_reading (Some f) c' \<Longrightarrow>
           down.link_ok (ss_conn t) c' (map answer_frame und) (drop HEAD_LEN (ss_down t)) (ss_down_tx t) \<and>
           down.link_work (ss_conn t) (ss_client t) (map answer_frame und) (ss_down_tx t) =
             Suc (down.link_work (ss_conn t) c' (map answer_frame und) (ss_down_tx t))"
    using down.link_head [OF link assms(2,3)] by blast
  obtain x xs where x: "und = x # xs" "f = answer_frame x" using f(1) by (cases und) auto
  have fit: "answer_fits x" using fits x(1) by simp
  have read: "cl_reading (Some f) (cl_await_body (fst f) (ss_client t\<lparr>cl_reads := []\<rparr>))"
    using fit x(2) by (simp add: cl_reading_def answer_frame_len)
  show thesis
    by (rule that [OF read _ after]) (simp_all add: f(2) x(2) cl_head_iff [OF c assms(2) answer_header [OF fit]])
qed

subsection \<open>The network's steps keep the invariant and shrink the work\<close>

lemma ss_ok_answers:
  assumes "ss_ok mp r self t del und" and "msgpack_ok mp" and "router_answers r"
  shows "distinct (map fst (del @ und))" and "\<forall>x\<in>set und. fst x \<in> set (map fst (ss_calls t))"
proof -
  have served: "map fst (ss_served t) = take (length (ss_served t)) (map fst (ss_calls t))"
  proof -
    have "map fst (map (routed_as mp) xs) = map fst xs" for xs
      by (simp add: routed_as_def case_prod_beta)
    moreover have "ss_served t = map (routed_as mp) (take (length (ss_served t)) (ss_calls t))"
      using assms(1) unfolding ss_ok_def by blast
    ultimately show ?thesis unfolding take_map by metis
  qed
  obtain z where z: "map fst (del @ und) = map fst (filter z (ss_served t))"
    using answers_ids [OF assms(2,3)] assms(1) unfolding ss_ok_def by metis
  have "distinct (map fst (ss_calls t))" using assms(1) by (simp add: ss_ok_def calls_ok_def)
  then show "distinct (map fst (del @ und))"
    unfolding z using served by (intro distinct_map_filter) (metis distinct_take)
  have "set (map fst (del @ und)) \<subseteq> set (map fst (ss_served t))" unfolding z by auto
  then have "set (map fst (del @ und)) \<subseteq> set (map fst (ss_calls t))"
    unfolding served using set_take_subset by fast
  then show "\<forall>x\<in>set und. fst x \<in> set (map fst (ss_calls t))" by auto
qed

lemma client_body_at:
  assumes "ss_ok mp r self t del und" and "msgpack_ok mp" and "router_answers r" and "\<not> cl_reading None (ss_client t)"
  obtains x und' n where "und = x # und'" and "cl_reads (ss_client t) = [Cl_read_body (fst x) req_res n]"
    and "n \<le> length (ss_down t) \<Longrightarrow> \<exists>out c'. cl_step mp (ss_client t) (Ev_body None (take n (ss_down t))) out c'"
    and "\<And>out c'. n \<le> length (ss_down t) \<Longrightarrow> cl_step mp (ss_client t) (Ev_body None (take n (ss_down t))) out c' \<Longrightarrow>
           calls_ok c' (map fst (ss_calls t)) (del @ [x]) (ss_callbacks t @ out) \<and> cl_stable c' \<and>
           cl_outbox c' = cl_outbox (ss_client t) \<and>
           down.link_ok (ss_conn t) c' (map answer_frame und') (drop n (ss_down t)) (ss_down_tx t) \<and>
           down.link_work (ss_conn t) (ss_client t) (map answer_frame und) (ss_down_tx t) =
             Suc (down.link_work (ss_conn t) c' (map answer_frame und') (ss_down_tx t))"
proof -
  have link: "down.link_ok (ss_conn t) (ss_client t) (map answer_frame und) (ss_down t) (ss_down_tx t)"
    and c: "cl_stable (ss_client t)" and calls: "calls_ok (ss_client t) (map fst (ss_calls t)) del (ss_callbacks t)"
    using assms(1) by (simp_all add: ss_ok_def)
  obtain f where read: "cl_reading (Some f) (ss_client t)" and all: "map answer_frame und = f # tl (map answer_frame und)"
    and data: "length (snd f) \<le> length (ss_down t) \<Longrightarrow> take (length (snd f)) (ss_down t) = snd f"
    and after: "\<And>c'. length (snd f) \<le> length (ss_down t) \<Longrightarrow> cl_reading None c' \<Longrightarrow>
           down.link_ok (ss_conn t) c' (tl (map answer_frame und)) (drop (length (snd f)) (ss_down t)) (ss_down_tx t) \<and>
           down.link_work (ss_conn t) (ss_client t) (map answer_frame und) (ss_down_tx t) =
             Suc (down.link_work (ss_conn t) c' (tl (map answer_frame und)) (ss_down_tx t))"
    using down.link_body [OF link assms(4)] by blast
  obtain x und' where x: "und = x # und'" "f = answer_frame x" using all by (cases und) auto
  have reads: "cl_reads (ss_client t) = [Cl_read_body (fst x) req_res (length (snd x))]"
    using read x(2) by (simp add: cl_reading_def)
  have mem: "fst x \<in> set (map fst (ss_calls t))" "fst x \<notin> fst ` set del"
    using ss_ok_answers [OF assms(1-3)] x(1) by auto
  note k = calls_ok_answered [OF calls c reads mem]
  show thesis
  proof (rule that [OF x(1) reads])
    assume len: "length (snd x) \<le> length (ss_down t)"
    then have d: "take (length (snd x)) (ss_down t) = snd x" using data x(2) by simp
    show "\<exists>out c'. cl_step mp (ss_client t) (Ev_body None (take (length (snd x)) (ss_down t))) out c'"
      using k(1) d by simp
    fix out c' assume "cl_step mp (ss_client t) (Ev_body None (take (length (snd x)) (ss_down t))) out c'"
    note k' = k(2) [OF this [unfolded d]]
    then have "cl_reading None c'" by (simp add: cl_reading_def)
    from after [OF _ this] len x k'
    show "calls_ok c' (map fst (ss_calls t)) (del @ [x]) (ss_callbacks t @ out) \<and> cl_stable c' \<and>
           cl_outbox c' = cl_outbox (ss_client t) \<and>
           down.link_ok (ss_conn t) c' (map answer_frame und') (drop (length (snd x)) (ss_down t)) (ss_down_tx t) \<and>
           down.link_work (ss_conn t) (ss_client t) (map answer_frame und) (ss_down_tx t) =
             Suc (down.link_work (ss_conn t) c' (map answer_frame und') (ss_down_tx t))"
      by simp
  qed
qed

lemma ss_okD:
  assumes "ss_ok mp r self t del und"
  shows "cl_stable (ss_client t)" and "cn_stable (ss_conn t)"
    and "up.link_ok (ss_client t) (ss_conn t) (map (request_frame mp) (unserved t)) (ss_up t) (ss_up_tx t)"
    and "down.link_ok (ss_conn t) (ss_client t) (map answer_frame und) (ss_down t) (ss_down_tx t)"
    and "calls_ok (ss_client t) (map fst (ss_calls t)) del (ss_callbacks t)"
    and "ss_served t = map (routed_as mp) (take (length (ss_served t)) (ss_calls t))"
  using assms unfolding ss_ok_def by blast+

lemmas ss_parts = ss_ok_def ss_work_def unserved_def

lemma ss_ok_up_end:
  assumes "ss_ok mp r self t del und" and "msgpack_ok mp" and "router_answers r"
    and "ss_up_tx t = Some []"
    and "cl_step mp (ss_client t) (Ev_written None) out c'"
    and t1: "t' = t\<lparr>ss_client := c', ss_up_tx := None\<rparr>"
  shows "\<exists>del' und'. ss_ok mp r self t' del' und' \<and> ss_work mp r self t und = Suc (ss_work mp r self t' und')"
proof -
  note c = ss_okD(1) [OF assms(1)] and s = ss_okD(2) [OF assms(1)] and up = ss_okD(3) [OF assms(1)]
    and down = ss_okD(4) [OF assms(1)] and calls = ss_okD(5) [OF assms(1)] and served = ss_okD(6) [OF assms(1)]
  obtain m ms where m: "cl_outbox (ss_client t) = m # ms"
    using up.link_end_queue [OF up [unfolded assms(4)]] by (cases "cl_outbox (ss_client t)") auto
  note w = cl_written [OF c m]
  have c': "c' = cl_sent (ss_client t)" using assms(5) w(1) by blast
  have "map cl_frame (cl_outbox c') = tl (map cl_frame (cl_outbox (ss_client t)))" using w(3) c' m by simp
  note k = up.link_end [OF up [unfolded assms(4)] this]
  have "cl_reading pending c' = cl_reading pending (ss_client t)" for pending
    using w(4) c' by (simp add: cl_reading_def)
  note d = down.link_receiver [OF this]
  show ?thesis
    using assms(1) t1 assms(4) k w(2) calls_ok_same [OF calls w(5)] c'
    by (intro exI [of _ del] exI [of _ und]) (simp add: ss_parts d [unfolded c'])
qed

lemma ss_ok_server_head:
  assumes "ss_ok mp r self t del und" and "msgpack_ok mp" and "router_answers r"
    and "HEAD_LEN \<le> length (ss_up t)"
    and "cn_step mp r self (ss_conn t) (E_head None (take HEAD_LEN (ss_up t))) out s'"
    and t1: "t' = t\<lparr>ss_conn := s', ss_up := drop HEAD_LEN (ss_up t)\<rparr>"
  shows "\<exists>del' und'. ss_ok mp r self t' del' und' \<and> ss_work mp r self t und = Suc (ss_work mp r self t' und')"
proof -
  note c = ss_okD(1) [OF assms(1)] and s = ss_okD(2) [OF assms(1)] and up = ss_okD(3) [OF assms(1)]
    and down = ss_okD(4) [OF assms(1)] and calls = ss_okD(5) [OF assms(1)] and served = ss_okD(6) [OF assms(1)]
  have "hd (cn_reads (ss_conn t)) = Read_head" using assms(5) by (auto elim: cn_stepE)
  moreover obtain pending where "cn_reading pending (ss_conn t)" using up unfolding up.link_ok_def by blast
  ultimately have "cn_reading None (ss_conn t)" by (cases pending) (simp_all add: cn_reading_def)
  then obtain f where read: "cn_reading (Some f) (cn_await_body (fst f) (ss_conn t\<lparr>cn_reads := []\<rparr>))"
    and s': "s' = cn_await_body (fst f) (ss_conn t\<lparr>cn_reads := []\<rparr>)"
    and k: "up.link_ok (ss_client t) s' (map (request_frame mp) (unserved t)) (drop HEAD_LEN (ss_up t)) (ss_up_tx t)"
      "up.link_work (ss_client t) (ss_conn t) (map (request_frame mp) (unserved t)) (ss_up_tx t) =
         Suc (up.link_work (ss_client t) s' (map (request_frame mp) (unserved t)) (ss_up_tx t))"
    using server_head_at [OF assms(1) _ assms(4)] assms(5) by metis
  have "cn_stable s'" using s cn_ok_step [OF assms(5)] s' by (simp add: cn_stable_def)
  moreover have "map cn_frame (cn_write_queue s') = map cn_frame (cn_write_queue (ss_conn t))" using s' by simp
  note d = down.link_sender [OF this]
  ultimately show ?thesis
    using assms(1) t1 k by (intro exI [of _ del] exI [of _ und]) (simp add: ss_parts d)
qed

lemma ss_ok_server_body:
  assumes "ss_ok mp r self t del und" and "msgpack_ok mp" and "router_answers r"
    and "cn_reads (ss_conn t) = Read_body f n # rest"
    and "n \<le> length (ss_up t)"
    and "cn_step mp r self (ss_conn t) (E_body None (take n (ss_up t))) out s'"
    and t1: "t' = t\<lparr>ss_conn := s', ss_up := drop n (ss_up t),
      ss_served := ss_served t @ [(cn_req_id (ss_conn t), f, take n (ss_up t))]\<rparr>"
  shows "\<exists>del' und'. ss_ok mp r self t' del' und' \<and> ss_work mp r self t und = Suc (ss_work mp r self t' und')"
proof -
  note c = ss_okD(1) [OF assms(1)] and s = ss_okD(2) [OF assms(1)] and up = ss_okD(3) [OF assms(1)]
    and down = ss_okD(4) [OF assms(1)] and calls = ss_okD(5) [OF assms(1)] and served = ss_okD(6) [OF assms(1)]
  have "\<not> cn_reading None (ss_conn t)" using assms(4) by (simp add: cn_reading_def)
  then obtain x m where x: "unserved t = x # tl (unserved t)"
    "cn_reads (ss_conn t) = [Read_body (md5_hash32 (fst (snd x))) m]" "cn_req_id (ss_conn t) = fst x"
    and data: "m \<le> length (ss_up t) \<Longrightarrow> take m (ss_up t) = mp_pack_args mp (snd (snd x))"
    and step: "\<And>out s'. m \<le> length (ss_up t) \<Longrightarrow> cn_step mp r self (ss_conn t) (E_body None (take m (ss_up t))) out s' \<longleftrightarrow>
         out = [] \<and>
         (case answer mp r self (routed_as mp x) of
            None \<Rightarrow> s' = cn_after_body (take m (ss_up t)) (ss_conn t)
          | Some (i, result) \<Rightarrow> response i result req_res (cn_after_body (take m (ss_up t)) (ss_conn t)) = Some s')"
    and after: "\<And>s'. m \<le> length (ss_up t) \<Longrightarrow> cn_reading None s' \<Longrightarrow>
         up.link_ok (ss_client t) s' (map (request_frame mp) (tl (unserved t))) (drop m (ss_up t)) (ss_up_tx t) \<and>
         up.link_work (ss_client t) (ss_conn t) (map (request_frame mp) (unserved t)) (ss_up_tx t) =
           Suc (up.link_work (ss_client t) s' (map (request_frame mp) (tl (unserved t))) (ss_up_tx t))"
    using server_body_at [OF assms(1)] by blast
  have mn: "m = n" "f = md5_hash32 (fst (snd x))" using x(2) assms(4) by auto
  have routed: "(cn_req_id (ss_conn t), f, take n (ss_up t)) = routed_as mp x"
    using x(3) mn data assms(5) by (simp add: routed_as_def split: prod.split)
  have s': "cn_write_queue s' = cn_write_queue (ss_conn t) @ map answer_msg (answered_with mp r self x) \<and>
      cn_reads s' = [Read_head] \<and> \<not> cn_has_closed s' \<and> (\<forall>y\<in>set (answered_with mp r self x). answer_fits y)"
  proof (cases "answer mp r self (routed_as mp x)")
    case None
    then show ?thesis using s assms(5,6) step mn by (simp add: answered_with_def cn_stable_def)
  next
    case (Some y)
    then have "response (fst y) (snd y) req_res (cn_after_body (take n (ss_up t)) (ss_conn t)) = Some s'"
      using assms(5,6) step mn by (simp add: case_prod_beta)
    from response_simps(1-3) [OF this] response_Some [OF this] show ?thesis
      using answer_Some(2) [OF Some assms(2,3)] s Some by (simp add: answered_with_def answer_fits_def cn_stable_def)
  qed
  have "cn_reading None s'" using s' by (simp add: cn_reading_def)
  note k = after [OF _ this, unfolded mn(1), OF assms(5)]
  have "map cn_frame (cn_write_queue s') = map cn_frame (cn_write_queue (ss_conn t)) @
      map answer_frame (answered_with mp r self x)"
    using s' by (simp add: answer_frame_def)
  note d = down.link_enqueue [OF down this]
  have stable: "cn_stable s'" using s cn_ok_step [OF assms(6)] s' by (simp add: cn_stable_def)
  have tl: "tl (unserved t) = drop (Suc (length (ss_served t))) (ss_calls t)"
    by (simp add: unserved_def drop_Suc tl_drop)
  have a: "answers mp r self (ss_served t @ [routed_as mp x]) = del @ und @ answered_with mp r self x"
    using assms(1) by (simp add: answers_snoc answered_with_def ss_ok_def)
  have "take (Suc (length (ss_served t))) (ss_calls t) = take (length (ss_served t)) (ss_calls t) @ [x]"
    using x(1) unfolding unserved_def
    by (metis append_eq_conv_conj append_take_drop_id hd_drop_conv_nth list.sel(1) list.distinct(1)
        drop_all linorder_not_le take_Suc_conv_app_nth)
  then have served': "map (routed_as mp) (take (Suc (length (ss_served t))) (ss_calls t)) = ss_served t @ [routed_as mp x]"
    using served by simp
  have un: "unserved t' = tl (unserved t)" unfolding tl unfolding unserved_def t1 by simp
  have "ss_ok mp r self t' del (und @ answered_with mp r self x)"
    unfolding ss_ok_def un using c stable s' k d(1) a calls assms(1)
    by (simp add: t1 routed served' ss_ok_def ball_Un)
  moreover have "ss_work mp r self t und = Suc (ss_work mp r self t' (und @ answered_with mp r self x))"
  proof -
    have "sum_list (map (answer_work mp r self) (unserved t)) =
        answer_work mp r self x + sum_list (map (answer_work mp r self) (tl (unserved t)))"
      by (subst x(1)) simp
    then show ?thesis
      using k d(2) unfolding ss_work_def un answer_work_def by (simp add: t1)
  qed
  ultimately show ?thesis by blast
qed

lemma ss_ok_down_end:
  assumes "ss_ok mp r self t del und" and "msgpack_ok mp" and "router_answers r"
    and "ss_down_tx t = Some []"
    and "cn_step mp r self (ss_conn t) (E_write None) out s'"
    and t1: "t' = t\<lparr>ss_conn := s', ss_down_tx := None\<rparr>"
  shows "\<exists>del' und'. ss_ok mp r self t' del' und' \<and> ss_work mp r self t und = Suc (ss_work mp r self t' und')"
proof -
  note c = ss_okD(1) [OF assms(1)] and s = ss_okD(2) [OF assms(1)] and up = ss_okD(3) [OF assms(1)]
    and down = ss_okD(4) [OF assms(1)] and calls = ss_okD(5) [OF assms(1)] and served = ss_okD(6) [OF assms(1)]
  obtain m ms where m: "cn_write_queue (ss_conn t) = m # ms"
    using down.link_end_queue [OF down [unfolded assms(4)]] by (cases "cn_write_queue (ss_conn t)") auto
  note w = cn_written [OF s m]
  have s': "s' = cn_sent (ss_conn t)" using assms(5) w(1) by blast
  have "map cn_frame (cn_write_queue s') = tl (map cn_frame (cn_write_queue (ss_conn t)))" using w(3) s' m by simp
  note k = down.link_end [OF down [unfolded assms(4)] this]
  have "cn_reading pending s' = cn_reading pending (ss_conn t)" for pending using w(4) s' by simp
  note u = up.link_receiver [OF this]
  show ?thesis
    using assms(1) t1 assms(4) k w(2) s'
    by (intro exI [of _ del] exI [of _ und]) (simp add: ss_parts u [unfolded s'])
qed

lemma ss_ok_client_head:
  assumes "ss_ok mp r self t del und" and "msgpack_ok mp" and "router_answers r"
    and "HEAD_LEN \<le> length (ss_down t)"
    and "cl_step mp (ss_client t) (Ev_head None (take HEAD_LEN (ss_down t))) out c'"
    and t1: "t' = t\<lparr>ss_client := c', ss_down := drop HEAD_LEN (ss_down t)\<rparr>"
  shows "\<exists>del' und'. ss_ok mp r self t' del' und' \<and> ss_work mp r self t und = Suc (ss_work mp r self t' und')"
proof -
  note c = ss_okD(1) [OF assms(1)] and s = ss_okD(2) [OF assms(1)] and up = ss_okD(3) [OF assms(1)]
    and down = ss_okD(4) [OF assms(1)] and calls = ss_okD(5) [OF assms(1)] and served = ss_okD(6) [OF assms(1)]
  have "hd (cl_reads (ss_client t)) = Cl_read_head" using assms(5) by (auto simp: cl_step_head)
  moreover obtain pending where "cl_reading pending (ss_client t)" using down unfolding down.link_ok_def by blast
  ultimately have "cl_reading None (ss_client t)" by (cases pending) (simp_all add: cl_reading_def)
  then obtain f where read: "cl_reading (Some f) (cl_await_body (fst f) (ss_client t\<lparr>cl_reads := []\<rparr>))"
    and c': "c' = cl_await_body (fst f) (ss_client t\<lparr>cl_reads := []\<rparr>)"
    and k: "down.link_ok (ss_conn t) c' (map answer_frame und) (drop HEAD_LEN (ss_down t)) (ss_down_tx t)"
      "down.link_work (ss_conn t) (ss_client t) (map answer_frame und) (ss_down_tx t) =
         Suc (down.link_work (ss_conn t) c' (map answer_frame und) (ss_down_tx t))"
    using client_head_at [OF assms(1) _ assms(4)] assms(5) by metis
  have "cl_stable (ss_client t\<lparr>cl_reads := []\<rparr>)" and "cl_same_calls (ss_client t) (ss_client t\<lparr>cl_reads := []\<rparr>)"
    using c by (simp_all add: cl_stable_def cl_same_calls_def)
  then have "cl_stable c'" and "cl_same_calls (ss_client t) c'"
    using cl_await_body_keeps unfolding c' cl_same_calls_def by fastforce+
  note stable = this(1) and same = calls_ok_same [OF calls this(2)]
  have "map cl_frame (cl_outbox c') = map cl_frame (cl_outbox (ss_client t))" by (simp add: c' cl_await_body_keeps)
  note u = up.link_sender [OF this]
  show ?thesis
    using assms(1) t1 k stable same by (intro exI [of _ del] exI [of _ und]) (simp add: ss_parts u)
qed

lemma ss_ok_client_body:
  assumes "ss_ok mp r self t del und" and "msgpack_ok mp" and "router_answers r"
    and "cl_reads (ss_client t) = Cl_read_body i ty n # rest"
    and "n \<le> length (ss_down t)"
    and "cl_step mp (ss_client t) (Ev_body None (take n (ss_down t))) out c'"
    and t1: "t' = t\<lparr>ss_client := c', ss_down := drop n (ss_down t),
      ss_callbacks := ss_callbacks t @ out\<rparr>"
  shows "\<exists>del' und'. ss_ok mp r self t' del' und' \<and> ss_work mp r self t und = Suc (ss_work mp r self t' und')"
proof -
  note c = ss_okD(1) [OF assms(1)] and s = ss_okD(2) [OF assms(1)] and up = ss_okD(3) [OF assms(1)]
    and down = ss_okD(4) [OF assms(1)] and calls = ss_okD(5) [OF assms(1)] and served = ss_okD(6) [OF assms(1)]
  have waits: "\<not> cl_reading None (ss_client t)" using assms(4) by (simp add: cl_reading_def)
  obtain x und' m where x: "und = x # und'" and m: "cl_reads (ss_client t) = [Cl_read_body (fst x) req_res m]"
    and "m \<le> length (ss_down t) \<Longrightarrow> \<exists>out c'. cl_step mp (ss_client t) (Ev_body None (take m (ss_down t))) out c'"
    and step: "\<And>out c'. m \<le> length (ss_down t) \<Longrightarrow> cl_step mp (ss_client t) (Ev_body None (take m (ss_down t))) out c' \<Longrightarrow>
           calls_ok c' (map fst (ss_calls t)) (del @ [x]) (ss_callbacks t @ out) \<and> cl_stable c' \<and>
           cl_outbox c' = cl_outbox (ss_client t) \<and>
           down.link_ok (ss_conn t) c' (map answer_frame und') (drop m (ss_down t)) (ss_down_tx t) \<and>
           down.link_work (ss_conn t) (ss_client t) (map answer_frame und) (ss_down_tx t) =
             Suc (down.link_work (ss_conn t) c' (map answer_frame und') (ss_down_tx t))"
    by (rule client_body_at [OF assms(1,2,3) waits], rule that) (assumption | blast)+
  have "m = n" using m assms(4) by simp
  note k' = step [unfolded this, OF assms(5,6)]
  note k = k' [THEN conjunct1] k' [THEN conjunct2, THEN conjunct1] k' [THEN conjunct2, THEN conjunct2, THEN conjunct1]
    k' [THEN conjunct2, THEN conjunct2, THEN conjunct2]
  have "map cl_frame (cl_outbox c') = map cl_frame (cl_outbox (ss_client t))" by (simp add: k(3))
  note u = up.link_sender [OF this]
  show ?thesis
    using assms(1) t1 k x
    by (intro exI [of _ "del @ [x]"] exI [of _ und']) (simp add: ss_parts u)
qed

lemma ss_ok_net:
  assumes "ss_net mp r self t t'" and "ss_ok mp r self t del und" and "msgpack_ok mp" and "router_answers r"
  shows "\<exists>del' und'. ss_ok mp r self t' del' und' \<and> ss_work mp r self t und = Suc (ss_work mp r self t' und')"
proof -
  note c = ss_okD(1) [OF assms(2)] and s = ss_okD(2) [OF assms(2)] and up = ss_okD(3) [OF assms(2)]
    and down = ss_okD(4) [OF assms(2)]
  from assms(1) show ?thesis
  proof cases
    case (up_begin f rest p q)
    then obtain m ms where "map cl_frame (cl_outbox (ss_client t)) = f # map cl_frame ms"
      using c by (cases "cl_outbox (ss_client t)") (auto simp: cl_stable_def)
    note k = up.link_begin [OF up [unfolded up_begin(2)] this]
    show ?thesis
      using assms(2) up_begin(1,2) k by (intro exI [of _ del] exI [of _ und]) (simp add: ss_parts)
  next
    case (up_byte b bs)
    note k = up.link_byte [OF up [unfolded up_byte(2)]]
    show ?thesis
      using assms(2) up_byte k by (intro exI [of _ del] exI [of _ und]) (simp add: ss_parts)
  next
    case (up_end out c')
    show ?thesis by (rule ss_ok_up_end [OF assms(2-4) up_end(2-3) up_end(1)])
  next
    case (server_head out s')
    show ?thesis by (rule ss_ok_server_head [OF assms(2-4) server_head(2-3) server_head(1)])
  next
    case (server_body f n rest out s')
    show ?thesis by (rule ss_ok_server_body [OF assms(2-4) server_body(2-4) server_body(1)])
  next
    case (down_begin f rest p q)
    then obtain m ms where "map cn_frame (cn_write_queue (ss_conn t)) = f # map cn_frame ms"
      using s by (cases "cn_write_queue (ss_conn t)") (auto simp: cn_stable_def cn_ok_def)
    note k = down.link_begin [OF down [unfolded down_begin(2)] this]
    show ?thesis
      using assms(2) down_begin(1,2) k by (intro exI [of _ del] exI [of _ und]) (simp add: ss_parts)
  next
    case (down_byte b bs)
    note k = down.link_byte [OF down [unfolded down_byte(2)]]
    show ?thesis
      using assms(2) down_byte k by (intro exI [of _ del] exI [of _ und]) (simp add: ss_parts)
  next
    case (down_end out s')
    show ?thesis by (rule ss_ok_down_end [OF assms(2-4) down_end(2-3) down_end(1)])
  next
    case (client_head out c')
    show ?thesis by (rule ss_ok_client_head [OF assms(2-4) client_head(2-3) client_head(1)])
  next
    case (client_body i ty n rest out c')
    show ?thesis by (rule ss_ok_client_body [OF assms(2-4) client_body(2-4) client_body(1)])
  qed
qed

subsection \<open>Reachable states\<close>

lemma connected_client_simps:
  assumes "port \<noteq> 0"
    and c: "c = connected_client mp host port"
  shows "cl_stable c" "cl_outbox c = []" "cl_reads c = [Cl_read_head]" "cl_ids 0 c" "cl_fu_id c = 0"
proof -
  have "c = do_read (wait_conn_begin (new_client Lang_CPP host port\<lparr>cl_socket_open := True\<rparr>)\<lparr>cl_has_connected := True\<rparr>)"
    using assms(1)
    by (simp add: c connected_client_def connect_def async_connect_def new_client_def wait_conn_begin_def
        cl_on_connect_def resend_subscribe_def do_read_def cl_async_read_head_def Let_def)
  then show "cl_stable c" "cl_outbox c = []" "cl_reads c = [Cl_read_head]" "cl_ids 0 c" "cl_fu_id c = 0"
    by (simp_all add: new_client_def wait_conn_begin_def do_read_def cl_async_read_head_def cl_stable_def cl_ids_def)
qed

lemma cn_start_simps:
  "cn_reads (cn_start (new_connection timeout)) = [Read_head]" "\<not> cn_has_closed (cn_start (new_connection timeout))"
  "cn_write_queue (cn_start (new_connection timeout)) = []"
  by (simp_all add: cn_start_def new_connection_def)

lemma ss_ok_start: "port \<noteq> 0 \<Longrightarrow> ss_ok mp r self (session_start mp host port timeout) [] []"
  using connected_client_simps [of port _ mp host, OF _ refl] cn_ok_new [of timeout]
  by (auto simp: ss_ok_def session_start_def unserved_def cn_stable_def answers_def map_filter_simps up.link_ok_def
      down.link_ok_def calls_ok_def cn_reading_def cl_reading_def chan_ok_start cn_start_simps intro!: exI [of _ None])

lemma ss_user_calls: "ss_user mp t t' \<Longrightarrow> length (ss_calls t) \<le> length (ss_calls t')"
  by (auto elim: ss_user.cases)

lemma ss_net_calls: "ss_net mp r self t t' \<Longrightarrow> ss_calls t' = ss_calls t"
  by (auto elim: ss_net.cases)

lemma ss_reach_ok:
  assumes "ss_reach mp r self (session_start mp host port timeout) t" and "length (ss_calls t) < 2 ^ 63"
    and "port \<noteq> 0" and "msgpack_ok mp" and "router_answers r" and "\<forall>a. mp_pack_args mp a \<noteq> []"
  shows "\<exists>del und. ss_ok mp r self t del und"
  using assms(1,2)
proof (induction rule: ss_reach.induct)
  case start
  then show ?case using ss_ok_start [OF assms(3)] by blast
next
  case (user t t')
  then show ?case using ss_user_calls [OF user.hyps(2)] ss_ok_user [OF user.hyps(2) _ _ assms(6)] by fastforce
next
  case (net t t')
  then show ?case using ss_net_calls [OF net.hyps(2)] ss_ok_net [OF net.hyps(2) _ assms(4,5)] by fastforce
qed

subsection \<open>Nothing gets stuck\<close>

text \<open>The answer to every call is short enough to be sent; a longer one fails an assertion of
  \<open>response\<close>.\<close>

definition answers_fit :: "('a, 'r) msgpack \<Rightarrow> router \<Rightarrow> nat \<Rightarrow> 'a rpc_call list \<Rightarrow> bool" where
  "answers_fit mp r self calls \<longleftrightarrow>
     (\<forall>x\<in>set calls. \<forall>y. answer mp r self (routed_as mp x) = Some y \<longrightarrow> length (snd y) < MAX_BUF_LEN)"

lemma up_progress:
  assumes "ss_ok mp r self t del und" and "answers_fit mp r self (ss_calls t)"
    and "0 < up.link_work (ss_client t) (ss_conn t) (map (request_frame mp) (unserved t)) (ss_up_tx t)"
  shows "\<exists>t'. ss_net mp r self t t'"
  using ss_okD(3) [OF assms(1)] assms(3)
proof (cases rule: up.link_progress)
  case start
  then obtain f rest where "cl_writes (ss_client t) = f # rest"
    using ss_okD(1) [OF assms(1)] by (cases "cl_outbox (ss_client t)") (auto simp: cl_stable_def)
  then show ?thesis using start(1) ss_net.up_begin by blast
next
  case byte
  then show ?thesis using ss_net.up_byte by blast
next
  case finish
  then obtain m q where "cl_outbox (ss_client t) = m # q"
    using up.link_end_queue ss_okD(3) [OF assms(1)] by (cases "cl_outbox (ss_client t)") fastforce+
  then show ?thesis using finish ss_net.up_end cl_written(1) [OF ss_okD(1) [OF assms(1)]] by blast
next
  case head
  then show ?thesis using server_head_at [OF assms(1)] ss_net.server_head by metis
next
  case (body f)
  obtain x n where x: "unserved t = x # tl (unserved t)"
    "cn_reads (ss_conn t) = [Read_body (md5_hash32 (fst (snd x))) n]"
    and step: "\<And>out s'. n \<le> length (ss_up t) \<Longrightarrow> cn_step mp r self (ss_conn t) (E_body None (take n (ss_up t))) out s' \<longleftrightarrow>
           out = [] \<and>
           (case answer mp r self (routed_as mp x) of
              None \<Rightarrow> s' = cn_after_body (take n (ss_up t)) (ss_conn t)
            | Some (i, result) \<Rightarrow> response i result req_res (cn_after_body (take n (ss_up t)) (ss_conn t)) = Some s')"
    by (rule server_body_at [OF assms(1) body(1)], rule that) (assumption | blast)+
  have n: "n \<le> length (ss_up t)" using body(2,3) x(2) by (simp add: cn_reading_def)
  have "x \<in> set (ss_calls t)" using unserved_fits [OF assms(1) x(1)] by blast
  then have "\<exists>s'. cn_step mp r self (ss_conn t) (E_body None (take n (ss_up t))) [] s'"
    using step [OF n] assms(2)
    by (cases "answer mp r self (routed_as mp x)") (auto simp: answers_fit_def response_eq)
  then show ?thesis using ss_net.server_body [OF x(2) n] by blast
qed

lemma down_progress:
  assumes "ss_ok mp r self t del und" and "msgpack_ok mp" and "router_answers r"
    and "0 < down.link_work (ss_conn t) (ss_client t) (map answer_frame und) (ss_down_tx t)"
  shows "\<exists>t'. ss_net mp r self t t'"
  using ss_okD(4) [OF assms(1)] assms(4)
proof (cases rule: down.link_progress)
  case start
  then obtain f rest where "cn_writes (ss_conn t) = f # rest"
    using ss_okD(2) [OF assms(1)] by (cases "cn_write_queue (ss_conn t)") (auto simp: cn_stable_def cn_ok_def)
  then show ?thesis using start(1) ss_net.down_begin by blast
next
  case byte
  then show ?thesis using ss_net.down_byte by blast
next
  case finish
  then obtain m q where "cn_write_queue (ss_conn t) = m # q"
    using down.link_end_queue ss_okD(4) [OF assms(1)] by (cases "cn_write_queue (ss_conn t)") fastforce+
  then show ?thesis using finish ss_net.down_end cn_written(1) [OF ss_okD(2) [OF assms(1)]] by blast
next
  case head
  then show ?thesis using client_head_at [OF assms(1)] ss_net.client_head by metis
next
  case (body f)
  show ?thesis
  proof (rule client_body_at [OF assms(1-3) body(1)])
    fix x und' n
    assume x: "cl_reads (ss_client t) = [Cl_read_body (fst x) req_res n]"
      and step: "n \<le> length (ss_down t) \<Longrightarrow> \<exists>out c'. cl_step mp (ss_client t) (Ev_body None (take n (ss_down t))) out c'"
    have n: "n \<le> length (ss_down t)" using body(2,3) x by (simp add: cl_reading_def)
    from step [OF n] show ?thesis using ss_net.client_body [OF x n] by blast
  qed
qed

subsection \<open>What the callers see\<close>

definition callback_ids :: "cl_output list \<Rightarrow> u64 list" where
  "callback_ids outs = [i. Callback i ec data \<leftarrow> outs]"

text \<open>The answer has reached its caller: the future holds it, or the callback was called with it, or, when
  its time limit had passed, with \<open>timed_out\<close>. A call that the server does not answer (an asynchronous
  handler) counts as answered.\<close>

definition call_answered :: "('a, 'r) msgpack \<Rightarrow> router \<Rightarrow> nat \<Rightarrow> 'a session \<Rightarrow> 'a rpc_call \<Rightarrow> bool" where
  "call_answered mp r self t x \<longleftrightarrow>
     (case x of (i, name, args) \<Rightarrow>
        case route mp r (md5_hash32 name) (mp_pack_args mp args) (Some self) i of
          None \<Rightarrow> True
        | Some (j, result) \<Rightarrow>
            if drop_bit 63 i = 0 then cl_futures (ss_client t) i = Fs_ready \<lparr>rr_data = result\<rparr>
            else Callback i None result \<in> set (ss_callbacks t) \<or> Callback i (Some Ec_timed_out) [] \<in> set (ss_callbacks t))"

lemma callback_ids_called_back:
  "list_all2 called_back outs xs \<Longrightarrow> callback_ids outs = map fst xs"
proof (induction rule: list_all2_induct)
  case (Cons out outs x xs)
  then show ?case by (cases out) (auto simp: callback_ids_def)
qed (simp add: callback_ids_def)

lemma called_back_cases: "called_back out x \<Longrightarrow> out = Callback (fst x) None (snd x) \<or> out = Callback (fst x) (Some Ec_timed_out) []"
  by (cases out) auto

lemma list_all2_mem: "list_all2 P xs ys \<Longrightarrow> x \<in> set xs \<Longrightarrow> \<exists>y\<in>set ys. P x y"
  "list_all2 P xs ys \<Longrightarrow> y \<in> set ys \<Longrightarrow> \<exists>x\<in>set xs. P x y"
  by (induction rule: list_all2_induct) auto

text \<open>The answers that were delivered are those of calls that were made.\<close>

lemma delivered_of_call:
  assumes "ss_ok mp r self t del und" and "msgpack_ok mp" and "router_answers r" and "x \<in> set (del @ und)"
  obtains name args where "(fst x, name, args) \<in> set (ss_calls t)"
    and "route mp r (md5_hash32 name) (mp_pack_args mp args) (Some self) (fst x) = Some x"
proof -
  have "x \<in> set (answers mp r self (ss_served t))" using assms(1,4) by (simp add: ss_ok_def)
  then obtain y where y: "y \<in> set (ss_served t)" "answer mp r self y = Some x"
    by (auto simp: answers_def map_filter_def)
  have "set (ss_served t) = routed_as mp ` set (take (length (ss_served t)) (ss_calls t))"
    using assms(1) unfolding ss_ok_def by (metis list.set_map)
  also have "\<dots> \<subseteq> routed_as mp ` set (ss_calls t)" by (intro image_mono set_take_subset)
  finally obtain i name args where c: "(i, name, args) \<in> set (ss_calls t)" "y = routed_as mp (i, name, args)"
    using y(1) by auto
  then have "i = fst x" using answer_Some(1) [OF y(2) assms(2,3)] by (simp add: routed_as_def)
  then show thesis using that c y(2) by (simp add: answer_def routed_as_def)
qed

lemma answered_when_delivered:
  assumes "ss_ok mp r self t del []" and "ss_served t = map (routed_as mp) (ss_calls t)"
    and "msgpack_ok mp" and "router_answers r" and "x \<in> set (ss_calls t)"
  shows "call_answered mp r self t x"
proof -
  obtain i name args where x: "x = (i, name, args)" by (cases x)
  show ?thesis
  proof (cases "answer mp r self (routed_as mp x)")
    case None
    then show ?thesis by (simp add: x call_answered_def answer_def routed_as_def)
  next
    case (Some y)
    have y: "y \<in> set del"
      using assms(1,2,5) Some by (force simp: ss_ok_def answers_def map_filter_def)
    have i: "fst y = i" using answer_Some(1) [OF Some assms(3,4)] by (simp add: x routed_as_def)
    have route: "route mp r (md5_hash32 name) (mp_pack_args mp args) (Some self) i = Some y"
      using Some by (simp add: x answer_def routed_as_def)
    have calls: "calls_ok (ss_client t) (map fst (ss_calls t)) del (ss_callbacks t)"
      using assms(1) by (simp add: ss_ok_def)
    show ?thesis
    proof (cases "drop_bit 63 i = 0")
      case True
      then have "cl_futures (ss_client t) i = Fs_ready \<lparr>rr_data = snd y\<rparr>"
        using calls y i by (auto simp: calls_ok_def)
      then show ?thesis using True route by (simp add: x call_answered_def case_prod_beta)
    next
      case False
      then have "y \<in> set (filter (\<lambda>x. drop_bit 63 (fst x) \<noteq> 0) del)" using y i by simp
      then obtain out where "out \<in> set (ss_callbacks t)" "called_back out y"
        using calls list_all2_mem(2) unfolding calls_ok_def by metis
      then show ?thesis
        using False route called_back_cases [of out y] i by (auto simp: x call_answered_def case_prod_beta)
    qed
  qed
qed

lemma ss_net_run:
  assumes "(ss_net mp r self ^^ n) t t'" and "ss_ok mp r self t del und" and "msgpack_ok mp" and "router_answers r"
  shows "\<exists>del' und'. ss_ok mp r self t' del' und' \<and> ss_work mp r self t und = n + ss_work mp r self t' und' \<and>
     ss_calls t' = ss_calls t"
  using assms(1)
proof (induction n arbitrary: t')
  case 0
  then show ?case using assms(2) by auto
next
  case (Suc n)
  then obtain t1 where t1: "(ss_net mp r self ^^ n) t t1" "ss_net mp r self t1 t'" by auto
  then obtain del1 und1 where "ss_ok mp r self t1 del1 und1" "ss_work mp r self t und = n + ss_work mp r self t1 und1"
    "ss_calls t1 = ss_calls t"
    using Suc.IH by blast
  with ss_ok_net [OF t1(2) _ assms(3,4)] ss_net_calls [OF t1(2)] show ?case by fastforce
qed

lemma ss_work_zero:
  assumes "ss_ok mp r self t del und" and "ss_work mp r self t und = 0"
  shows "und = []" and "ss_served t = map (routed_as mp) (ss_calls t)"
proof -
  have "down.link_work (ss_conn t) (ss_client t) (map answer_frame und) (ss_down_tx t) = 0"
    and "up.link_work (ss_client t) (ss_conn t) (map (request_frame mp) (unserved t)) (ss_up_tx t) = 0"
    using assms(2) by (simp_all add: ss_work_def)
  note down.link_idle [OF this(1)] up.link_idle [OF this(2)]
  then show "und = []" and "ss_served t = map (routed_as mp) (ss_calls t)"
    using ss_okD(6) [OF assms(1)] by (simp, simp add: unserved_def)
qed

lemma ss_progress:
  assumes "ss_ok mp r self t del und" and "answers_fit mp r self (ss_calls t)" and "msgpack_ok mp" and "router_answers r"
    and "0 < ss_work mp r self t und"
  shows "\<exists>t'. ss_net mp r self t t'"
proof (cases "0 < up.link_work (ss_client t) (ss_conn t) (map (request_frame mp) (unserved t)) (ss_up_tx t)")
  case False
  then have "up.link_work (ss_client t) (ss_conn t) (map (request_frame mp) (unserved t)) (ss_up_tx t) = 0" by simp
  note up.link_idle [OF this]
  then show ?thesis
    using down_progress [OF assms(1,3,4)] assms(5) False by (simp add: ss_work_def)
qed (rule up_progress [OF assms(1,2)])

lemma ss_completes:
  assumes "ss_ok mp r self t del und" and "answers_fit mp r self (ss_calls t)" and "msgpack_ok mp" and "router_answers r"
    and "(ss_net mp r self ^^ n) t t'"
  shows "n \<le> ss_work mp r self t und" and "n < ss_work mp r self t und \<Longrightarrow> \<exists>u. ss_net mp r self t' u"
    and "n = ss_work mp r self t und \<Longrightarrow> x \<in> set (ss_calls t) \<Longrightarrow> call_answered mp r self t' x"
proof -
  obtain del' und' where t': "ss_ok mp r self t' del' und'" "ss_work mp r self t und = n + ss_work mp r self t' und'"
    "ss_calls t' = ss_calls t"
    using ss_net_run [OF assms(5,1,3,4)] by blast
  show "n \<le> ss_work mp r self t und" using t'(2) by simp
  show "\<exists>u. ss_net mp r self t' u" if "n < ss_work mp r self t und"
    using that t' assms(2-4) ss_progress [OF t'(1)] by simp
  show "call_answered mp r self t' x" if "n = ss_work mp r self t und" and "x \<in> set (ss_calls t)"
  proof -
    have "ss_work mp r self t' und' = 0" using that(1) t'(2) by simp
    note z = ss_work_zero [OF t'(1) this]
    show ?thesis using answered_when_delivered [OF t'(1) [unfolded z(1)] z(2) assms(3,4)] that(2) t'(3) by simp
  qed
qed

lemma ss_completes_run:
  assumes "ss_ok mp r self t del und" and "answers_fit mp r self (ss_calls t)" and "msgpack_ok mp" and "router_answers r"
  shows "n \<le> ss_work mp r self t und \<Longrightarrow> \<exists>t'. (ss_net mp r self ^^ n) t t'"
proof (induction n)
  case (Suc n)
  then obtain t' where "(ss_net mp r self ^^ n) t t'" by auto
  then show ?case using ss_completes(2) [OF assms] Suc.prems by (meson Suc_le_eq relpowp_Suc_I)
qed simp

lemma ss_reach_net_run:
  "(ss_net mp r self ^^ n) t t' \<Longrightarrow> ss_reach mp r self t0 t \<Longrightarrow> ss_reach mp r self t0 t'"
  by (induction n arbitrary: t') (auto intro: ss_reach.net)

subsection \<open>An example\<close>

text \<open>Arguments are packed behind a byte for their number, so they are never packed to nothing. One function
  is registered, which reverses its argument, and it has been called once.\<close>

definition demo_mp :: "(bytes, bytes) msgpack" where
  "demo_mp = demo_msgpack\<lparr>mp_pack_args := Cons 1,
     mp_unpack_args := (\<lambda>bs. case bs of [] \<Rightarrow> None | b # args \<Rightarrow> Some args)\<rparr>"

lemma demo_mp_ok: "msgpack_ok demo_mp" "\<forall>a. mp_pack_args demo_mp a \<noteq> []"
  using demo_msgpack_ok by (simp_all add: demo_mp_def msgpack_ok_def)

definition demo_router :: router where
  "demo_router = register_handler demo_mp Exec_sync [97] (mp_unpack_args demo_mp) (\<lambda>conn args. Returned (rev args)) new_router"

lemma demo_router_answers: "router_answers demo_router"
  by (simp add: demo_router_def router_answers_register demo_mp_ok)

lemma demo_route_a:
  "route demo_mp demo_router (md5_hash32 [97]) (mp_pack_args demo_mp [5, 6]) (Some self) i = Some (i, [0, 6, 5])"
proof -
  have "packed_outcome demo_mp (Returned (rev [5, 6])) = [0, 6, 5]"
    by (simp add: packed_outcome_def pack_args_str_value_def demo_mp_def demo_msgpack_def demo_code_def result_code_value_def)
  then show ?thesis
    using route_registered [OF demo_mp_ok(1), where f = "\<lambda>conn args. Returned (rev args)" and args = "[5, 6]" and r = new_router
        and name = "[97]" and self = self and req_id = i]
    by (simp add: demo_router_def MAX_BUF_LEN_def)
qed

lemma demo_session:
  obtains t where "ss_reach demo_mp demo_router 1 (session_start demo_mp [] 9000 5) t" and "ss_calls t = [(1, [97], [5, 6])]"
    and "answers_fit demo_mp demo_router 1 (ss_calls t)"
proof -
  let ?t0 = "session_start demo_mp [] 9000 5"
  note c = connected_client_simps [of 9000 _ demo_mp "[]", OF _ refl]
  obtain c' where "async_call demo_mp [97] [5, 6] (ss_client ?t0) = Some (c', 1)"
    using c(2,5) by (auto simp: session_start_def async_call_def async_call_packed_def Let_def demo_mp_def
        cl_write_msg_eq MAX_BUF_LEN_def)
  then have "ss_user demo_mp ?t0 (?t0\<lparr>ss_client := c', ss_calls := ss_calls ?t0 @ [(1, [97], [5, 6])]\<rparr>)"
    by (rule ss_user.call)
  then show thesis
    using that ss_reach.user [OF ss_reach.start]
    by (fastforce simp: session_start_def answers_fit_def answer_def routed_as_def demo_route_a MAX_BUF_LEN_def)
qed

subsection \<open>Properties\<close>

text \<open>C1. However many calls are outstanding and in whatever order everything happens, every caller gets the
  answer to its own call: calls have different ids; the server has routed a prefix of the calls, each
  once, in their order, with exactly the arguments packed by the caller; a future is pending or holds
  exactly what the router answered to its own call; a callback is called at most once per call, with
  the answer to its own call or with \<open>timed_out\<close>; and neither side has closed the connection.\<close>

theorem session_answers_match:
  assumes "msgpack_ok mp" and "\<forall>a. mp_pack_args mp a \<noteq> []" and "router_answers r" and "port \<noteq> 0"
    and "ss_reach mp r self (session_start mp host port timeout) t" and "length (ss_calls t) < 2 ^ 63"
  shows "distinct (map fst (ss_calls t)) \<and>
     ss_served t = map (routed_as mp) (take (length (ss_served t)) (ss_calls t)) \<and>
     (\<forall>(i, name, args)\<in>set (ss_calls t). drop_bit 63 i = 0 \<longrightarrow>
        cl_futures (ss_client t) i = Fs_pending \<or>
        (\<exists>result. route mp r (md5_hash32 name) (mp_pack_args mp args) (Some self) i = Some (i, result) \<and>
           cl_futures (ss_client t) i = Fs_ready \<lparr>rr_data = result\<rparr>)) \<and>
     distinct (callback_ids (ss_callbacks t)) \<and>
     (\<forall>out\<in>set (ss_callbacks t). \<exists>i name args result. (i, name, args) \<in> set (ss_calls t) \<and>
        route mp r (md5_hash32 name) (mp_pack_args mp args) (Some self) i = Some (i, result) \<and>
        (out = Callback i None result \<or> out = Callback i (Some Ec_timed_out) [])) \<and>
     \<not> cn_has_closed (ss_conn t) \<and> cl_has_connected (ss_client t)"
proof -
  obtain del und where ok: "ss_ok mp r self t del und"
    using ss_reach_ok [OF assms(5,6,4,1,3,2)] by blast
  then have calls: "calls_ok (ss_client t) (map fst (ss_calls t)) del (ss_callbacks t)" by (simp add: ss_ok_def)
  have distinct: "distinct (map fst (ss_calls t))" using calls by (simp add: calls_ok_def)
  have future: "cl_futures (ss_client t) i = Fs_pending \<or>
      (\<exists>result. route mp r (md5_hash32 name) (mp_pack_args mp args) (Some self) i = Some (i, result) \<and>
         cl_futures (ss_client t) i = Fs_ready \<lparr>rr_data = result\<rparr>)"
    if x: "(i, name, args) \<in> set (ss_calls t)" and flag: "drop_bit 63 i = 0" for i name args
  proof (cases "i \<in> fst ` set del")
    case True
    then obtain y where y: "y \<in> set del" "fst y = i" by auto
    obtain name' args' where c: "(i, name', args') \<in> set (ss_calls t)"
      "route mp r (md5_hash32 name') (mp_pack_args mp args') (Some self) i = Some y"
      using delivered_of_call [OF ok assms(1,3), of y] y by auto
    then have "(name', args') = (name, args)"
      using eq_key_imp_eq_value [OF distinct x] by simp
    moreover have "cl_futures (ss_client t) i = Fs_ready \<lparr>rr_data = snd y\<rparr>"
      using calls y flag by (auto simp: calls_ok_def)
    ultimately show ?thesis using c(2) y(2) by (metis prod.collapse prod.inject)
  next
    case False
    moreover have "i \<in> set (map fst (ss_calls t))" using x by force
    ultimately have "is_pending (ss_client t) i" using calls by (simp add: calls_ok_def)
    then show ?thesis using flag by (simp add: is_pending_def)
  qed
  have outs: "list_all2 called_back (ss_callbacks t) (filter (\<lambda>x. drop_bit 63 (fst x) \<noteq> 0) del)"
    using calls by (simp add: calls_ok_def)
  have callback: "\<exists>i name args result. (i, name, args) \<in> set (ss_calls t) \<and>
      route mp r (md5_hash32 name) (mp_pack_args mp args) (Some self) i = Some (i, result) \<and>
      (out = Callback i None result \<or> out = Callback i (Some Ec_timed_out) [])"
    if mem: "out \<in> set (ss_callbacks t)" for out
  proof -
    obtain y where y: "y \<in> set del" "called_back out y" using list_all2_mem(1) [OF outs mem] by auto
    obtain name args where "(fst y, name, args) \<in> set (ss_calls t)"
      "route mp r (md5_hash32 name) (mp_pack_args mp args) (Some self) (fst y) = Some y"
      using delivered_of_call [OF ok assms(1,3), of y] y(1) by auto
    then show ?thesis using called_back_cases [OF y(2)] by (metis prod.collapse)
  qed
  have "distinct (callback_ids (ss_callbacks t))"
    using ss_ok_answers(1) [OF ok assms(1,3)] by (simp add: callback_ids_called_back [OF outs] distinct_map_filter)
  then show ?thesis
    using distinct future callback ok unfolding ss_ok_def cl_stable_def cn_stable_def by blast
qed

theorem session_answers_match_witness:
  "\<exists>t. ss_reach demo_mp demo_router 1 (session_start demo_mp [] 9000 5) t \<and> ss_calls t = [(1, [97], [5, 6])] \<and>
     call_answered demo_mp demo_router 1 t (1, [97], [5, 6]) \<and>
     cl_futures (ss_client t) 1 = Fs_ready \<lparr>rr_data = [0, 6, 5]\<rparr>"
proof -
  obtain t where t: "ss_reach demo_mp demo_router 1 (session_start demo_mp [] 9000 5) t" "ss_calls t = [(1, [97], [5, 6])]"
    "answers_fit demo_mp demo_router 1 (ss_calls t)"
    by (rule demo_session)
  obtain del und where ok: "ss_ok demo_mp demo_router 1 t del und"
    using ss_reach_ok [OF t(1) _ _ demo_mp_ok(1) demo_router_answers demo_mp_ok(2)] t(2) by auto
  obtain t' where t': "(ss_net demo_mp demo_router 1 ^^ ss_work demo_mp demo_router 1 t und) t t'"
    using ss_completes_run [OF ok t(3) demo_mp_ok(1) demo_router_answers] by blast
  have reach: "ss_reach demo_mp demo_router 1 (session_start demo_mp [] 9000 5) t'" by (rule ss_reach_net_run [OF t' t(1)])
  have calls: "ss_calls t' = [(1, [97], [5, 6])]"
    using ss_net_run [OF t' ok demo_mp_ok(1) demo_router_answers] t(2) by auto
  have answered: "call_answered demo_mp demo_router 1 t' (1, [97], [5, 6])"
    using ss_completes(3) [OF ok t(3) demo_mp_ok(1) demo_router_answers t'] t(2) by simp
  have "cl_futures (ss_client t') 1 = Fs_pending \<or> cl_futures (ss_client t') 1 = Fs_ready \<lparr>rr_data = [0, 6, 5]\<rparr>"
    using session_answers_match [OF demo_mp_ok demo_router_answers _ reach] by (simp add: calls demo_flag demo_route_a)
  moreover have "cl_futures (ss_client t') 1 \<noteq> Fs_pending"
    using answered by (simp add: call_answered_def demo_flag demo_route_a)
  ultimately show ?thesis using reach calls answered by blast
qed

text \<open>C2. No call is left waiting: from every reachable state the network can make exactly so many steps more,
  whatever it does first; it never stops before, and when it has made them every call made so far has
  been answered. The answers have to be shorter than \<open>MAX_BUF_LEN\<close>.\<close>

theorem session_completes:
  assumes "msgpack_ok mp" and "\<forall>a. mp_pack_args mp a \<noteq> []" and "router_answers r" and "port \<noteq> 0"
    and "ss_reach mp r self (session_start mp host port timeout) t" and "length (ss_calls t) < 2 ^ 63"
    and "answers_fit mp r self (ss_calls t)"
  shows "\<exists>N. (\<exists>t'. (ss_net mp r self ^^ N) t t') \<and>
     (\<forall>n t'. (ss_net mp r self ^^ n) t t' \<longrightarrow>
        n \<le> N \<and> (n < N \<longrightarrow> (\<exists>u. ss_net mp r self t' u)) \<and>
        (n = N \<longrightarrow> (\<forall>x\<in>set (ss_calls t). call_answered mp r self t' x)))"
proof -
  obtain del und where ok: "ss_ok mp r self t del und"
    using ss_reach_ok [OF assms(5,6,4,1,3,2)] by blast
  show ?thesis
    using ss_completes [OF ok assms(7,1,3)] ss_completes_run [OF ok assms(7,1,3) order_refl]
    by (intro exI [of _ "ss_work mp r self t und"]) blast
qed

theorem session_completes_witness:
  "\<exists>t N t'. ss_reach demo_mp demo_router 1 (session_start demo_mp [] 9000 5) t \<and> ss_calls t = [(1, [97], [5, 6])] \<and>
     (ss_net demo_mp demo_router 1 ^^ N) t t' \<and> cl_futures (ss_client t') 1 = Fs_ready \<lparr>rr_data = [0, 6, 5]\<rparr>"
proof -
  obtain t where t: "ss_reach demo_mp demo_router 1 (session_start demo_mp [] 9000 5) t" "ss_calls t = [(1, [97], [5, 6])]"
    "answers_fit demo_mp demo_router 1 (ss_calls t)"
    by (rule demo_session)
  obtain N t' where "(ss_net demo_mp demo_router 1 ^^ N) t t'" "call_answered demo_mp demo_router 1 t' (1, [97], [5, 6])"
    using session_completes [OF demo_mp_ok demo_router_answers _ t(1) _ t(3)] t(2) by auto
  then show ?thesis using t by (auto simp: call_answered_def demo_flag demo_route_a)
qed

end
