(* ===== verification/String_View.thy ===== *)
theory String_View
  imports Codec
begin

section \<open>String views (\<open>include/rest_rpc/string_view.hpp\<close>)\<close>

text \<open>
  The class \<open>basic_string_view<char>\<close> that the client and the codec use for the bytes of results when
  the compiler has no \<open>std::string_view\<close>. A view is a pointer and a size; a pointer is null or a
  position in an array. An iterator of a view is its distance from \<open>begin()\<close>, a reverse iterator the
  distance of the element behind the one it stands for. Sizes are natural numbers; the one subtraction
  that can wrap around, in \<open>back\<close>, is written out. \<^const>\<open>None\<close> is a failed \<open>assert\<close> or the undefined
  behaviour of a string without its terminating zero, \<open>Inl\<close> is an exception. The algorithms of the
  standard library that the code calls come first.
\<close>

subsection \<open>Algorithms of the standard library\<close>

text \<open>On the elements of a range; an index that is the length of the range stands for its end.\<close>

fun std_find_if :: "('c \<Rightarrow> bool) \<Rightarrow> 'c list \<Rightarrow> nat" where
  "std_find_if P [] = 0"
| "std_find_if P (x # xs) = (if P x then 0 else Suc (std_find_if P xs))"

definition std_find_first_of :: "'c list \<Rightarrow> 'c list \<Rightarrow> nat" where
  "std_find_first_of xs ys = std_find_if (\<lambda>c. c \<in> set ys) xs"

text \<open>\<open>std::search\<close> finds the first occurrence, \<open>std::find_end\<close> the last one.\<close>

fun std_search :: "'c list \<Rightarrow> 'c list \<Rightarrow> nat" where
  "std_search xs ys =
     (if take (length ys) xs = ys then 0
      else case xs of [] \<Rightarrow> 0 | x # xs' \<Rightarrow> Suc (std_search xs' ys))"

fun std_find_end_from :: "nat \<Rightarrow> 'c list \<Rightarrow> 'c list \<Rightarrow> nat" where
  "std_find_end_from 0 xs ys = (if take (length ys) xs = ys then 0 else length xs)"
| "std_find_end_from (Suc i) xs ys =
     (if take (length ys) (drop (Suc i) xs) = ys then Suc i else std_find_end_from i xs ys)"

definition std_find_end :: "'c list \<Rightarrow> 'c list \<Rightarrow> nat" where
  "std_find_end xs ys =
     (if ys = [] \<or> length xs < length ys then length xs
      else std_find_end_from (length xs - length ys) xs ys)"

text \<open>\<open>char_traits<char>::compare\<close> compares bytes as unsigned numbers. The standard fixes only the sign of
  its result, so the function is a parameter, \<open>traits_ok\<close> what the standard says of it, as long as both
  arrays have the bytes that it reads.\<close>

type_synonym char_traits = "bytes \<Rightarrow> bytes \<Rightarrow> nat \<Rightarrow> int"

fun bytes_order :: "bytes \<Rightarrow> bytes \<Rightarrow> nat \<Rightarrow> int" where
  "bytes_order (x # xs) (y # ys) (Suc n) =
     (if x = y then bytes_order xs ys n else if x < y then - 1 else 1)"
| "bytes_order xs ys n = 0"

definition traits_ok :: "char_traits \<Rightarrow> bool" where
  "traits_ok traits_compare \<longleftrightarrow>
     (\<forall>xs ys n. n \<le> length xs \<longrightarrow> n \<le> length ys \<longrightarrow> sgn (traits_compare xs ys n) = bytes_order xs ys n)"

subsection \<open>The class\<close>

datatype pointer = Null | Ptr bytes nat

fun ptr_add :: "pointer \<Rightarrow> nat \<Rightarrow> pointer" where
  "ptr_add Null n = Null"
| "ptr_add (Ptr mem off) n = Ptr mem (off + n)"

text \<open>The bytes from a pointer on.\<close>

fun ptr_bytes :: "pointer \<Rightarrow> bytes" where
  "ptr_bytes Null = []"
| "ptr_bytes (Ptr mem off) = drop off mem"

record string_view =
  vw_data :: pointer
  vw_size :: nat

abbreviation mk_view :: "pointer \<Rightarrow> nat \<Rightarrow> string_view" where
  "mk_view p n \<equiv> \<lparr>vw_data = p, vw_size = n\<rparr>"

definition npos :: nat where
  "npos = 2 ^ 64 - 1"

text \<open>\<open>detail::length\<close>: the distance to the first zero.\<close>

fun cstr_length :: "bytes \<Rightarrow> nat \<Rightarrow> nat option" where
  "cstr_length (c # s) result = (if c = 0 then Some result else cstr_length s (result + 1))"
| "cstr_length [] result = None"

definition vw_default :: string_view where
  "vw_default = mk_view Null 0"

definition vw_of_cstr :: "pointer \<Rightarrow> string_view option" where
  "vw_of_cstr s = map_option (mk_view s) (cstr_length (ptr_bytes s) 0)"

text \<open>A literal with the suffix \<open>_sv\<close>: the compiler passes its length without the terminating zero.\<close>

definition vw_literal :: "bytes \<Rightarrow> string_view" where
  "vw_literal str = mk_view (Ptr (str @ [0]) 0) (length str)"

text \<open>From a \<open>std::string\<close>, and back.\<close>

definition vw_of_string :: "bytes \<Rightarrow> string_view" where
  "vw_of_string s = mk_view (Ptr s 0) (length s)"

definition vw_to_string :: "string_view \<Rightarrow> bytes" where
  "vw_to_string v = take (vw_size v) (ptr_bytes (vw_data v))"

text \<open>The elements between two iterators.\<close>

definition vw_range :: "string_view \<Rightarrow> nat \<Rightarrow> nat \<Rightarrow> bytes" where
  "vw_range v it1 it2 = take (it2 - it1) (ptr_bytes (ptr_add (vw_data v) it1))"

definition vw_empty :: "string_view \<Rightarrow> bool" where
  "vw_empty v = (0 = vw_size v)"

definition vw_max_size :: nat where
  "vw_max_size = 2 ^ 64 - 1"

definition vw_data_at :: "string_view \<Rightarrow> nat \<Rightarrow> u8 option" where
  "vw_data_at v pos = (if pos < vw_size v then Some (ptr_bytes (vw_data v) ! pos) else None)"

definition vw_at :: "string_view \<Rightarrow> nat \<Rightarrow> exn + u8 option" where
  "vw_at v pos =
     (if pos \<ge> vw_size v then Inl (Exn_out_of_range (bytes_of ''nonstd::string_view::at()''))
      else Inr (vw_data_at v pos))"

definition vw_front :: "string_view \<Rightarrow> u8 option" where
  "vw_front v = vw_data_at v 0"

definition vw_back :: "string_view \<Rightarrow> u8 option" where
  "vw_back v = vw_data_at v (if vw_size v = 0 then npos else vw_size v - 1)"

definition vw_remove_prefix :: "nat \<Rightarrow> string_view \<Rightarrow> string_view option" where
  "vw_remove_prefix n v =
     (if n \<le> vw_size v then Some (mk_view (ptr_add (vw_data v) n) (vw_size v - n)) else None)"

definition vw_remove_suffix :: "nat \<Rightarrow> string_view \<Rightarrow> string_view option" where
  "vw_remove_suffix n v = (if n \<le> vw_size v then Some (v\<lparr>vw_size := vw_size v - n\<rparr>) else None)"

definition vw_swap :: "string_view \<Rightarrow> string_view \<Rightarrow> string_view \<times> string_view" where
  "vw_swap v other =
     (let (data1, data2) = (vw_data other, vw_data v); (size1, size2) = (vw_size other, vw_size v)
      in (mk_view data1 size1, mk_view data2 size2))"

text \<open>The bytes written to \<open>dest\<close> and the result.\<close>

definition vw_copy :: "string_view \<Rightarrow> bytes \<Rightarrow> nat \<Rightarrow> nat \<Rightarrow> exn + bytes \<times> nat" where
  "vw_copy v dest n pos =
     (if pos > vw_size v then Inl (Exn_out_of_range (bytes_of ''nonstd::string_view::copy()''))
      else let rlen = min n (vw_size v - pos)
           in Inr (take rlen (ptr_bytes (ptr_add (vw_data v) pos)) @ drop rlen dest, rlen))"

definition vw_substr :: "string_view \<Rightarrow> nat \<Rightarrow> nat \<Rightarrow> exn + string_view" where
  "vw_substr v pos n =
     (if pos > vw_size v then Inl (Exn_out_of_range (bytes_of ''nonstd::string_view::substr()''))
      else Inr (mk_view (ptr_add (vw_data v) pos) (min n (vw_size v - pos))))"

subsection \<open>Comparing\<close>

definition vw_compare :: "char_traits \<Rightarrow> string_view \<Rightarrow> string_view \<Rightarrow> int" where
  "vw_compare tc v other =
     (let result = tc (ptr_bytes (vw_data v)) (ptr_bytes (vw_data other)) (min (vw_size v) (vw_size other))
      in if result \<noteq> 0 then result
         else if vw_size v = vw_size other then 0 else if vw_size v < vw_size other then - 1 else 1)"

definition vw_compare_sub :: "char_traits \<Rightarrow> string_view \<Rightarrow> nat \<Rightarrow> nat \<Rightarrow> string_view \<Rightarrow> exn + int" where
  "vw_compare_sub tc v pos1 n1 other =
     (case vw_substr v pos1 n1 of Inl e \<Rightarrow> Inl e | Inr s \<Rightarrow> Inr (vw_compare tc s other))"

definition vw_compare_subs :: "char_traits \<Rightarrow> string_view \<Rightarrow> nat \<Rightarrow> nat \<Rightarrow> string_view \<Rightarrow> nat \<Rightarrow> nat \<Rightarrow> exn + int" where
  "vw_compare_subs tc v pos1 n1 other pos2 n2 =
     (case vw_substr v pos1 n1 of
        Inl e \<Rightarrow> Inl e
      | Inr s \<Rightarrow> (case vw_substr other pos2 n2 of Inl e \<Rightarrow> Inl e | Inr t \<Rightarrow> Inr (vw_compare tc s t)))"

definition vw_compare_cstr :: "char_traits \<Rightarrow> string_view \<Rightarrow> pointer \<Rightarrow> int option" where
  "vw_compare_cstr tc v s = map_option (vw_compare tc v) (vw_of_cstr s)"

definition vw_compare_sub_cstr :: "char_traits \<Rightarrow> string_view \<Rightarrow> nat \<Rightarrow> nat \<Rightarrow> pointer \<Rightarrow> (exn + int) option" where
  "vw_compare_sub_cstr tc v pos1 n1 s = map_option (vw_compare_sub tc v pos1 n1) (vw_of_cstr s)"

definition vw_compare_sub_ptr :: "char_traits \<Rightarrow> string_view \<Rightarrow> nat \<Rightarrow> nat \<Rightarrow> pointer \<Rightarrow> nat \<Rightarrow> exn + int" where
  "vw_compare_sub_ptr tc v pos1 n1 s n2 = vw_compare_sub tc v pos1 n1 (mk_view s n2)"

definition vw_eq :: "char_traits \<Rightarrow> string_view \<Rightarrow> string_view \<Rightarrow> bool" where
  "vw_eq tc lhs rhs = (vw_compare tc lhs rhs = 0)"

definition vw_ne :: "char_traits \<Rightarrow> string_view \<Rightarrow> string_view \<Rightarrow> bool" where
  "vw_ne tc lhs rhs = (vw_compare tc lhs rhs \<noteq> 0)"

definition vw_lt :: "char_traits \<Rightarrow> string_view \<Rightarrow> string_view \<Rightarrow> bool" where
  "vw_lt tc lhs rhs = (vw_compare tc lhs rhs < 0)"

definition vw_le :: "char_traits \<Rightarrow> string_view \<Rightarrow> string_view \<Rightarrow> bool" where
  "vw_le tc lhs rhs = (vw_compare tc lhs rhs \<le> 0)"

definition vw_gt :: "char_traits \<Rightarrow> string_view \<Rightarrow> string_view \<Rightarrow> bool" where
  "vw_gt tc lhs rhs = (vw_compare tc lhs rhs > 0)"

definition vw_ge :: "char_traits \<Rightarrow> string_view \<Rightarrow> string_view \<Rightarrow> bool" where
  "vw_ge tc lhs rhs = (vw_compare tc lhs rhs \<ge> 0)"

text \<open>The overloads for an argument that converts to a view, on the right and on the left: of those for
  equality one each looks at the sizes first; the two of an order are the same.\<close>

definition vw_eq_right :: "char_traits \<Rightarrow> string_view \<Rightarrow> string_view \<Rightarrow> bool" where
  "vw_eq_right tc lhs rhs = (vw_compare tc lhs rhs = 0)"

definition vw_eq_left :: "char_traits \<Rightarrow> string_view \<Rightarrow> string_view \<Rightarrow> bool" where
  "vw_eq_left tc lhs rhs = (vw_size lhs = vw_size rhs \<and> vw_compare tc lhs rhs = 0)"

definition vw_ne_right :: "char_traits \<Rightarrow> string_view \<Rightarrow> string_view \<Rightarrow> bool" where
  "vw_ne_right tc lhs rhs = (vw_size lhs \<noteq> vw_size rhs \<or> vw_compare tc lhs rhs \<noteq> 0)"

definition vw_ne_left :: "char_traits \<Rightarrow> string_view \<Rightarrow> string_view \<Rightarrow> bool" where
  "vw_ne_left tc lhs rhs = (vw_compare tc lhs rhs \<noteq> 0)"

definition vw_lt_conv :: "char_traits \<Rightarrow> string_view \<Rightarrow> string_view \<Rightarrow> bool" where
  "vw_lt_conv tc lhs rhs = (vw_compare tc lhs rhs < 0)"

definition vw_le_conv :: "char_traits \<Rightarrow> string_view \<Rightarrow> string_view \<Rightarrow> bool" where
  "vw_le_conv tc lhs rhs = (vw_compare tc lhs rhs \<le> 0)"

definition vw_gt_conv :: "char_traits \<Rightarrow> string_view \<Rightarrow> string_view \<Rightarrow> bool" where
  "vw_gt_conv tc lhs rhs = (vw_compare tc lhs rhs > 0)"

definition vw_ge_conv :: "char_traits \<Rightarrow> string_view \<Rightarrow> string_view \<Rightarrow> bool" where
  "vw_ge_conv tc lhs rhs = (vw_compare tc lhs rhs \<ge> 0)"

text \<open>\<open>std::hash\<close> of a view is the hash of the string with its bytes.\<close>

definition vw_hash :: "(bytes \<Rightarrow> u64) \<Rightarrow> string_view \<Rightarrow> u64" where
  "vw_hash hash_string v = hash_string (vw_to_string v)"

subsection \<open>Prefixes and suffixes\<close>

text \<open>A view of a single character.\<close>

abbreviation vw_char :: "u8 \<Rightarrow> string_view" where
  "vw_char c \<equiv> mk_view (Ptr [c] 0) 1"

definition vw_starts_with :: "char_traits \<Rightarrow> string_view \<Rightarrow> string_view \<Rightarrow> bool" where
  "vw_starts_with tc s v = (vw_size s \<ge> vw_size v \<and> vw_compare_sub tc s 0 (vw_size v) v = Inr 0)"

definition vw_starts_with_char :: "char_traits \<Rightarrow> string_view \<Rightarrow> u8 \<Rightarrow> bool" where
  "vw_starts_with_char tc s c = vw_starts_with tc s (vw_char c)"

definition vw_starts_with_cstr :: "char_traits \<Rightarrow> string_view \<Rightarrow> pointer \<Rightarrow> bool option" where
  "vw_starts_with_cstr tc s p = map_option (vw_starts_with tc s) (vw_of_cstr p)"

definition vw_ends_with :: "char_traits \<Rightarrow> string_view \<Rightarrow> string_view \<Rightarrow> bool" where
  "vw_ends_with tc s v =
     (vw_size s \<ge> vw_size v \<and> vw_compare_sub tc s (vw_size s - vw_size v) npos v = Inr 0)"

definition vw_ends_with_char :: "char_traits \<Rightarrow> string_view \<Rightarrow> u8 \<Rightarrow> bool" where
  "vw_ends_with_char tc s c = vw_ends_with tc s (vw_char c)"

definition vw_ends_with_cstr :: "char_traits \<Rightarrow> string_view \<Rightarrow> pointer \<Rightarrow> bool option" where
  "vw_ends_with_cstr tc s p = map_option (vw_ends_with tc s) (vw_of_cstr p)"

subsection \<open>Searching\<close>

text \<open>\<open>to_pos\<close> of an iterator, and of a reverse iterator, whose end is \<open>begin()\<close>.\<close>

definition vw_to_pos :: "string_view \<Rightarrow> nat \<Rightarrow> nat" where
  "vw_to_pos s it = (if it = vw_size s then npos else it)"

definition vw_to_pos_rev :: "string_view \<Rightarrow> nat \<Rightarrow> nat" where
  "vw_to_pos_rev s it = (if it = 0 then npos else it - 1)"

definition vw_find :: "string_view \<Rightarrow> string_view \<Rightarrow> nat \<Rightarrow> nat option" where
  "vw_find s v pos =
     (if vw_size v = 0 \<or> vw_data v \<noteq> Null
      then Some (if pos \<ge> vw_size s then npos
                 else vw_to_pos s (pos + std_search (vw_range s pos (vw_size s)) (vw_range v 0 (vw_size v))))
      else None)"

definition vw_rfind :: "string_view \<Rightarrow> string_view \<Rightarrow> nat \<Rightarrow> nat" where
  "vw_rfind s v pos =
     (if vw_size s < vw_size v then npos
      else if vw_empty v then min (vw_size s) pos
      else let last = min (vw_size s - vw_size v) pos + vw_size v;
               result = std_find_end (vw_range s 0 last) (vw_range v 0 (vw_size v))
           in if result \<noteq> last then result else npos)"

definition vw_find_first_of :: "string_view \<Rightarrow> string_view \<Rightarrow> nat \<Rightarrow> nat" where
  "vw_find_first_of s v pos =
     (if pos \<ge> vw_size s then npos
      else vw_to_pos s (pos + std_find_first_of (vw_range s pos (vw_size s)) (vw_range v 0 (vw_size v))))"

text \<open>The call with \<open>size() - 1\<close> ends the recursion at once.\<close>

definition vw_find_last_of_at :: "string_view \<Rightarrow> string_view \<Rightarrow> nat \<Rightarrow> nat" where
  "vw_find_last_of_at s v pos =
     vw_to_pos_rev s (pos + 1 - std_find_first_of (rev (vw_range s 0 (pos + 1))) (vw_range v 0 (vw_size v)))"

definition vw_find_last_of :: "string_view \<Rightarrow> string_view \<Rightarrow> nat \<Rightarrow> nat" where
  "vw_find_last_of s v pos =
     (if vw_empty s then npos
      else if pos \<ge> vw_size s then vw_find_last_of_at s v (vw_size s - 1)
      else vw_find_last_of_at s v pos)"

definition not_in_view :: "string_view \<Rightarrow> u8 \<Rightarrow> bool" where
  "not_in_view v c = (npos = vw_find_first_of v (vw_char c) 0)"

definition vw_find_first_not_of :: "string_view \<Rightarrow> string_view \<Rightarrow> nat \<Rightarrow> nat" where
  "vw_find_first_not_of s v pos =
     (if pos \<ge> vw_size s then npos
      else vw_to_pos s (pos + std_find_if (not_in_view v) (vw_range s pos (vw_size s))))"

definition vw_find_last_not_of_at :: "string_view \<Rightarrow> string_view \<Rightarrow> nat \<Rightarrow> nat" where
  "vw_find_last_not_of_at s v pos =
     vw_to_pos_rev s (pos + 1 - std_find_if (not_in_view v) (rev (vw_range s 0 (pos + 1))))"

definition vw_find_last_not_of :: "string_view \<Rightarrow> string_view \<Rightarrow> nat \<Rightarrow> nat" where
  "vw_find_last_not_of s v pos =
     (if vw_empty s then npos
      else if pos \<ge> vw_size s then vw_find_last_not_of_at s v (vw_size s - 1)
      else vw_find_last_not_of_at s v pos)"

text \<open>The overloads for a character, for a pointer with a count and for a zero-terminated string.\<close>

definition vw_find_char :: "string_view \<Rightarrow> u8 \<Rightarrow> nat \<Rightarrow> nat option" where
  "vw_find_char s c pos = vw_find s (vw_char c) pos"

definition vw_find_ptr :: "string_view \<Rightarrow> pointer \<Rightarrow> nat \<Rightarrow> nat \<Rightarrow> nat option" where
  "vw_find_ptr s p pos n = vw_find s (mk_view p n) pos"

definition vw_find_cstr :: "string_view \<Rightarrow> pointer \<Rightarrow> nat \<Rightarrow> nat option" where
  "vw_find_cstr s p pos = Option.bind (vw_of_cstr p) (\<lambda>v. vw_find s v pos)"

definition vw_rfind_char :: "string_view \<Rightarrow> u8 \<Rightarrow> nat \<Rightarrow> nat" where
  "vw_rfind_char s c pos = vw_rfind s (vw_char c) pos"

definition vw_rfind_ptr :: "string_view \<Rightarrow> pointer \<Rightarrow> nat \<Rightarrow> nat \<Rightarrow> nat" where
  "vw_rfind_ptr s p pos n = vw_rfind s (mk_view p n) pos"

definition vw_rfind_cstr :: "string_view \<Rightarrow> pointer \<Rightarrow> nat \<Rightarrow> nat option" where
  "vw_rfind_cstr s p pos = map_option (\<lambda>v. vw_rfind s v pos) (vw_of_cstr p)"

definition vw_find_first_of_char :: "string_view \<Rightarrow> u8 \<Rightarrow> nat \<Rightarrow> nat" where
  "vw_find_first_of_char s c pos = vw_find_first_of s (vw_char c) pos"

definition vw_find_first_of_ptr :: "string_view \<Rightarrow> pointer \<Rightarrow> nat \<Rightarrow> nat \<Rightarrow> nat" where
  "vw_find_first_of_ptr s p pos n = vw_find_first_of s (mk_view p n) pos"

definition vw_find_first_of_cstr :: "string_view \<Rightarrow> pointer \<Rightarrow> nat \<Rightarrow> nat option" where
  "vw_find_first_of_cstr s p pos = map_option (\<lambda>v. vw_find_first_of s v pos) (vw_of_cstr p)"

definition vw_find_last_of_char :: "string_view \<Rightarrow> u8 \<Rightarrow> nat \<Rightarrow> nat" where
  "vw_find_last_of_char s c pos = vw_find_last_of s (vw_char c) pos"

definition vw_find_last_of_ptr :: "string_view \<Rightarrow> pointer \<Rightarrow> nat \<Rightarrow> nat \<Rightarrow> nat" where
  "vw_find_last_of_ptr s p pos count = vw_find_last_of s (mk_view p count) pos"

definition vw_find_last_of_cstr :: "string_view \<Rightarrow> pointer \<Rightarrow> nat \<Rightarrow> nat option" where
  "vw_find_last_of_cstr s p pos = map_option (\<lambda>v. vw_find_last_of s v pos) (vw_of_cstr p)"

definition vw_find_first_not_of_char :: "string_view \<Rightarrow> u8 \<Rightarrow> nat \<Rightarrow> nat" where
  "vw_find_first_not_of_char s c pos = vw_find_first_not_of s (vw_char c) pos"

definition vw_find_first_not_of_ptr :: "string_view \<Rightarrow> pointer \<Rightarrow> nat \<Rightarrow> nat \<Rightarrow> nat" where
  "vw_find_first_not_of_ptr s p pos count = vw_find_first_not_of s (mk_view p count) pos"

definition vw_find_first_not_of_cstr :: "string_view \<Rightarrow> pointer \<Rightarrow> nat \<Rightarrow> nat option" where
  "vw_find_first_not_of_cstr s p pos = map_option (\<lambda>v. vw_find_first_not_of s v pos) (vw_of_cstr p)"

definition vw_find_last_not_of_char :: "string_view \<Rightarrow> u8 \<Rightarrow> nat \<Rightarrow> nat" where
  "vw_find_last_not_of_char s c pos = vw_find_last_not_of s (vw_char c) pos"

definition vw_find_last_not_of_ptr :: "string_view \<Rightarrow> pointer \<Rightarrow> nat \<Rightarrow> nat \<Rightarrow> nat" where
  "vw_find_last_not_of_ptr s p pos count = vw_find_last_not_of s (mk_view p count) pos"

definition vw_find_last_not_of_cstr :: "string_view \<Rightarrow> pointer \<Rightarrow> nat \<Rightarrow> nat option" where
  "vw_find_last_not_of_cstr s p pos = map_option (\<lambda>v. vw_find_last_not_of s v pos) (vw_of_cstr p)"

subsection \<open>Output\<close>

text \<open>What the inserter uses of a stream: whether its sentry leaves it good, the width, the fill
  character, whether the adjustment is \<open>right\<close>, and the buffer.\<close>

record ostream =
  os_good :: bool
  os_width :: nat
  os_fill :: u8
  os_right :: bool
  os_buf :: bytes

fun write_padding :: "nat \<Rightarrow> ostream \<Rightarrow> ostream" where
  "write_padding 0 os = os"
| "write_padding (Suc n) os = write_padding n (os\<lparr>os_buf := os_buf os @ [os_fill os]\<rparr>)"

definition write_to_stream :: "ostream \<Rightarrow> string_view \<Rightarrow> ostream" where
  "write_to_stream os sv =
     (if \<not> os_good os then os
      else let len = vw_size sv;
               pad = len < os_width os;
               left_pad = (pad \<and> os_right os);
               os = (if left_pad then write_padding (os_width os - len) os else os);
               os = os\<lparr>os_buf := os_buf os @ vw_range sv 0 len\<rparr>;
               os = (if pad \<and> \<not> left_pad then write_padding (os_width os - len) os else os)
           in os\<lparr>os_width := 0\<rparr>)"

end
