(* ===== verification/View_Facts.thy ===== *)
theory View_Facts
  imports String_View "HOL-Library.List_Lexorder" "HOL-Library.Sublist"
begin

section \<open>What the operations on string views compute\<close>

text \<open>
  A view that lies inside its array stands for a list of bytes, \<open>vw_to_string\<close>. The lemmas give every
  operation of \<^verbatim>\<open>String_View\<close> as an operation on these lists: parts, the lexicographic order on unsigned
  bytes, prefixes and suffixes, the first and the last occurrence, padding.
\<close>

subsection \<open>Views inside their arrays\<close>

definition vw_ok :: "string_view \<Rightarrow> bool" where
  "vw_ok v \<longleftrightarrow> vw_size v \<le> length (ptr_bytes (vw_data v)) \<and> vw_size v \<le> npos"

abbreviation chars :: "string_view \<Rightarrow> bytes" where
  "chars \<equiv> vw_to_string"

lemma vw_okD: "vw_ok v \<Longrightarrow> vw_size v \<le> length (ptr_bytes (vw_data v))" "vw_ok v \<Longrightarrow> vw_size v \<le> npos"
  by (simp_all add: vw_ok_def)

lemma length_chars [simp]: "vw_ok v \<Longrightarrow> length (chars v) = vw_size v"
  by (simp add: vw_to_string_def vw_ok_def)

lemma ptr_bytes_add [simp]: "ptr_bytes (ptr_add p n) = drop n (ptr_bytes p)"
  by (cases p) (simp_all add: add.commute)

lemma vw_range_eq: "b \<le> vw_size v \<Longrightarrow> vw_range v a b = take (b - a) (drop a (chars v))"
  by (simp add: vw_range_def vw_to_string_def drop_take)

lemma vw_range_all [simp]: "vw_range v 0 (vw_size v) = chars v" "vw_range v a (vw_size v) = drop a (chars v)"
  by (simp_all add: vw_range_def vw_to_string_def drop_take)

lemma vw_ok_string [simp]: "length s \<le> npos \<Longrightarrow> vw_ok (vw_of_string s)" "chars (vw_of_string s) = s"
  "vw_size (vw_of_string s) = length s" "vw_data (vw_of_string s) \<noteq> Null"
  by (simp_all add: vw_ok_def vw_of_string_def vw_to_string_def)

lemma vw_ok_char [simp]: "vw_ok (vw_char c)" "chars (vw_char c) = [c]"
  by (simp_all add: vw_ok_def vw_to_string_def npos_def)

lemma vw_range_char [simp]: "vw_range (mk_view (Ptr [c] 0) (Suc 0)) 0 (Suc 0) = [c]"
  by (simp add: vw_range_def)

lemma vw_empty_iff [simp]: "vw_ok v \<Longrightarrow> vw_empty v \<longleftrightarrow> chars v = []"
  by (simp add: vw_empty_def vw_to_string_def vw_ok_def) (metis le_zero_eq list.size(3))

lemma vw_null_empty: "vw_ok v \<Longrightarrow> vw_data v = Null \<Longrightarrow> vw_size v = 0"
  by (simp add: vw_ok_def)

lemma vw_substr_Inr:
  assumes "vw_ok v" and "pos \<le> vw_size v"
  shows "\<exists>s. vw_substr v pos n = Inr s \<and> vw_ok s \<and> chars s = take n (drop pos (chars v)) \<and>
    vw_size s = min n (vw_size v - pos)"
  using assms by (auto simp: vw_substr_def vw_ok_def vw_to_string_def drop_take min.commute)

lemma cstr_length_eq:
  "cstr_length s k = (if 0 \<in> set s then Some (k + length (takeWhile (\<lambda>c. c \<noteq> 0) s)) else None)"
  by (induction s arbitrary: k) auto

text \<open>A literal is the view of its characters; \<open>vw_of_cstr\<close> gives the same one when none of them is zero.\<close>

lemma vw_literal_eq:
  "vw_to_string (vw_literal str) = str"
  "0 \<notin> set str \<Longrightarrow> vw_of_cstr (Ptr (str @ [0]) 0) = Some (vw_literal str)"
  by (auto simp: vw_literal_def vw_to_string_def vw_of_cstr_def cstr_length_eq takeWhile_append)

subsection \<open>Order\<close>

lemma bytes_order_take:
  "n \<le> length xs \<Longrightarrow> n \<le> length ys \<Longrightarrow> bytes_order xs ys n = bytes_order (take n xs) (take n ys) n"
proof (induction xs ys n rule: bytes_order.induct)
  case (1 x xs y ys n)
  then show ?case by simp
qed simp_all

lemma bytes_order_prefix:
  "n \<le> length xs \<Longrightarrow> n \<le> length ys \<Longrightarrow> take n xs = take n xs' \<Longrightarrow> take n ys = take n ys' \<Longrightarrow>
   n \<le> length xs' \<Longrightarrow> n \<le> length ys' \<Longrightarrow> bytes_order xs ys n = bytes_order xs' ys' n"
  using bytes_order_take by metis

definition lex_compare :: "bytes \<Rightarrow> bytes \<Rightarrow> int" where
  "lex_compare xs ys = (if xs = ys then 0 else if xs < ys then - 1 else 1)"

lemma bytes_order_lex:
  "(let r = bytes_order xs ys (min (length xs) (length ys))
    in if r \<noteq> 0 then r else if length xs = length ys then 0 else if length xs < length ys then - 1 else 1)
     = lex_compare xs ys"
  by (induction xs ys rule: list_induct2') (auto simp: lex_compare_def Let_def split: if_splits)

text \<open>The sign of \<open>compare\<close>, whatever numbers the library returns.\<close>

lemma sgn_vw_compare:
  assumes "traits_ok tc" and "vw_ok v" and "vw_ok w"
  shows "sgn (vw_compare tc v w) = lex_compare (chars v) (chars w)"
proof -
  let ?n = "min (vw_size v) (vw_size w)"
  let ?r = "tc (ptr_bytes (vw_data v)) (ptr_bytes (vw_data w)) ?n"
  have "sgn ?r = bytes_order (ptr_bytes (vw_data v)) (ptr_bytes (vw_data w)) ?n"
    using assms by (intro assms(1) [unfolded traits_ok_def, rule_format]) (auto simp: vw_ok_def)
  also have "\<dots> = bytes_order (chars v) (chars w) ?n"
    using assms by (intro bytes_order_prefix) (auto simp: vw_to_string_def vw_ok_def)
  finally have r: "sgn ?r = bytes_order (chars v) (chars w) (min (length (chars v)) (length (chars w)))"
    using assms by (simp only: length_chars)
  then have "?r = 0 \<longleftrightarrow> bytes_order (chars v) (chars w) (min (length (chars v)) (length (chars w))) = 0"
    by (metis sgn_0_0)
  then show ?thesis
    using bytes_order_lex [of "chars v" "chars w"] r assms
    by (auto simp: vw_compare_def Let_def length_chars split: if_splits)
qed

lemma lex_compare_signs [simp]:
  "lex_compare xs ys = 0 \<longleftrightarrow> xs = ys" "lex_compare xs ys < 0 \<longleftrightarrow> xs < ys" "lex_compare xs ys \<le> 0 \<longleftrightarrow> xs \<le> ys"
  "0 < lex_compare xs ys \<longleftrightarrow> ys < xs" "0 \<le> lex_compare xs ys \<longleftrightarrow> ys \<le> xs"
  by (auto simp: lex_compare_def)

lemma vw_compare_signs:
  assumes "traits_ok tc" and "vw_ok v" and "vw_ok w"
  shows "vw_compare tc v w = 0 \<longleftrightarrow> chars v = chars w" and "vw_compare tc v w < 0 \<longleftrightarrow> chars v < chars w"
    and "vw_compare tc v w \<le> 0 \<longleftrightarrow> chars v \<le> chars w"
    and "0 < vw_compare tc v w \<longleftrightarrow> chars w < chars v" and "0 \<le> vw_compare tc v w \<longleftrightarrow> chars w \<le> chars v"
proof -
  have s: "sgn (vw_compare tc v w) = lex_compare (chars v) (chars w)" by (rule sgn_vw_compare [OF assms])
  have i: "sgn c = 0 \<longleftrightarrow> c = 0" "sgn c < 0 \<longleftrightarrow> c < 0" "sgn c \<le> 0 \<longleftrightarrow> c \<le> 0" "0 < sgn c \<longleftrightarrow> 0 < c" "0 \<le> sgn c \<longleftrightarrow> 0 \<le> c"
    for c :: int by (auto simp: sgn_if)
  show "vw_compare tc v w = 0 \<longleftrightarrow> chars v = chars w" "vw_compare tc v w < 0 \<longleftrightarrow> chars v < chars w"
    "vw_compare tc v w \<le> 0 \<longleftrightarrow> chars v \<le> chars w"
    "0 < vw_compare tc v w \<longleftrightarrow> chars w < chars v" "0 \<le> vw_compare tc v w \<longleftrightarrow> chars w \<le> chars v"
    using i [of "vw_compare tc v w"] unfolding s by simp_all
qed

lemma vw_starts_with_eq:
  assumes "traits_ok tc" and "vw_ok v" and "vw_ok w"
  shows "vw_starts_with tc v w \<longleftrightarrow> prefix (chars w) (chars v)"
proof (cases "vw_size w \<le> vw_size v")
  case True
  obtain s where "vw_substr v 0 (vw_size w) = Inr s" "vw_ok s" "chars s = take (vw_size w) (drop 0 (chars v))"
    using vw_substr_Inr [OF assms(2), of 0 "vw_size w"] by auto
  then have "vw_starts_with tc v w \<longleftrightarrow> take (vw_size w) (chars v) = chars w"
    using assms True by (simp add: vw_starts_with_def vw_compare_sub_def vw_compare_signs(1) [OF assms(1)])
  also have "\<dots> \<longleftrightarrow> prefix (chars w) (chars v)"
    using assms by (metis append_eq_conv_conj length_chars prefix_def take_is_prefix)
  finally show ?thesis .
next
  case False
  then show ?thesis using assms prefix_length_le [of "chars w" "chars v"] by (auto simp: vw_starts_with_def)
qed

lemma suffix_iff_drop: "suffix ys xs \<longleftrightarrow> length ys \<le> length xs \<and> drop (length xs - length ys) xs = ys"
  by (auto simp: suffix_def) (metis append_take_drop_id)

lemma vw_ends_with_eq:
  assumes "traits_ok tc" and "vw_ok v" and "vw_ok w"
  shows "vw_ends_with tc v w \<longleftrightarrow> suffix (chars w) (chars v)"
proof -
  obtain s where s: "vw_substr v (vw_size v - vw_size w) npos = Inr s" "vw_ok s"
    "chars s = take npos (drop (vw_size v - vw_size w) (chars v))"
    using vw_substr_Inr [OF assms(2), of "vw_size v - vw_size w" npos] by auto
  moreover have "chars s = drop (vw_size v - vw_size w) (chars v)"
    using s(3) assms(2) vw_okD(2) [OF assms(2)] by simp
  ultimately show ?thesis
    using assms by (simp add: vw_ends_with_def vw_compare_sub_def vw_compare_signs(1) [OF assms(1)] suffix_iff_drop)
qed

subsection \<open>Occurrences\<close>

definition occurs_at :: "bytes \<Rightarrow> bytes \<Rightarrow> nat \<Rightarrow> bool" where
  "occurs_at xs ys i \<longleftrightarrow> i \<le> length xs \<and> take (length ys) (drop i xs) = ys"

text \<open>The least index from \<open>lo\<close> on below \<open>hi\<close> with a property, and the greatest one up to \<open>hi\<close>; \<^const>\<open>npos\<close>
  if there is none.\<close>

definition is_first :: "(nat \<Rightarrow> bool) \<Rightarrow> nat \<Rightarrow> nat \<Rightarrow> nat \<Rightarrow> bool" where
  "is_first P lo hi r \<longleftrightarrow>
     (if \<exists>i. lo \<le> i \<and> i < hi \<and> P i then lo \<le> r \<and> r < hi \<and> P r \<and> (\<forall>i. lo \<le> i \<and> i < r \<longrightarrow> \<not> P i) else r = npos)"

definition is_last :: "(nat \<Rightarrow> bool) \<Rightarrow> nat \<Rightarrow> nat \<Rightarrow> bool" where
  "is_last P hi r \<longleftrightarrow>
     (if \<exists>i\<le>hi. P i then r \<le> hi \<and> P r \<and> (\<forall>i. r < i \<and> i \<le> hi \<longrightarrow> \<not> P i) else r = npos)"

lemma is_first_none: "(\<And>i. lo \<le> i \<Longrightarrow> i < hi \<Longrightarrow> \<not> P i) \<Longrightarrow> is_first P lo hi npos"
  by (auto simp: is_first_def)

lemma is_first_some: "lo \<le> r \<Longrightarrow> r < hi \<Longrightarrow> P r \<Longrightarrow> (\<And>i. lo \<le> i \<Longrightarrow> i < r \<Longrightarrow> \<not> P i) \<Longrightarrow> is_first P lo hi r"
  by (auto simp: is_first_def)

lemma is_last_none: "(\<And>i. i \<le> hi \<Longrightarrow> \<not> P i) \<Longrightarrow> is_last P hi npos"
  by (auto simp: is_last_def)

lemma is_last_some: "r \<le> hi \<Longrightarrow> P r \<Longrightarrow> (\<And>i. r < i \<Longrightarrow> i \<le> hi \<Longrightarrow> \<not> P i) \<Longrightarrow> is_last P hi r"
  by (auto simp: is_last_def)

lemma is_last_clip:
  assumes "is_last Q (min pos (n - 1)) r" and "0 < n"
  shows "is_last (\<lambda>i. i < n \<and> Q i) pos r"
proof -
  have le: "i \<le> min pos (n - 1) \<longleftrightarrow> i \<le> pos \<and> i < n" for i
    using assms(2) by auto
  show ?thesis
  proof (cases "\<exists>i. i \<le> pos \<and> i < n \<and> Q i")
    case True
    then show ?thesis using assms(1) unfolding is_last_def le by (smt (verit, best))
  next
    case False
    then show ?thesis using assms(1) unfolding is_last_def le by (smt (verit, best))
  qed
qed

lemma std_find_if_le: "std_find_if P xs \<le> length xs"
  by (induction xs) auto

lemma std_find_if_hit: "std_find_if P xs < length xs \<Longrightarrow> P (xs ! std_find_if P xs)"
  by (induction xs) auto

lemma std_find_if_before: "i < std_find_if P xs \<Longrightarrow> \<not> P (xs ! i)"
  by (induction xs arbitrary: i) (auto simp: less_Suc_eq_0_disj split: if_splits)

lemma std_search_le: "std_search xs ys \<le> length xs"
  by (induction xs ys rule: std_search.induct) (auto split: list.splits)

lemma std_search_hit: "std_search xs ys < length xs \<Longrightarrow> take (length ys) (drop (std_search xs ys) xs) = ys"
proof (induction xs ys rule: std_search.induct)
  case (1 xs ys)
  then show ?case
    by (cases xs) (auto simp del: std_search.simps simp: std_search.simps [of xs ys] std_search.simps [of "[]" ys]
        std_search.simps [of "x # xs'" for x xs'])
qed

lemma std_search_before: "i < std_search xs ys \<Longrightarrow> take (length ys) (drop i xs) \<noteq> ys"
proof (induction xs ys arbitrary: i rule: std_search.induct)
  case (1 xs ys)
  then show ?case
    by (cases xs; cases i) (auto simp del: std_search.simps simp: std_search.simps [of xs ys] std_search.simps [of "[]" ys]
        std_search.simps [of "x # xs'" for x xs'] split: if_splits)
qed

lemma std_find_end_from_spec:
  assumes "n \<le> length xs"
  shows "(\<exists>i\<le>n. take (length ys) (drop i xs) = ys \<and> std_find_end_from n xs ys = i \<and>
            (\<forall>j. i < j \<and> j \<le> n \<longrightarrow> take (length ys) (drop j xs) \<noteq> ys)) \<or>
         (\<forall>i\<le>n. take (length ys) (drop i xs) \<noteq> ys) \<and> std_find_end_from n xs ys = length xs"
  using assms
proof (induction n)
  case (Suc n)
  then show ?case
    by (cases "take (length ys) (drop (Suc n) xs) = ys") (auto simp: le_Suc_eq)
qed auto

lemma npos_not_le: "vw_ok s \<Longrightarrow> i < vw_size s \<Longrightarrow> i \<noteq> npos"
  using vw_okD(2) by fastforce

lemma vw_find_eq:
  assumes "vw_ok s" and "vw_ok v"
  shows "\<exists>r. vw_find s v pos = Some r \<and> is_first (occurs_at (chars s) (chars v)) pos (vw_size s) r"
proof (cases "pos < vw_size s")
  case False
  then show ?thesis using vw_null_empty [OF assms(2)] by (auto simp: vw_find_def intro: is_first_none)
next
  case True
  let ?xs = "drop pos (chars s)" and ?ys = "chars v"
  let ?i = "std_search ?xs ?ys"
  have len: "length ?xs = vw_size s - pos" using assms(1) by simp
  have found: "vw_find s v pos = Some (vw_to_pos s (pos + ?i))"
    using True vw_null_empty [OF assms(2)] by (auto simp: vw_find_def)
  have before: "\<not> occurs_at (chars s) ?ys j" if "pos \<le> j" "j < pos + ?i" for j
    using std_search_before [of "j - pos" ?xs ?ys] that by (simp add: occurs_at_def)
  show ?thesis
  proof (cases "?i < length ?xs")
    case True
    then have "occurs_at (chars s) ?ys (pos + ?i)" and "pos + ?i < vw_size s"
      using std_search_hit [OF True] len assms(1) by (simp_all add: occurs_at_def add.commute)
    then show ?thesis
      using found before by (auto simp: vw_to_pos_def intro: is_first_some)
  next
    case False
    then have "pos + ?i = vw_size s" using std_search_le [of ?xs ?ys] len True by simp
    then show ?thesis
      using found before by (auto simp: vw_to_pos_def intro: is_first_none)
  qed
qed

lemma vw_rfind_eq:
  assumes "vw_ok s" and "vw_ok v"
  shows "is_last (occurs_at (chars s) (chars v)) (min pos (vw_size s)) (vw_rfind s v pos)"
proof (cases "vw_size s < vw_size v")
  case True
  then have "\<not> occurs_at (chars s) (chars v) i" for i
    using assms by (auto simp: occurs_at_def dest: arg_cong [of _ _ length])
  then show ?thesis using True by (auto simp: vw_rfind_def intro: is_last_none)
next
  case False
  show ?thesis
  proof (cases "chars v = []")
    case True
    then have "vw_rfind s v pos = min (vw_size s) pos" using False assms by (simp add: vw_rfind_def)
    then show ?thesis using True assms(1) by (auto simp: min.commute occurs_at_def intro: is_last_some)
  next
    case ne: False
    let ?m = "min (vw_size s - vw_size v) pos" and ?ys = "chars v"
    let ?xs = "take (?m + vw_size v) (chars s)"
    have vs: "0 < vw_size v" using ne length_chars [OF assms(2)] by (metis length_0_conv neq0_conv)
    have m: "?m + vw_size v \<le> vw_size s" using False by simp
    then have len: "length ?xs = ?m + vw_size v" using assms(1) by simp
    have r: "vw_rfind s v pos =
        (if std_find_end_from ?m ?xs ?ys \<noteq> ?m + vw_size v then std_find_end_from ?m ?xs ?ys else npos)"
      using False ne assms len m vs
      by (simp add: vw_rfind_def vw_range_eq Let_def std_find_end_def del: length_take)
    have occ: "occurs_at (chars s) ?ys j \<longleftrightarrow> take (length ?ys) (drop j ?xs) = ?ys" if "j \<le> ?m" for j
      using that m assms by (simp add: occurs_at_def drop_take min_def)
    have out: "\<not> occurs_at (chars s) ?ys j" if "?m < j" "j \<le> pos" for j
      using that assms vs by (auto simp: occurs_at_def min_def dest: arg_cong [of _ _ length] split: if_splits)
    have "?m \<le> length ?xs" using len by simp
    from std_find_end_from_spec [OF this, of ?ys] show ?thesis
    proof (elim disjE exE conjE)
      fix i assume i: "i \<le> ?m" "take (length ?ys) (drop i ?xs) = ?ys" "std_find_end_from ?m ?xs ?ys = i"
        "\<forall>j. i < j \<and> j \<le> ?m \<longrightarrow> take (length ?ys) (drop j ?xs) \<noteq> ?ys"
      have "\<not> occurs_at (chars s) ?ys j" if "i < j" "j \<le> min pos (vw_size s)" for j
      proof (cases "j \<le> ?m")
        case True
        then show ?thesis using occ [OF True] i(4) that(1) by blast
      next
        case False
        then show ?thesis using out [of j] that(2) by linarith
      qed
      moreover have "i \<le> min pos (vw_size s)" using i(1) by linarith
      moreover have "occurs_at (chars s) ?ys i" using occ [OF i(1)] i(2) by blast
      moreover have "vw_rfind s v pos = i" unfolding r i(3) using i(1) vs by (intro if_P) linarith
      ultimately show ?thesis by (auto intro: is_last_some)
    next
      assume n: "\<forall>i\<le>?m. take (length ?ys) (drop i ?xs) \<noteq> ?ys" "std_find_end_from ?m ?xs ?ys = length ?xs"
      have "\<not> occurs_at (chars s) ?ys j" if "j \<le> min pos (vw_size s)" for j
      proof (cases "j \<le> ?m")
        case True
        then show ?thesis using occ [OF True] n(1) by blast
      next
        case False
        then show ?thesis using out [of j] that by linarith
      qed
      moreover have "vw_rfind s v pos = npos" unfolding r n(2) len by (rule if_not_P) simp
      ultimately show ?thesis by (auto intro: is_last_none)
    qed
  qed
qed

text \<open>The searches for one character: from the front, and from the back over the reversed range.\<close>

lemma first_char:
  assumes "vw_ok s" and "pos < vw_size s"
  shows "is_first (\<lambda>i. P (chars s ! i)) pos (vw_size s) (vw_to_pos s (pos + std_find_if P (drop pos (chars s))))"
proof -
  let ?xs = "drop pos (chars s)"
  have len: "length ?xs = vw_size s - pos" using assms(1) by simp
  have before: "\<not> P (chars s ! j)" if "pos \<le> j" "j < pos + std_find_if P ?xs" for j
  proof -
    have "j - pos < std_find_if P ?xs" "pos + (j - pos) = j" using that by auto
    then show ?thesis
      using std_find_if_before [of "j - pos" P ?xs] std_find_if_le [of P ?xs] assms len by simp
  qed
  show ?thesis
  proof (cases "std_find_if P ?xs < length ?xs")
    case True
    then show ?thesis
      using std_find_if_hit [OF True] before len assms
      by (auto simp: vw_to_pos_def intro!: is_first_some)
  next
    case False
    then have "pos + std_find_if P ?xs = vw_size s" using std_find_if_le [of P ?xs] len assms(2) by simp
    then show ?thesis using before by (auto simp: vw_to_pos_def intro: is_first_none)
  qed
qed

lemma last_char:
  assumes "vw_ok s" and "pos < vw_size s"
  shows "is_last (\<lambda>i. P (chars s ! i)) pos
     (vw_to_pos_rev s (pos + 1 - std_find_if P (rev (take (pos + 1) (chars s)))))"
proof -
  let ?xs = "take (pos + 1) (chars s)"
  let ?k = "std_find_if P (rev ?xs)"
  have len: "length ?xs = pos + 1" using assms by simp
  have nth: "rev ?xs ! j = chars s ! (pos - j)" if "j \<le> pos" for j
    using that len by (simp add: rev_nth)
  have before: "\<not> P (chars s ! i)" if "pos < i + ?k" "i \<le> pos" for i
    using std_find_if_before [of "pos - i" P "rev ?xs"] nth [of "pos - i"] that by simp
  show ?thesis
  proof (cases "?k < length (rev ?xs)")
    case True
    then have "P (chars s ! (pos - ?k))" using std_find_if_hit [OF True] nth len by simp
    moreover have "vw_to_pos_rev s (pos + 1 - ?k) = pos - ?k" using True len by (simp add: vw_to_pos_rev_def)
    ultimately show ?thesis using before by (auto intro!: is_last_some)
  next
    case False
    moreover have "length (rev ?xs) = pos + 1" using len by simp
    ultimately have k: "?k = pos + 1" using std_find_if_le [of P "rev ?xs"] by linarith
    then show ?thesis using before by (auto simp: vw_to_pos_rev_def intro: is_last_none)
  qed
qed

lemma not_in_view_iff: "vw_ok v \<Longrightarrow> not_in_view v c \<longleftrightarrow> c \<notin> set (chars v)"
proof -
  assume v: "vw_ok v"
  show ?thesis
  proof (cases "0 < vw_size v")
    case True
    have "vw_find_first_of v (vw_char c) 0 = vw_to_pos v (0 + std_find_if (\<lambda>x. x \<in> set [c]) (drop 0 (chars v)))"
      using True by (simp add: vw_find_first_of_def std_find_first_of_def)
    then have "is_first (\<lambda>i. chars v ! i = c) 0 (vw_size v) (vw_find_first_of v (vw_char c) 0)"
      using first_char [OF v True, of "\<lambda>x. x \<in> set [c]"] by simp
    then show ?thesis
      using v npos_not_le [OF v, of npos] by (auto simp: not_in_view_def is_first_def in_set_conv_nth split: if_splits)
  next
    case False
    then have "chars v = []" using length_chars [OF v] by (metis length_0_conv not_gr_zero)
    then show ?thesis using False by (simp add: not_in_view_def vw_find_first_of_def)
  qed
qed

subsection \<open>Padding\<close>

lemma write_padding_eq: "write_padding n os = os\<lparr>os_buf := os_buf os @ replicate n (os_fill os)\<rparr>"
  by (induction n arbitrary: os) (simp_all add: replicate_append_same [symmetric])

subsection \<open>Properties\<close>

text \<open>C34. A view never leaves its array: \<open>substr\<close>, \<open>remove_prefix\<close> and \<open>remove_suffix\<close> of a view inside its
  array give views inside it, with exactly the bytes asked for cut at the end of the view; they fail
  exactly when the position or the count is behind the end, \<open>substr\<close> and \<open>at\<close> with \<open>out_of_range\<close>.\<close>

theorem view_stays_inside:
  assumes "vw_ok v"
  shows "(\<exists>e. vw_substr v pos n = Inl e) = (vw_size v < pos) \<and>
     (\<forall>s. vw_substr v pos n = Inr s \<longrightarrow> vw_ok s \<and> chars s = take n (drop pos (chars v))) \<and>
     (vw_remove_prefix n v = None) = (vw_size v < n) \<and>
     (\<forall>s. vw_remove_prefix n v = Some s \<longrightarrow> vw_ok s \<and> chars s = drop n (chars v)) \<and>
     (vw_remove_suffix n v = None) = (vw_size v < n) \<and>
     (\<forall>s. vw_remove_suffix n v = Some s \<longrightarrow> vw_ok s \<and> chars s = take (vw_size v - n) (chars v)) \<and>
     vw_at v pos = (if pos < vw_size v then Inr (Some (chars v ! pos))
                    else Inl (Exn_out_of_range (bytes_of ''nonstd::string_view::at()''))) \<and>
     vw_front v = (if chars v = [] then None else Some (hd (chars v))) \<and>
     vw_back v = (if chars v = [] then None else Some (last (chars v)))"
proof -
  have sub: "(\<exists>e. vw_substr v pos n = Inl e) = (vw_size v < pos)" by (simp add: vw_substr_def)
  have subs: "vw_ok s \<and> chars s = take n (drop pos (chars v))" if "vw_substr v pos n = Inr s" for s
    using vw_substr_Inr [OF assms, of pos n] that sub by (cases "pos \<le> vw_size v") (auto simp: not_le)
  have at: "vw_data_at v i = (if i < vw_size v then Some (chars v ! i) else None)" for i
    by (simp add: vw_data_at_def vw_to_string_def)
  have e: "chars v = [] \<longleftrightarrow> vw_size v = 0" using length_chars [OF assms] by auto
  have "vw_front v = (if chars v = [] then None else Some (hd (chars v)))"
    using e by (simp add: vw_front_def at hd_conv_nth)
  moreover have "vw_back v = (if chars v = [] then None else Some (last (chars v)))"
    using e assms by (simp add: vw_back_def at last_conv_nth)
  moreover have "vw_at v pos = (if pos < vw_size v then Inr (Some (chars v ! pos))
                    else Inl (Exn_out_of_range (bytes_of ''nonstd::string_view::at()'')))"
    by (simp add: vw_at_def at)
  moreover have "(vw_remove_prefix n v = None) = (vw_size v < n) \<and>
     (\<forall>s. vw_remove_prefix n v = Some s \<longrightarrow> vw_ok s \<and> chars s = drop n (chars v))"
    using assms by (auto simp: vw_remove_prefix_def vw_ok_def vw_to_string_def drop_take)
  moreover have "(vw_remove_suffix n v = None) = (vw_size v < n) \<and>
     (\<forall>s. vw_remove_suffix n v = Some s \<longrightarrow> vw_ok s \<and> chars s = take (vw_size v - n) (chars v))"
    using assms by (auto simp: vw_remove_suffix_def vw_ok_def vw_to_string_def)
  ultimately show ?thesis using sub subs by blast
qed

theorem view_stays_inside_witness:
  "chars (vw_of_string [5, 6, 7]) = [5, 6, 7] \<and> vw_back (vw_of_string [5, 6, 7]) = Some 7 \<and>
   (vw_remove_prefix 4 (vw_of_string [5, 6, 7]) = None)"
  using view_stays_inside [OF vw_ok_string(1), of "[5, 6, 7]" 0 4] by (simp add: npos_def)

text \<open>C22. Views are compared as their bytes are, lexicographically with unsigned bytes: the sign of \<open>compare\<close>
  and the six operators, in every overload, are those of the total order on lists, whatever numbers the
  library returns for unequal bytes (\<open>traits_ok\<close>); equal views have equal hashes, and \<open>starts_with\<close> and
  \<open>ends_with\<close> are prefix and suffix.\<close>

theorem views_compare_as_bytes:
  assumes "traits_ok tc" and "vw_ok v" and "vw_ok w"
  shows "sgn (vw_compare tc v w) = (if chars v = chars w then 0 else if chars v < chars w then - 1 else 1) \<and>
     vw_eq tc v w = (chars v = chars w) \<and> vw_ne tc v w = (chars v \<noteq> chars w) \<and>
     vw_lt tc v w = (chars v < chars w) \<and> vw_le tc v w = (chars v \<le> chars w) \<and>
     vw_gt tc v w = (chars w < chars v) \<and> vw_ge tc v w = (chars w \<le> chars v) \<and>
     vw_eq_right tc v w = vw_eq tc v w \<and> vw_eq_left tc v w = vw_eq tc v w \<and>
     vw_ne_right tc v w = vw_ne tc v w \<and> vw_ne_left tc v w = vw_ne tc v w \<and>
     vw_lt_conv tc v w = vw_lt tc v w \<and> vw_le_conv tc v w = vw_le tc v w \<and>
     vw_gt_conv tc v w = vw_gt tc v w \<and> vw_ge_conv tc v w = vw_ge tc v w \<and>
     (vw_eq tc v w \<longrightarrow> vw_hash hash_string v = vw_hash hash_string w) \<and>
     vw_starts_with tc v w = prefix (chars w) (chars v) \<and> vw_ends_with tc v w = suffix (chars w) (chars v)"
proof -
  have "vw_size v = vw_size w" if "chars v = chars w" using that assms length_chars by metis
  then show ?thesis
    using vw_compare_signs [OF assms] sgn_vw_compare [OF assms, unfolded lex_compare_def]
      vw_starts_with_eq [OF assms] vw_ends_with_eq [OF assms]
    by (auto simp: vw_eq_def vw_ne_def vw_lt_def vw_le_def vw_gt_def vw_ge_def vw_eq_left_def
        vw_eq_right_def vw_ne_left_def vw_ne_right_def vw_lt_conv_def vw_le_conv_def vw_gt_conv_def vw_ge_conv_def
        vw_hash_def)
qed

text \<open>A library that returns the difference of the first two bytes that differ.\<close>

fun difference_compare :: char_traits where
  "difference_compare (x # xs) (y # ys) (Suc n) = (if x = y then difference_compare xs ys n else uint x - uint y)"
| "difference_compare xs ys n = 0"

lemma difference_compare_ok: "traits_ok difference_compare"
proof -
  have "sgn (difference_compare xs ys n) = bytes_order xs ys n" for xs ys n
    by (induction xs ys n rule: difference_compare.induct) (auto simp: sgn_if word_less_def word_uint_eq_iff)
  then show ?thesis by (simp add: traits_ok_def)
qed

theorem views_compare_as_bytes_witness:
  "vw_lt difference_compare (vw_of_string [97, 127]) (vw_of_string [97, 128]) \<and>
   vw_starts_with difference_compare (vw_of_string [97, 128]) (vw_of_string [97]) \<and>
   vw_compare difference_compare (vw_of_string [97]) (vw_of_string [122]) = - 25"
proof -
  have "vw_compare difference_compare (vw_of_string [97]) (vw_of_string [122]) = - 25"
    by (simp add: vw_compare_def vw_of_string_def)
  then show ?thesis
    using views_compare_as_bytes [OF difference_compare_ok, of "vw_of_string [97, 127]" "vw_of_string [97, 128]"]
      views_compare_as_bytes [OF difference_compare_ok, of "vw_of_string [97, 128]" "vw_of_string [97]"]
    by (simp add: npos_def)
qed

text \<open>C14. The searches: \<open>find\<close> gives the first occurrence from \<open>pos\<close> on that starts before the end of the
  view, \<open>rfind\<close> the last one that starts at \<open>pos\<close> or before; \<open>find_first_of\<close> and \<open>find_last_of\<close> the
  first and last character from, or up to, \<open>pos\<close> that is in the argument, \<open>find_first_not_of\<close> and
  \<open>find_last_not_of\<close> the first and last one that is not; \<^const>\<open>npos\<close> when there is none.\<close>

theorem view_searches:
  assumes "vw_ok s" and "vw_ok v"
  shows "(\<exists>r. vw_find s v pos = Some r \<and> is_first (occurs_at (chars s) (chars v)) pos (vw_size s) r) \<and>
     is_last (occurs_at (chars s) (chars v)) (min pos (vw_size s)) (vw_rfind s v pos) \<and>
     is_first (\<lambda>i. chars s ! i \<in> set (chars v)) pos (vw_size s) (vw_find_first_of s v pos) \<and>
     is_first (\<lambda>i. chars s ! i \<notin> set (chars v)) pos (vw_size s) (vw_find_first_not_of s v pos) \<and>
     is_last (\<lambda>i. i < vw_size s \<and> chars s ! i \<in> set (chars v)) pos (vw_find_last_of s v pos) \<and>
     is_last (\<lambda>i. i < vw_size s \<and> chars s ! i \<notin> set (chars v)) pos (vw_find_last_not_of s v pos)"
proof -
  let ?last = "\<lambda>P. vw_to_pos_rev s (min pos (vw_size s - 1) + 1 -
      std_find_if P (rev (take (min pos (vw_size s - 1) + 1) (chars s))))"
  have first: "is_first (\<lambda>i. P (chars s ! i)) pos (vw_size s)
      (if pos \<ge> vw_size s then npos else vw_to_pos s (pos + std_find_if P (drop pos (chars s))))" for P
    using first_char [OF assms(1), of pos P] by (auto intro: is_first_none)
  have last: "is_last (\<lambda>i. i < vw_size s \<and> P (chars s ! i)) pos (if vw_empty s then npos else ?last P)" for P
  proof (cases "vw_size s = 0")
    case True
    then show ?thesis by (auto simp: vw_empty_def intro: is_last_none)
  next
    case False
    then have "is_last (\<lambda>i. P (chars s ! i)) (min pos (vw_size s - 1)) (?last P)"
      by (intro last_char [OF assms(1)]) simp
    then show ?thesis using False by (simp add: vw_empty_def is_last_clip)
  qed
  have not_in: "not_in_view v = (\<lambda>c. c \<notin> set (chars v))"
    using not_in_view_iff [OF assms(2)] by (intro ext)
  have upto: "vw_range s 0 (min pos (vw_size s - 1) + 1) = take (min pos (vw_size s - 1) + 1) (chars s)"
    if "\<not> vw_empty s"
    using that by (subst vw_range_eq) (auto simp: vw_empty_def)
  have m: "(if vw_size s \<le> pos then vw_size s - 1 else pos) = min pos (vw_size s - 1)" if "\<not> vw_empty s"
    using that by (auto simp: vw_empty_def)
  have lo: "vw_find_last_of s v pos = (if vw_empty s then npos else vw_find_last_of_at s v (min pos (vw_size s - 1)))"
    and ln: "vw_find_last_not_of s v pos = (if vw_empty s then npos else vw_find_last_not_of_at s v (min pos (vw_size s - 1)))"
    using m by (auto simp: vw_find_last_of_def vw_find_last_not_of_def)
  have "is_last (\<lambda>i. i < vw_size s \<and> chars s ! i \<in> set (chars v)) pos (vw_find_last_of s v pos)"
    using last [of "\<lambda>c. c \<in> set (chars v)"] upto
    by (cases "vw_empty s") (simp_all add: lo vw_find_last_of_at_def std_find_first_of_def)
  moreover have "is_last (\<lambda>i. i < vw_size s \<and> chars s ! i \<notin> set (chars v)) pos (vw_find_last_not_of s v pos)"
    using last [of "\<lambda>c. c \<notin> set (chars v)"] upto
    by (cases "vw_empty s") (simp_all add: ln vw_find_last_not_of_at_def not_in)
  moreover have "is_first (\<lambda>i. chars s ! i \<in> set (chars v)) pos (vw_size s) (vw_find_first_of s v pos)"
    using first [of "\<lambda>c. c \<in> set (chars v)"] by (cases "vw_size s \<le> pos") (simp_all add: vw_find_first_of_def std_find_first_of_def)
  moreover have "is_first (\<lambda>i. chars s ! i \<notin> set (chars v)) pos (vw_size s) (vw_find_first_not_of s v pos)"
    using first [of "\<lambda>c. c \<notin> set (chars v)"] by (cases "vw_size s \<le> pos") (simp_all add: vw_find_first_not_of_def not_in)
  ultimately show ?thesis
    using vw_find_eq [OF assms] vw_rfind_eq [OF assms] by blast
qed

theorem view_searches_witness:
  "\<exists>s v. s = vw_of_string [7, 8, 7, 8, 7] \<and> v = vw_of_string [7, 8] \<and>
     vw_find s v 1 = Some 2 \<and> is_first (occurs_at (chars s) (chars v)) 1 (vw_size s) 2 \<and>
     vw_rfind s v 1 = 0 \<and> is_last (occurs_at (chars s) (chars v)) (min 1 (vw_size s)) 0"
proof -
  let ?s = "vw_of_string [7, 8, 7, 8, 7]" and ?v = "vw_of_string [7, 8]"
  have ok: "vw_ok ?s" "vw_ok ?v" by (simp_all add: npos_def)
  have f: "vw_find ?s ?v 1 = Some 2" and r: "vw_rfind ?s ?v 1 = 0" by code_simp+
  note p = view_searches [OF ok, of 1]
  have "is_first (occurs_at (chars ?s) (chars ?v)) 1 (vw_size ?s) 2"
    using p [THEN conjunct1] f by (metis option.inject)
  moreover have "is_last (occurs_at (chars ?s) (chars ?v)) (min 1 (vw_size ?s)) 0"
    using p [THEN conjunct2, THEN conjunct1] r by metis
  ultimately show ?thesis using f r by blast
qed

text \<open>An empty argument: \<open>rfind\<close> finds it at \<open>pos\<close> or at the end of the view, as the standard wants it,
  and \<open>find\<close> finds it at every position inside the view, but not at its end, where the standard has
  \<open>find\<close> return the size: in particular an empty view does not contain itself.\<close>

theorem view_find_empty:
  assumes "vw_ok s" and "vw_ok v" and "chars v = []"
  shows "vw_find s v pos = Some (if pos < vw_size s then pos else npos) \<and> vw_rfind s v pos = min (vw_size s) pos"
proof -
  obtain r where r: "vw_find s v pos = Some r" "is_first (occurs_at (chars s) []) pos (vw_size s) r"
    using vw_find_eq [OF assms(1,2)] assms(3) by metis
  have "occurs_at (chars s) [] i" if "i < vw_size s" for i
    using that assms(1) by (simp add: occurs_at_def)
  then have "r = (if pos < vw_size s then pos else npos)"
    using r(2) unfolding is_first_def by (smt (verit, best) le_less_trans nless_le order_refl not_le)
  moreover have "vw_size v = 0" using assms(2,3) length_chars by fastforce
  then have "vw_rfind s v pos = min (vw_size s) pos"
    using assms by (simp add: vw_rfind_def)
  ultimately show ?thesis using r(1) by simp
qed

theorem view_find_empty_witness:
  "vw_find (vw_of_string []) (vw_of_string []) 0 = Some npos \<and> vw_rfind (vw_of_string []) (vw_of_string []) 0 = 0"
  using view_find_empty [of "vw_of_string []" "vw_of_string []" 0] by simp

text \<open>The inserter writes the bytes of the view, filled up to the width of the stream with its fill
  character, on the left when the adjustment is \<open>right\<close> and on the right otherwise, and sets the width
  to 0; a stream that is not good is left alone.\<close>

theorem view_inserted:
  assumes "vw_ok v"
  shows "write_to_stream os v =
     (if os_good os
      then let pad = replicate (os_width os - vw_size v) (os_fill os)
           in os\<lparr>os_buf := os_buf os @ (if os_right os then pad @ chars v else chars v @ pad), os_width := 0\<rparr>
      else os)"
  by (simp add: write_to_stream_def Let_def write_padding_eq)

theorem view_inserted_witness:
  "os_buf (write_to_stream \<lparr>os_good = True, os_width = 4, os_fill = 32, os_right = True, os_buf = []\<rparr> (vw_of_string [5, 6]))
     = [32, 32, 5, 6]"
proof -
  have "vw_ok (vw_of_string [5, 6])" by (simp add: npos_def)
  from view_inserted [OF this, of "\<lparr>os_good = True, os_width = 4, os_fill = 32, os_right = True, os_buf = []\<rparr>"]
  show ?thesis by (simp add: numeral_eq_Suc)
qed

end
