(* ===== verification/Any.thy ===== *)
theory Any
  imports Codec
begin

section \<open>Type-erased values (\<open>include/rest_rpc/nonstd_any.hpp\<close>)\<close>

text \<open>
  The class \<open>any\<close>, which a connection has for the data of its user. An \<open>any\<close> owns a \<open>holder\<close> on the
  heap: the field \<open>content\<close> is a pointer, null when there is no value. The state is the heap of holders,
  each a type and a value, and the \<open>any\<close> objects that exist, by name: the variables of the program and
  the temporaries that the operators make. A destructor or a clone that meets a pointer to a holder
  that is gone is \<^const>\<open>None\<close>. \<open>'t\<close> stands for the types and \<open>'v\<close> for their values; \<open>typeid(void)\<close> is
  \<^const>\<open>None\<close>. The second part shows that the objects behave as values.
\<close>

datatype any_name = Var nat | Temp nat

record ('t, 'v) any_state =
  an_heap :: "nat \<rightharpoonup> 't \<times> 'v"
  an_next :: nat
  an_content :: "any_name \<rightharpoonup> nat option"

subsection \<open>Holders\<close>

definition holder_new :: "'t \<times> 'v \<Rightarrow> ('t, 'v) any_state \<Rightarrow> ('t, 'v) any_state \<times> nat" where
  "holder_new tv s =
     (s\<lparr>an_heap := (an_heap s)(an_next s \<mapsto> tv), an_next := an_next s + 1\<rparr>, an_next s)"

definition holder_clone :: "nat \<Rightarrow> ('t, 'v) any_state \<Rightarrow> (('t, 'v) any_state \<times> nat) option" where
  "holder_clone p s = map_option (\<lambda>tv. holder_new tv s) (an_heap s p)"

definition holder_delete :: "nat option \<Rightarrow> ('t, 'v) any_state \<Rightarrow> ('t, 'v) any_state option" where
  "holder_delete content s =
     (case content of
        None \<Rightarrow> Some s
      | Some p \<Rightarrow> if an_heap s p = None then None else Some (s\<lparr>an_heap := (an_heap s)(p := None)\<rparr>))"

subsection \<open>Construction and destruction\<close>

definition set_content :: "any_name \<Rightarrow> nat option \<Rightarrow> ('t, 'v) any_state \<Rightarrow> ('t, 'v) any_state" where
  "set_content x c s = s\<lparr>an_content := (an_content s)(x \<mapsto> c)\<rparr>"

definition any_default :: "any_name \<Rightarrow> ('t, 'v) any_state \<Rightarrow> ('t, 'v) any_state" where
  "any_default x s = set_content x None s"

definition any_copy :: "any_name \<Rightarrow> any_name \<Rightarrow> ('t, 'v) any_state \<Rightarrow> ('t, 'v) any_state option" where
  "any_copy x other s =
     (case the (an_content s other) of
        None \<Rightarrow> Some (set_content x None s)
      | Some p \<Rightarrow> map_option (\<lambda>(s, q). set_content x (Some q) s) (holder_clone p s))"

definition any_move :: "any_name \<Rightarrow> any_name \<Rightarrow> ('t, 'v) any_state \<Rightarrow> ('t, 'v) any_state" where
  "any_move x other s =
     (let s = set_content x (the (an_content s other)) s in set_content other None s)"

definition any_of_value :: "any_name \<Rightarrow> 't \<Rightarrow> 'v \<Rightarrow> ('t, 'v) any_state \<Rightarrow> ('t, 'v) any_state" where
  "any_of_value x t v s = (let (s, p) = holder_new (t, v) s in set_content x (Some p) s)"

text \<open>\<open>in_place_type\<close>: the value is made from the arguments; \<open>make_any\<close> does the same.\<close>

definition any_in_place :: "any_name \<Rightarrow> 't \<Rightarrow> ('a \<Rightarrow> 'v) \<Rightarrow> 'a \<Rightarrow> ('t, 'v) any_state \<Rightarrow> ('t, 'v) any_state" where
  "any_in_place x t construct args s = any_of_value x t (construct args) s"

definition make_any :: "any_name \<Rightarrow> 't \<Rightarrow> ('a \<Rightarrow> 'v) \<Rightarrow> 'a \<Rightarrow> ('t, 'v) any_state \<Rightarrow> ('t, 'v) any_state" where
  "make_any x t construct args s = any_in_place x t construct args s"

definition any_reset :: "any_name \<Rightarrow> ('t, 'v) any_state \<Rightarrow> ('t, 'v) any_state option" where
  "any_reset x s = map_option (set_content x None) (holder_delete (the (an_content s x)) s)"

text \<open>The destructor; the object then no longer exists.\<close>

definition any_destroy :: "any_name \<Rightarrow> ('t, 'v) any_state \<Rightarrow> ('t, 'v) any_state option" where
  "any_destroy x s = map_option (\<lambda>s. s\<lparr>an_content := (an_content s)(x := None)\<rparr>) (any_reset x s)"

subsection \<open>Modifiers\<close>

definition any_swap :: "any_name \<Rightarrow> any_name \<Rightarrow> ('t, 'v) any_state \<Rightarrow> ('t, 'v) any_state" where
  "any_swap x other s =
     (let c = the (an_content s x); d = the (an_content s other)
      in set_content other c (set_content x d s))"

text \<open>The assignments make a temporary, swap, and destroy the temporary with the old contents.\<close>

definition any_assign_copy :: "any_name \<Rightarrow> any_name \<Rightarrow> ('t, 'v) any_state \<Rightarrow> ('t, 'v) any_state option" where
  "any_assign_copy this other s =
     do { s \<leftarrow> any_copy (Temp 0) other s; any_destroy (Temp 0) (any_swap (Temp 0) this s) }"

definition any_assign_move :: "any_name \<Rightarrow> any_name \<Rightarrow> ('t, 'v) any_state \<Rightarrow> ('t, 'v) any_state option" where
  "any_assign_move this other s =
     any_destroy (Temp 0) (any_swap (Temp 0) this (any_move (Temp 0) other s))"

definition any_emplace :: "any_name \<Rightarrow> 't \<Rightarrow> ('a \<Rightarrow> 'v) \<Rightarrow> 'a \<Rightarrow> ('t, 'v) any_state \<Rightarrow> ('t, 'v) any_state option" where
  "any_emplace this t construct args s =
     any_destroy (Temp 0) (any_swap (Temp 0) this (any_of_value (Temp 0) t (construct args) s))"

subsection \<open>Observers\<close>

definition any_has_value :: "any_name \<Rightarrow> ('t, 'v) any_state \<Rightarrow> bool" where
  "any_has_value x s = (the (an_content s x) \<noteq> None)"

definition any_type :: "any_name \<Rightarrow> ('t, 'v) any_state \<Rightarrow> 't option" where
  "any_type x s =
     (if any_has_value x s then Some (fst (the (an_heap s (the (the (an_content s x)))))) else None)"

text \<open>\<open>any_cast\<close> has overloads for a constant, a variable and a temporary; \<open>to_ptr\<close> casts without looking at
  the type. A pointer to an \<open>any\<close> is \<^const>\<open>None\<close> when it is null.\<close>

definition any_to_ptr :: "any_name \<Rightarrow> ('t, 'v) any_state \<Rightarrow> nat option" where
  "any_to_ptr x s = the (an_content s x)"

definition any_cast_ptr :: "'t \<Rightarrow> any_name option \<Rightarrow> ('t, 'v) any_state \<Rightarrow> nat option" where
  "any_cast_ptr t operand s =
     (case operand of
        None \<Rightarrow> None
      | Some x \<Rightarrow> if any_type x s = Some t then any_to_ptr x s else None)"

definition bad_any_cast :: bytes where
  "bad_any_cast = bytes_of ''any-lite: bad any_cast''"

definition any_cast_const :: "'t \<Rightarrow> any_name \<Rightarrow> ('t, 'v) any_state \<Rightarrow> exn + 'v" where
  "any_cast_const t operand s =
     (case any_cast_ptr t (Some operand) s of
        None \<Rightarrow> Inl (Exn_other bad_any_cast)
      | Some result \<Rightarrow> Inr (snd (the (an_heap s result))))"

definition any_cast_rvalue :: "'t \<Rightarrow> any_name \<Rightarrow> ('t, 'v) any_state \<Rightarrow> exn + 'v" where
  "any_cast_rvalue t operand s =
     (case any_cast_ptr t (Some operand) s of
        None \<Rightarrow> Inl (Exn_other bad_any_cast)
      | Some result \<Rightarrow> Inr (snd (the (an_heap s result))))"

definition any_cast :: "'t \<Rightarrow> any_name \<Rightarrow> ('t, 'v) any_state \<Rightarrow> exn + 'v" where
  "any_cast t operand s =
     (case any_cast_ptr t (Some operand) s of
        None \<Rightarrow> Inl (Exn_other bad_any_cast)
      | Some result \<Rightarrow> Inr (snd (the (an_heap s result))))"

subsection \<open>The user data of a connection\<close>

text \<open>\<open>user_data_ = data\<close>: the assignment from a value is a template whose parameter \<open>ValueType\<close> cannot be
  deduced, so the value converts to a temporary \<open>any\<close>, which is moved.\<close>

definition set_user_data :: "any_name \<Rightarrow> 't \<Rightarrow> 'v \<Rightarrow> ('t, 'v) any_state \<Rightarrow> ('t, 'v) any_state option" where
  "set_user_data user_data t data s =
     do {
       s \<leftarrow> any_assign_move user_data (Temp 1) (any_of_value (Temp 1) t data s);
       any_destroy (Temp 1) s
     }"

definition get_user_data :: "any_name \<Rightarrow> 't \<Rightarrow> ('t, 'v) any_state \<Rightarrow> exn + 'v" where
  "get_user_data user_data t s = any_cast t user_data s"

subsection \<open>Ownership\<close>

text \<open>Every pointer points to a holder, no two objects share one, and no holder is without its owner.\<close>

definition any_ok :: "('t, 'v) any_state \<Rightarrow> bool" where
  "any_ok s \<longleftrightarrow>
     dom (an_heap s) \<subseteq> {..<an_next s} \<and>
     (\<forall>x p. an_content s x = Some (Some p) \<longrightarrow> p \<in> dom (an_heap s)) \<and>
     (\<forall>x y p. an_content s x = Some (Some p) \<longrightarrow> an_content s y = Some (Some p) \<longrightarrow> x = y) \<and>
     (\<forall>p\<in>dom (an_heap s). \<exists>x. an_content s x = Some (Some p))"

lemma any_okI:
  assumes "\<And>p. p \<in> dom (an_heap s) \<Longrightarrow> p < an_next s"
    and "\<And>x p. an_content s x = Some (Some p) \<Longrightarrow> p \<in> dom (an_heap s)"
    and "\<And>x y p. an_content s x = Some (Some p) \<Longrightarrow> an_content s y = Some (Some p) \<Longrightarrow> x = y"
    and "\<And>p. p \<in> dom (an_heap s) \<Longrightarrow> \<exists>x. an_content s x = Some (Some p)"
  shows "any_ok s"
  unfolding any_ok_def using assms by blast

lemma any_okD:
  assumes "any_ok s"
  shows "p \<in> dom (an_heap s) \<Longrightarrow> p < an_next s"
    and "an_content s x = Some (Some p) \<Longrightarrow> p \<in> dom (an_heap s)"
    and "an_content s x = Some (Some p) \<Longrightarrow> an_content s y = Some (Some p) \<Longrightarrow> x = y"
    and "p \<in> dom (an_heap s) \<Longrightarrow> \<exists>x. an_content s x = Some (Some p)"
  using assms unfolding any_ok_def by blast+

lemma any_fresh: "any_ok s \<Longrightarrow> an_heap s (an_next s) = None"
  using any_okD(1) by fastforce

lemma any_fresh_content: "any_ok s \<Longrightarrow> an_content s y \<noteq> Some (Some (an_next s))"
  using any_okD(1,2) by (metis less_irrefl)

text \<open>The values of the objects: none, or a type and a value.\<close>

definition any_values :: "('t, 'v) any_state \<Rightarrow> any_name \<rightharpoonup> ('t \<times> 'v) option" where
  "any_values s x = map_option (\<lambda>c. Option.bind c (an_heap s)) (an_content s x)"

lemma any_values_dom: "any_values s x = None \<longleftrightarrow> an_content s x = None"
  by (simp add: any_values_def)

lemma set_content_simps [simp]:
  "an_heap (set_content x c s) = an_heap s" "an_next (set_content x c s) = an_next s"
  "an_content (set_content x c s) = (an_content s)(x \<mapsto> c)"
  by (simp_all add: set_content_def)

text \<open>An object that owns nothing becomes empty, or gets a new holder.\<close>

lemma set_content_None:
  assumes "any_ok s" and "\<And>p. an_content s x \<noteq> Some (Some p)"
  shows "any_ok (set_content x None s)" and "any_values (set_content x None s) = (any_values s)(x \<mapsto> None)"
proof -
  show "any_ok (set_content x None s)"
  proof (rule any_okI)
    fix p assume "p \<in> dom (an_heap (set_content x None s))"
    then obtain y where "an_content s y = Some (Some p)"
      using any_okD(4) [OF assms(1)] by auto
    then show "\<exists>y. an_content (set_content x None s) y = Some (Some p)"
      using assms(2) [of p] by (intro exI [of _ y]) auto
  qed (use any_okD [OF assms(1)] in \<open>auto split: if_splits\<close>)
  show "any_values (set_content x None s) = (any_values s)(x \<mapsto> None)"
    by (auto simp: any_values_def)
qed

lemma any_of_value_values:
  assumes "any_ok s" and "\<And>p. an_content s x \<noteq> Some (Some p)"
  shows "any_ok (any_of_value x t v s)" and "any_values (any_of_value x t v s) = (any_values s)(x \<mapsto> Some (t, v))"
proof -
  let ?s = "any_of_value x t v s"
  have heap: "an_heap ?s = (an_heap s)(an_next s \<mapsto> (t, v))" and n: "an_next ?s = Suc (an_next s)"
    and cont: "an_content ?s = (an_content s)(x \<mapsto> Some (an_next s))"
    by (simp_all add: any_of_value_def holder_new_def)
  show "any_ok ?s"
  proof (rule any_okI)
    fix p assume p: "p \<in> dom (an_heap ?s)"
    then show "p < an_next ?s" using any_okD(1) [OF assms(1), of p] by (fastforce simp: heap n split: if_splits)
    show "\<exists>y. an_content ?s y = Some (Some p)"
    proof (cases "p = an_next s")
      case True
      then show ?thesis by (auto simp: cont)
    next
      case False
      then obtain y where "an_content s y = Some (Some p)"
        using any_okD(4) [OF assms(1)] p by (auto simp: heap)
      then show ?thesis using assms(2) [of p] by (intro exI [of _ y]) (auto simp: cont)
    qed
  qed (use any_okD(2,3) [OF assms(1)] any_fresh_content [OF assms(1)] in \<open>auto simp: heap cont split: if_splits\<close>)
  show "any_values ?s = (any_values s)(x \<mapsto> Some (t, v))"
  proof
    fix y
    show "any_values ?s y = ((any_values s)(x \<mapsto> Some (t, v))) y"
      using any_fresh_content [OF assms(1), of y]
      by (cases "an_content s y"; cases "the (an_content s y)") (auto simp: any_values_def heap cont)
  qed
qed

text \<open>Contents change places.\<close>

lemma any_swap_values:
  assumes "any_ok s" and "an_content s x = Some c" and "an_content s y = Some d"
  shows "any_ok (any_swap x y s)"
    and "any_values (any_swap x y s) = (any_values s)(x := any_values s y, y := any_values s x)"
proof -
  have cont: "an_content (any_swap x y s) = (an_content s)(x \<mapsto> d, y \<mapsto> c)" and heap: "an_heap (any_swap x y s) = an_heap s"
    and n: "an_next (any_swap x y s) = an_next s"
    using assms(2,3) by (simp_all add: any_swap_def Let_def)
  show "any_ok (any_swap x y s)"
  proof (rule any_okI)
    fix p assume "p \<in> dom (an_heap (any_swap x y s))"
    then obtain z where z: "an_content s z = Some (Some p)"
      using any_okD(4) [OF assms(1)] heap by metis
    then show "\<exists>z. an_content (any_swap x y s) z = Some (Some p)"
      using assms(2,3) by (intro exI [of _ "if z = x then y else if z = y then x else z"]) (auto simp: cont)
  next
    fix z w p assume "an_content (any_swap x y s) z = Some (Some p)" "an_content (any_swap x y s) w = Some (Some p)"
    then have "an_content s (if z = x then y else if z = y then x else z) = Some (Some p)"
      "an_content s (if w = x then y else if w = y then x else w) = Some (Some p)"
      using assms(2,3) by (auto simp: cont split: if_splits)
    then show "z = w" using any_okD(3) [OF assms(1)] by (metis (full_types))
  qed (use any_okD(1,2) [OF assms(1)] assms(2,3) in \<open>auto simp: cont heap n split: if_splits\<close>)
  show "any_values (any_swap x y s) = (any_values s)(x := any_values s y, y := any_values s x)"
    using assms(2,3) by (auto simp: any_values_def cont heap fun_eq_iff)
qed

lemma any_move_values:
  assumes "any_ok s" and "an_content s x = None" and "an_content s y = Some d"
  shows "any_ok (any_move x y s)"
    and "any_values (any_move x y s) = (any_values s)(x := any_values s y, y \<mapsto> None)"
proof -
  have xy: "x \<noteq> y" using assms by auto
  have ok: "any_ok (set_content x None s)" using assms by (intro set_content_None(1)) auto
  have eq: "any_move x y s = any_swap x y (set_content x None s)"
    using xy assms(3) by (simp add: any_move_def any_swap_def set_content_def Let_def fun_upd_twist)
  show "any_ok (any_move x y s)"
    unfolding eq using xy assms(3) by (intro any_swap_values(1) [OF ok]) auto
  show "any_values (any_move x y s) = (any_values s)(x := any_values s y, y \<mapsto> None)"
    unfolding eq using xy assms any_swap_values(2) [OF ok, of x None y d] set_content_None(2) [OF assms(1), of x]
    by (auto simp: fun_eq_iff)
qed

lemma any_reset_values:
  assumes "any_ok s" and "an_content s x = Some c"
  shows "\<exists>s'. any_reset x s = Some s' \<and> any_ok s' \<and> any_values s' = (any_values s)(x \<mapsto> None)"
proof (cases c)
  case None
  then show ?thesis
    using set_content_None [OF assms(1), of x] assms(2) by (simp add: any_reset_def holder_delete_def)
next
  case (Some p)
  then have live: "p \<in> dom (an_heap s)" and p: "an_content s x = Some (Some p)"
    using any_okD(2) [OF assms(1)] assms(2) by auto
  let ?s = "set_content x None (s\<lparr>an_heap := (an_heap s)(p := None)\<rparr>)"
  have "any_reset x s = Some ?s"
    using live assms(2) Some by (auto simp: any_reset_def holder_delete_def)
  moreover have "any_ok ?s"
  proof (rule any_okI)
    fix q assume q: "q \<in> dom (an_heap ?s)"
    then obtain y where "an_content s y = Some (Some q)"
      using any_okD(4) [OF assms(1), of q] by (auto split: if_splits)
    then show "\<exists>y. an_content ?s y = Some (Some q)"
      using q p by (intro exI [of _ y]) (auto split: if_splits)
  qed (use any_okD(1,2,3) [OF assms(1)] p in \<open>auto split: if_splits\<close>)
  moreover have "any_values ?s = (any_values s)(x \<mapsto> None)"
  proof
    fix y
    have "an_content s y \<noteq> Some (Some p)" if "y \<noteq> x" using any_okD(3) [OF assms(1) p] that by metis
    then show "any_values ?s y = ((any_values s)(x \<mapsto> None)) y"
      by (cases "an_content s y"; cases "the (an_content s y)") (auto simp: any_values_def)
  qed
  ultimately show ?thesis by blast
qed

lemma any_destroy_values:
  assumes "any_ok s" and "an_content s x = Some c"
  shows "\<exists>s'. any_destroy x s = Some s' \<and> any_ok s' \<and> any_values s' = (any_values s)(x := None)"
proof -
  obtain s1 where s1: "any_reset x s = Some s1" "any_ok s1" "any_values s1 = (any_values s)(x \<mapsto> None)"
    using any_reset_values [OF assms] by blast
  have x: "an_content s1 x = Some None"
    using s1(1) assms(2) by (auto simp: any_reset_def)
  let ?s = "s1\<lparr>an_content := (an_content s1)(x := None)\<rparr>"
  have "any_ok ?s"
  proof (rule any_okI)
    fix q assume "q \<in> dom (an_heap ?s)"
    then obtain y where "an_content s1 y = Some (Some q)"
      using any_okD(4) [OF s1(2), of q] by auto
    then show "\<exists>y. an_content ?s y = Some (Some q)" using x by (intro exI [of _ y]) auto
  qed (use any_okD(1,2,3) [OF s1(2)] in \<open>auto split: if_splits\<close>)
  moreover have "any_values ?s = (any_values s1)(x := None)"
    by (auto simp: any_values_def fun_eq_iff)
  ultimately show ?thesis using s1 by (simp add: any_destroy_def)
qed

lemma any_copy_values:
  assumes "any_ok s" and "an_content s x = None" and "an_content s y = Some d"
  shows "\<exists>s'. any_copy x y s = Some s' \<and> any_ok s' \<and> any_values s' = (any_values s)(x := any_values s y)"
proof (cases d)
  case None
  then show ?thesis
    using set_content_None [OF assms(1), of x] assms(2,3) by (simp add: any_copy_def any_values_def)
next
  case (Some p)
  then obtain t v where tv: "an_heap s p = Some (t, v)" using any_okD(2) [OF assms(1)] assms(3) by fastforce
  have "any_copy x y s = Some (any_of_value x t v s)"
    using assms(3) Some tv by (simp add: any_copy_def holder_clone_def any_of_value_def split: prod.splits)
  then show ?thesis
    using any_of_value_values [OF assms(1), of x t v] assms(2,3) Some tv by (simp add: any_values_def)
qed

lemma any_content_Some: "any_values s x = Some v \<Longrightarrow> \<exists>c. an_content s x = Some c"
  by (auto simp: any_values_def)

subsection \<open>The objects are values\<close>

text \<open>What the user of the class does with the variables of the program, and what it means for values.\<close>

datatype ('t, 'v) any_op =
    Op_default nat
  | Op_copy nat nat
  | Op_move nat nat
  | Op_value nat 't 'v
  | Op_assign_copy nat nat
  | Op_assign_move nat nat
  | Op_emplace nat 't 'v
  | Op_reset nat
  | Op_swap nat nat
  | Op_destroy nat
  | Op_user_data nat 't 'v

fun any_step :: "('t, 'v) any_op \<Rightarrow> ('t, 'v) any_state \<Rightarrow> ('t, 'v) any_state option" where
  "any_step (Op_default x) s = Some (any_default (Var x) s)"
| "any_step (Op_copy x y) s = any_copy (Var x) (Var y) s"
| "any_step (Op_move x y) s = Some (any_move (Var x) (Var y) s)"
| "any_step (Op_value x t v) s = Some (any_of_value (Var x) t v s)"
| "any_step (Op_assign_copy x y) s = any_assign_copy (Var x) (Var y) s"
| "any_step (Op_assign_move x y) s = any_assign_move (Var x) (Var y) s"
| "any_step (Op_emplace x t v) s = any_emplace (Var x) t id v s"
| "any_step (Op_reset x) s = any_reset (Var x) s"
| "any_step (Op_swap x y) s = Some (any_swap (Var x) (Var y) s)"
| "any_step (Op_destroy x) s = any_destroy (Var x) s"
| "any_step (Op_user_data x t v) s = set_user_data (Var x) t v s"

text \<open>A constructor makes a new variable, everything else is done with variables that exist.\<close>

fun value_step :: "('t, 'v) any_op \<Rightarrow> (nat \<rightharpoonup> ('t \<times> 'v) option) \<Rightarrow> (nat \<rightharpoonup> ('t \<times> 'v) option) option" where
  "value_step (Op_default x) m = (if m x = None then Some (m(x \<mapsto> None)) else None)"
| "value_step (Op_copy x y) m = (if m x = None \<and> m y \<noteq> None then Some (m(x := m y)) else None)"
| "value_step (Op_move x y) m = (if m x = None \<and> m y \<noteq> None then Some (m(x := m y, y \<mapsto> None)) else None)"
| "value_step (Op_value x t v) m = (if m x = None then Some (m(x \<mapsto> Some (t, v))) else None)"
| "value_step (Op_assign_copy x y) m = (if m x \<noteq> None \<and> m y \<noteq> None then Some (m(x := m y)) else None)"
| "value_step (Op_assign_move x y) m =
     (if m x \<noteq> None \<and> m y \<noteq> None then Some (if x = y then m else m(x := m y, y \<mapsto> None)) else None)"
| "value_step (Op_emplace x t v) m = (if m x \<noteq> None then Some (m(x \<mapsto> Some (t, v))) else None)"
| "value_step (Op_reset x) m = (if m x \<noteq> None then Some (m(x \<mapsto> None)) else None)"
| "value_step (Op_swap x y) m = (if m x \<noteq> None \<and> m y \<noteq> None then Some (m(x := m y, y := m x)) else None)"
| "value_step (Op_destroy x) m = (if m x \<noteq> None then Some (m(x := None)) else None)"
| "value_step (Op_user_data x t v) m = (if m x \<noteq> None then Some (m(x \<mapsto> Some (t, v))) else None)"

text \<open>The state stands for the values \<open>m\<close> of the variables; there are no temporaries between operations.\<close>

definition any_rep :: "('t, 'v) any_state \<Rightarrow> (nat \<rightharpoonup> ('t \<times> 'v) option) \<Rightarrow> bool" where
  "any_rep s m \<longleftrightarrow> any_ok s \<and> any_values s = case_any_name m (\<lambda>i. None)"

lemma any_rep_ok: "any_rep s m \<Longrightarrow> any_ok s"
  by (simp add: any_rep_def)

lemma any_rep_content:
  assumes "any_rep s m"
  shows "an_content s (Temp i) = None" and "m x = None \<Longrightarrow> an_content s (Var x) = None"
    and "m x \<noteq> None \<Longrightarrow> \<exists>c. an_content s (Var x) = Some c"
proof -
  have "any_values s (Temp i) = None" and v: "any_values s (Var x) = m x"
    using assms by (simp_all add: any_rep_def)
  then show "an_content s (Temp i) = None" by (simp add: any_values_dom)
  show "m x = None \<Longrightarrow> an_content s (Var x) = None" using v by (simp add: any_values_dom)
  show "m x \<noteq> None \<Longrightarrow> \<exists>c. an_content s (Var x) = Some c" using v any_content_Some by fastforce
qed

lemma swap_destroy:
  assumes "any_ok s" and "an_content s x = Some c" and "an_content s y = Some d"
  shows "\<exists>s'. any_destroy x (any_swap x y s) = Some s' \<and> any_ok s' \<and>
    any_values s' = (any_values s)(y := any_values s x, x := None)"
proof -
  let ?s = "any_swap x y s"
  have "\<exists>e. an_content ?s x = Some e" by (simp add: any_swap_def Let_def)
  then show ?thesis
    using any_destroy_values [OF any_swap_values(1) [OF assms], of x] any_swap_values(2) [OF assms]
    by (auto simp: fun_eq_iff)
qed

lemma any_assign_copy_values:
  assumes "any_ok s" and "an_content s (Temp 0) = None" and "an_content s x = Some c" and "an_content s y = Some d"
  shows "\<exists>s'. any_assign_copy x y s = Some s' \<and> any_ok s' \<and> any_values s' = (any_values s)(x := any_values s y)"
proof -
  obtain s1 where s1: "any_copy (Temp 0) y s = Some s1" "any_ok s1"
    "any_values s1 = (any_values s)(Temp 0 := any_values s y)"
    using any_copy_values [OF assms(1,2,4)] by blast
  have x: "x \<noteq> Temp 0" "y \<noteq> Temp 0" using assms by auto
  have "any_values s1 (Temp 0) \<noteq> None" "any_values s1 x \<noteq> None" using s1(3) x assms by (auto simp: any_values_def)
  then obtain c1 d1 where "an_content s1 (Temp 0) = Some c1" "an_content s1 x = Some d1"
    using any_content_Some by (metis option.exhaust)
  then obtain s2 where s2: "any_destroy (Temp 0) (any_swap (Temp 0) x s1) = Some s2" "any_ok s2"
    "any_values s2 = (any_values s1)(x := any_values s1 (Temp 0), Temp 0 := None)"
    using swap_destroy [OF s1(2)] by blast
  have t: "any_values s (Temp 0) = None" using assms(2) by (simp add: any_values_dom)
  have "any_values s2 = (any_values s)(x := any_values s y)"
    using s2(3) s1(3) x t by (auto simp: fun_eq_iff)
  then show ?thesis using s1(1) s2(1,2) by (simp add: any_assign_copy_def)
qed

lemma any_assign_move_values:
  assumes "any_ok s" and "an_content s (Temp 0) = None" and "an_content s x = Some c" and "an_content s y = Some d"
  shows "\<exists>s'. any_assign_move x y s = Some s' \<and> any_ok s' \<and>
    any_values s' = (if x = y then any_values s else (any_values s)(x := any_values s y, y \<mapsto> None))"
proof -
  let ?s1 = "any_move (Temp 0) y s"
  note s1 = any_move_values [OF assms(1,2,4)]
  have x: "x \<noteq> Temp 0" "y \<noteq> Temp 0" using assms by auto
  have "any_values ?s1 (Temp 0) \<noteq> None" "any_values ?s1 x \<noteq> None" using s1(2) x assms by (auto simp: any_values_def)
  then obtain c1 d1 where "an_content ?s1 (Temp 0) = Some c1" "an_content ?s1 x = Some d1"
    using any_content_Some by (metis option.exhaust)
  then obtain s2 where s2: "any_destroy (Temp 0) (any_swap (Temp 0) x ?s1) = Some s2" "any_ok s2"
    "any_values s2 = (any_values ?s1)(x := any_values ?s1 (Temp 0), Temp 0 := None)"
    using swap_destroy [OF s1(1)] by blast
  have t: "any_values s (Temp 0) = None" using assms(2) by (simp add: any_values_dom)
  have "any_values s2 = (if x = y then any_values s else (any_values s)(x := any_values s y, y \<mapsto> None))"
    using s2(3) s1(2) x t by (auto simp: fun_eq_iff)
  then show ?thesis using s2(1,2) by (simp add: any_assign_move_def)
qed

lemma any_emplace_values:
  assumes "any_ok s" and "an_content s (Temp 0) = None" and "an_content s x = Some c"
  shows "\<exists>s'. any_emplace x t f a s = Some s' \<and> any_ok s' \<and> any_values s' = (any_values s)(x \<mapsto> Some (t, f a))"
proof -
  let ?s1 = "any_of_value (Temp 0) t (f a) s"
  have s1: "any_ok ?s1" "any_values ?s1 = (any_values s)(Temp 0 \<mapsto> Some (t, f a))"
    using any_of_value_values [OF assms(1), of "Temp 0"] assms(2) by auto
  have x: "x \<noteq> Temp 0" using assms by auto
  have "any_values ?s1 (Temp 0) \<noteq> None" "any_values ?s1 x \<noteq> None" using s1(2) x assms by (auto simp: any_values_def)
  then obtain c1 d1 where "an_content ?s1 (Temp 0) = Some c1" "an_content ?s1 x = Some d1"
    using any_content_Some by (metis option.exhaust)
  then obtain s2 where s2: "any_destroy (Temp 0) (any_swap (Temp 0) x ?s1) = Some s2" "any_ok s2"
    "any_values s2 = (any_values ?s1)(x := any_values ?s1 (Temp 0), Temp 0 := None)"
    using swap_destroy [OF s1(1)] by blast
  have t: "any_values s (Temp 0) = None" using assms(2) by (simp add: any_values_dom)
  have "any_values s2 = (any_values s)(x \<mapsto> Some (t, f a))"
    using s2(3) s1(2) x t by (auto simp: fun_eq_iff)
  then show ?thesis using s2(1,2) by (simp add: any_emplace_def)
qed

lemma set_user_data_values:
  assumes "any_ok s" and "an_content s (Temp 0) = None" and "an_content s (Temp 1) = None"
    and "an_content s x = Some c"
  shows "\<exists>s'. set_user_data x t v s = Some s' \<and> any_ok s' \<and> any_values s' = (any_values s)(x \<mapsto> Some (t, v))"
proof -
  let ?s1 = "any_of_value (Temp 1) t v s"
  have s1: "any_ok ?s1" "any_values ?s1 = (any_values s)(Temp 1 \<mapsto> Some (t, v))"
    using any_of_value_values [OF assms(1), of "Temp 1"] assms(3) by auto
  have x: "x \<noteq> Temp 0" "x \<noteq> Temp 1" using assms by auto
  have "any_values ?s1 (Temp 0) = None" using s1(2) assms(2) by (simp add: any_values_dom)
  then have t0: "an_content ?s1 (Temp 0) = None" by (simp add: any_values_dom)
  have "any_values ?s1 (Temp 1) \<noteq> None" "any_values ?s1 x \<noteq> None" using s1(2) x assms by (auto simp: any_values_def)
  then obtain c1 d1 where "an_content ?s1 (Temp 1) = Some c1" "an_content ?s1 x = Some d1"
    using any_content_Some by (metis option.exhaust)
  then obtain s2 where s2: "any_assign_move x (Temp 1) ?s1 = Some s2" "any_ok s2"
    "any_values s2 = (any_values ?s1)(x := any_values ?s1 (Temp 1), Temp 1 \<mapsto> None)"
    using any_assign_move_values [OF s1(1) t0, of x d1 "Temp 1" c1] x by auto
  then obtain c2 where "an_content s2 (Temp 1) = Some c2" using any_content_Some by (metis fun_upd_same)
  then obtain s3 where s3: "any_destroy (Temp 1) s2 = Some s3" "any_ok s3" "any_values s3 = (any_values s2)(Temp 1 := None)"
    using any_destroy_values [OF s2(2)] by blast
  have t1: "any_values s (Temp 1) = None" using assms(3) by (simp add: any_values_dom)
  have "any_values s3 = (any_values s)(x \<mapsto> Some (t, v))"
    using s3(3) s2(3) s1(2) x t1 by (auto simp: fun_eq_iff)
  then show ?thesis using s2(1) s3(1,2) by (simp add: set_user_data_def)
qed

lemma any_rep_fun: "any_values s = (case_any_name m (\<lambda>i. None))(Var x := v) \<Longrightarrow>
  any_values s = case_any_name (m(x := v)) (\<lambda>i. None)"
  by (auto simp: fun_eq_iff split: any_name.splits)

lemma any_repI:
  assumes "any_ok s'" and "any_values s' = (any_values s)(Var x := v)" and "any_rep s m"
  shows "any_rep s' (m(x := v))"
  using assms any_rep_fun [of s' m x v] by (simp add: any_rep_def)

lemma any_repI2:
  assumes "any_ok s'" and "any_values s' = (any_values s)(Var x := v, Var y := w)" and "any_rep s m"
  shows "any_rep s' (m(x := v, y := w))"
  using assms by (auto simp: any_rep_def fun_eq_iff split: any_name.splits)

lemma any_rep_Var: "any_rep s m \<Longrightarrow> any_values s (Var x) = m x"
  by (simp add: any_rep_def)

lemma any_step_value_step:
  assumes "any_rep s m" and "value_step e m = Some m'"
  shows "\<exists>s'. any_step e s = Some s' \<and> any_rep s' m'"
proof -
  note ok = any_rep_ok [OF assms(1)] and content = any_rep_content [OF assms(1)] and v = any_rep_Var [OF assms(1)]
  show ?thesis
  proof (cases e)
    case (Op_default x)
    then have "m x = None" "m' = m(x \<mapsto> None)" using assms(2) by (auto split: if_splits)
    then show ?thesis
      using Op_default set_content_None [OF ok, of "Var x"] content(2) any_repI [OF _ _ assms(1)]
      by (simp add: any_default_def)
  next
    case (Op_copy x y)
    then have x: "m x = None" "m y \<noteq> None" "m' = m(x := m y)" using assms(2) by (auto split: if_splits)
    then obtain d where "an_content s (Var y) = Some d" using content(3) by blast
    then show ?thesis
      using Op_copy x any_copy_values [OF ok content(2)] any_repI [OF _ _ assms(1)] v by (metis any_step.simps(2))
  next
    case (Op_move x y)
    then have x: "m x = None" "m y \<noteq> None" "m' = m(x := m y, y \<mapsto> None)" using assms(2) by (auto split: if_splits)
    then obtain d where "an_content s (Var y) = Some d" using content(3) by blast
    then show ?thesis
      using Op_move x any_move_values [OF ok content(2)] any_repI2 [OF _ _ assms(1)] v by (metis any_step.simps(3))
  next
    case (Op_value x t w)
    then have "m x = None" "m' = m(x \<mapsto> Some (t, w))" using assms(2) by (auto split: if_splits)
    then show ?thesis
      using Op_value any_of_value_values [OF ok, of "Var x" t w] content(2) any_repI [OF _ _ assms(1)] by simp
  next
    case (Op_assign_copy x y)
    then have x: "m x \<noteq> None" "m y \<noteq> None" "m' = m(x := m y)" using assms(2) by (auto split: if_splits)
    then obtain c d where "an_content s (Var x) = Some c" "an_content s (Var y) = Some d" using content(3) by metis
    then show ?thesis
      using Op_assign_copy x any_assign_copy_values [OF ok content(1)] any_repI [OF _ _ assms(1)] v
      by (metis any_step.simps(5))
  next
    case (Op_assign_move x y)
    then have x: "m x \<noteq> None" "m y \<noteq> None" "m' = (if x = y then m else m(x := m y, y \<mapsto> None))"
      using assms(2) by (auto split: if_splits)
    then obtain c d where "an_content s (Var x) = Some c" "an_content s (Var y) = Some d" using content(3) by metis
    then obtain s' where s': "any_assign_move (Var x) (Var y) s = Some s'" "any_ok s'"
      "any_values s' = (if x = y then any_values s else (any_values s)(Var x := m y, Var y \<mapsto> None))"
      using any_assign_move_values [OF ok content(1)] v by (metis any_name.inject(1))
    have "any_rep s' m'"
      using s'(2,3) x(3) assms(1) any_repI2 [OF s'(2) _ assms(1)] by (auto simp: any_rep_def split: if_splits)
    then show ?thesis using Op_assign_move s'(1) by simp
  next
    case (Op_emplace x t w)
    then have x: "m x \<noteq> None" "m' = m(x \<mapsto> Some (t, w))" using assms(2) by (auto split: if_splits)
    then obtain c where "an_content s (Var x) = Some c" using content(3) by metis
    then show ?thesis
      using Op_emplace x any_emplace_values [OF ok content(1), of "Var x" c t id w] any_repI [OF _ _ assms(1)] by auto
  next
    case (Op_reset x)
    then have x: "m x \<noteq> None" "m' = m(x \<mapsto> None)" using assms(2) by (auto split: if_splits)
    then obtain c where "an_content s (Var x) = Some c" using content(3) by metis
    then show ?thesis
      using Op_reset x any_reset_values [OF ok] any_repI [OF _ _ assms(1)] by (metis any_step.simps(8))
  next
    case (Op_swap x y)
    then have x: "m x \<noteq> None" "m y \<noteq> None" "m' = m(x := m y, y := m x)" using assms(2) by (auto split: if_splits)
    then obtain c d where "an_content s (Var x) = Some c" "an_content s (Var y) = Some d" using content(3) by metis
    then show ?thesis
      using Op_swap x any_swap_values [OF ok] any_repI2 [OF _ _ assms(1)] v by (metis any_step.simps(9))
  next
    case (Op_destroy x)
    then have x: "m x \<noteq> None" "m' = m(x := None)" using assms(2) by (auto split: if_splits)
    then obtain c where "an_content s (Var x) = Some c" using content(3) by metis
    then show ?thesis
      using Op_destroy x any_destroy_values [OF ok] any_repI [OF _ _ assms(1)] by (metis any_step.simps(10))
  next
    case (Op_user_data x t w)
    then have x: "m x \<noteq> None" "m' = m(x \<mapsto> Some (t, w))" using assms(2) by (auto split: if_splits)
    then obtain c where "an_content s (Var x) = Some c" using content(3) by metis
    then show ?thesis
      using Op_user_data x set_user_data_values [OF ok content(1) content(1), of "Var x" c t w]
        any_repI [OF _ _ assms(1)] by auto
  qed
qed

lemma any_run_value_run:
  assumes "any_rep s m" and "fold_opt value_step es m = Some m'"
  shows "\<exists>s'. fold_opt any_step es s = Some s' \<and> any_rep s' m'"
  using assms
proof (induction es arbitrary: s m)
  case (Cons e es)
  then obtain m1 where m1: "value_step e m = Some m1" "fold_opt value_step es m1 = Some m'"
    by (auto simp: bind_eq_Some_conv)
  then obtain s1 where "any_step e s = Some s1" "any_rep s1 m1"
    using any_step_value_step [OF Cons.prems(1)] by blast
  then show ?case using Cons.IH [OF _ m1(2)] by simp
qed simp

definition any_start :: "('t, 'v) any_state" where
  "any_start = \<lparr>an_heap = Map.empty, an_next = 0, an_content = Map.empty\<rparr>"

lemma any_rep_start: "any_rep any_start Map.empty"
  by (auto simp: any_rep_def any_start_def any_ok_def any_values_def fun_eq_iff split: any_name.splits)

lemma any_cast_rep:
  assumes "any_rep s m" and "m x = Some w"
  shows "any_cast t (Var x) s =
      (case w of Some (t', v) \<Rightarrow> if t' = t then Inr v else Inl (Exn_other bad_any_cast) | None \<Rightarrow> Inl (Exn_other bad_any_cast))"
    and "any_has_value (Var x) s = (w \<noteq> None)" and "any_type (Var x) s = map_option fst w"
proof -
  obtain c where c: "an_content s (Var x) = Some c" using any_rep_content(3) [OF assms(1)] assms(2) by blast
  have w: "w = Option.bind c (an_heap s)"
    using any_rep_Var [OF assms(1), of x] assms(2) c by (simp add: any_values_def)
  have live: "\<exists>tv. an_heap s p = Some tv" if "c = Some p" for p
    using any_okD(2) [OF any_rep_ok [OF assms(1)]] c that by blast
  show has: "any_has_value (Var x) s = (w \<noteq> None)"
    using c w live by (cases c) (auto simp: any_has_value_def)
  show type: "any_type (Var x) s = map_option fst w"
    using c w live by (cases c) (auto simp: any_has_value_def any_type_def)
  show "any_cast t (Var x) s =
      (case w of Some (t', v) \<Rightarrow> if t' = t then Inr v else Inl (Exn_other bad_any_cast) | None \<Rightarrow> Inl (Exn_other bad_any_cast))"
    using c w live type by (cases c) (auto simp: any_cast_def any_cast_ptr_def any_to_ptr_def split: option.splits)
qed

subsection \<open>Properties\<close>

text \<open>C11. The objects are values: whatever the program does with variables of this class (constructing them
  empty, from a value, by copy or move; assigning by copy or move, also to themselves; \<open>emplace\<close>,
  \<open>reset\<close>, \<open>swap\<close>, destruction, the user data of a connection), no pointer to a deleted holder is ever
  used or deleted again, every holder on the heap has exactly one owner, and every variable holds the
  type and the value, as \<open>any_cast\<close> reads it, that it would hold if the variables were values: a copy
  does not change with its original, a moved object is empty, and assigning an object to itself
  changes nothing.\<close>

theorem any_is_a_value:
  assumes "fold_opt value_step es Map.empty = Some m"
  shows "\<exists>s. fold_opt any_step es any_start = Some s \<and>
     (\<forall>x. m x = None \<longleftrightarrow> an_content s (Var x) = None) \<and>
     (\<forall>x w. m x = Some w \<longrightarrow> any_type (Var x) s = map_option fst w \<and> any_has_value (Var x) s = (w \<noteq> None) \<and>
        (\<forall>t. any_cast t (Var x) s =
           (case w of Some (t', v) \<Rightarrow> if t' = t then Inr v else Inl (Exn_other bad_any_cast)
                    | None \<Rightarrow> Inl (Exn_other bad_any_cast)))) \<and>
     (\<forall>x y p. an_content s x = Some (Some p) \<longrightarrow> an_content s y = Some (Some p) \<longrightarrow> x = y) \<and>
     dom (an_heap s) = {p. \<exists>x. an_content s (Var x) = Some (Some p)}"
proof -
  obtain s where s: "fold_opt any_step es any_start = Some s" "any_rep s m"
    using any_run_value_run [OF any_rep_start assms] by blast
  have ok: "any_ok s" using s(2) by (rule any_rep_ok)
  have "\<exists>x. an_content s (Var x) = Some (Some p)" if p: "p \<in> dom (an_heap s)" for p
  proof -
    obtain x where x: "an_content s x = Some (Some p)" using any_okD(4) [OF ok p] by blast
    then show ?thesis using any_rep_content(1) [OF s(2)] by (cases x) auto
  qed
  then have heap: "dom (an_heap s) = {p. \<exists>x. an_content s (Var x) = Some (Some p)}"
    using any_okD(2) [OF ok] by blast
  have dom: "m x = None \<longleftrightarrow> an_content s (Var x) = None" for x
    using any_rep_Var [OF s(2), of x] any_values_dom [of s "Var x"] by metis
  show ?thesis
    using s(1) dom heap any_okD(3) [OF ok] any_cast_rep [OF s(2)] by (intro exI [of _ s]) blast
qed

text \<open>The program of the witnesses: a value, a copy of it, a change of the original, a self-assignment, a
  move, and the end of a variable.\<close>

definition demo_any_ops :: "(nat, nat) any_op list" where
  "demo_any_ops = [Op_value 0 7 42, Op_copy 1 0, Op_user_data 0 8 43, Op_assign_move 1 1, Op_move 2 0,
     Op_assign_copy 0 1, Op_destroy 1]"

lemma demo_any_ops:
  "fold_opt value_step demo_any_ops Map.empty = Some [0 \<mapsto> Some (7, 42), 2 \<mapsto> Some (8, 43)]"
  by (auto simp: demo_any_ops_def fun_eq_iff)

theorem any_is_a_value_witness:
  "\<exists>s. fold_opt any_step demo_any_ops any_start = Some s \<and> any_cast 7 (Var 0) s = Inr 42 \<and>
     any_cast 8 (Var 2) s = Inr 43 \<and> any_type (Var 2) s = Some 8 \<and> an_content s (Var 1) = None"
  using any_is_a_value [OF demo_any_ops] by auto

text \<open>C35. \<open>any_cast\<close> gives the value back exactly when it is asked for with the type that the object holds, and
  throws \<open>bad_any_cast\<close> for any other type and for an empty object; so \<open>get_user_data\<close> of a
  connection returns what \<open>set_user_data\<close> stored last, and only under its type.\<close>

theorem user_data_round_trip:
  assumes "fold_opt value_step es Map.empty = Some m" and "m x \<noteq> None"
  shows "\<exists>s s'. fold_opt any_step es any_start = Some s \<and> set_user_data (Var x) t v s = Some s' \<and>
     get_user_data (Var x) t s' = Inr v \<and>
     any_cast_const t (Var x) s' = Inr v \<and> any_cast_rvalue t (Var x) s' = Inr v \<and>
     (t' \<noteq> t \<longrightarrow> get_user_data (Var x) t' s' = Inl (Exn_other bad_any_cast)) \<and>
     (\<forall>y w. y \<noteq> x \<longrightarrow> m y = Some w \<longrightarrow> any_cast t' (Var y) s' = any_cast t' (Var y) s)"
proof -
  obtain s where s: "fold_opt any_step es any_start = Some s" "any_rep s m"
    using any_run_value_run [OF any_rep_start assms(1)] by blast
  obtain s' where s': "set_user_data (Var x) t v s = Some s'" "any_rep s' (m(x \<mapsto> Some (t, v)))"
    using any_step_value_step [OF s(2), of "Op_user_data x t v"] assms(2) by auto
  have overloads: "any_cast_const t (Var x) s' = any_cast t (Var x) s'" "any_cast_rvalue t (Var x) s' = any_cast t (Var x) s'"
    by (simp_all add: any_cast_const_def any_cast_rvalue_def any_cast_def)
  have "any_cast t (Var x) s' = Inr v" "t' \<noteq> t \<longrightarrow> any_cast t' (Var x) s' = Inl (Exn_other bad_any_cast)"
    using any_cast_rep(1) [OF s'(2), of x "Some (t, v)"] by simp_all
  moreover have "any_cast t' (Var y) s' = any_cast t' (Var y) s" if "y \<noteq> x" "m y = Some w" for y w
    using any_cast_rep(1) [OF s'(2), of y w] any_cast_rep(1) [OF s(2), of y w] that by simp
  ultimately show ?thesis
    using s(1) s'(1) by (intro exI [of _ s] exI [of _ s']) (simp add: get_user_data_def overloads)
qed

theorem user_data_round_trip_witness:
  "\<exists>s s'. fold_opt any_step demo_any_ops any_start = Some s \<and> set_user_data (Var 2) 9 44 s = Some s' \<and>
     get_user_data (Var 2) 9 s' = Inr 44 \<and> get_user_data (Var 2) 8 s' = Inl (Exn_other bad_any_cast)"
  using user_data_round_trip [OF demo_any_ops, of 2 9 44 8] by auto

end
