(* ===== verification/Meta_Util.thy ===== *)
theory Meta_Util
  imports Prelude
begin

section \<open>Compile-time helpers (\<open>include/rest_rpc/cplusplus_14.h\<close>, \<open>meta_util.hpp\<close>)\<close>

text \<open>
  The templates with which the router spreads the tuple of unpacked arguments over the parameters of a
  registered function, with which it derives the type of that tuple from the type of the function, and the call it makes with it.
  An \<open>index_sequence\<close> is the list of its numbers, a tuple the list of its elements; a type of C++ is a
  named type under \<open>const\<close> and references, and \<open>function_traits\<close> is a function on the types of
  callables. The lemmas show that the index sequences count up from zero, so that every element of a
  tuple is passed once and in order, and for which functions the call of the router compiles.
\<close>

subsection \<open>Index sequences\<close>

type_synonym index_sequence = "nat list"

definition index_sequence_size :: "index_sequence \<Rightarrow> nat" where
  "index_sequence_size is = length is"

definition merge_and_renumber :: "index_sequence \<Rightarrow> index_sequence \<Rightarrow> index_sequence" where
  "merge_and_renumber I1 I2 = I1 @ map (\<lambda>i. length I1 + i) I2"

function make_index_sequence :: "nat \<Rightarrow> index_sequence" where
  "make_index_sequence N =
     (if N = 0 then [] else if N = 1 then [0]
      else merge_and_renumber (make_index_sequence (N div 2)) (make_index_sequence (N - N div 2)))"
  by pat_completeness auto
termination
  by (relation "measure id") auto

declare make_index_sequence.simps [simp del]

definition index_sequence_for :: "'t list \<Rightarrow> index_sequence" where
  "index_sequence_for ts = make_index_sequence (length ts)"

lemma merge_upt: "merge_and_renumber [0..<m] [0..<n] = [0..<m + n]"
proof -
  have "map (\<lambda>i. m + i) [0..<n] = [m..<m + n]"
    using map_add_upt [of m n] by (simp add: add.commute)
  then show ?thesis
    using upt_add_eq_append [of 0 m n] by (simp add: merge_and_renumber_def)
qed

lemma make_index_sequence_upt [simp]: "make_index_sequence N = [0..<N]"
proof (induction N rule: make_index_sequence.induct)
  case (1 N)
  show ?case
  proof (cases "N \<le> 1")
    case True
    then show ?thesis by (cases N) (simp_all add: make_index_sequence.simps)
  next
    case False
    then show ?thesis
      using 1 merge_upt [of "N div 2" "N - N div 2"] by (simp add: make_index_sequence.simps [of N])
  qed
qed

subsection \<open>Spreading a tuple\<close>

definition apply_helper :: "('e list \<Rightarrow> 'r) \<Rightarrow> 'e list \<Rightarrow> index_sequence \<Rightarrow> 'r" where
  "apply_helper f tp idx = f (map (\<lambda>i. tp ! i) idx)"

definition apply_tuple :: "('e list \<Rightarrow> 'r) \<Rightarrow> 'e list \<Rightarrow> 'r" where
  "apply_tuple f tp = apply_helper f tp (make_index_sequence (length tp))"

definition invoke :: "('e list \<Rightarrow> 'r) \<Rightarrow> 'e list \<Rightarrow> 'r" where
  "invoke f args = f args"

text \<open>The router's own helpers: the connection comes first.\<close>

definition call_helper :: "('c \<Rightarrow> 'e list \<Rightarrow> 'r) \<Rightarrow> index_sequence \<Rightarrow> 'e list \<Rightarrow> 'c \<Rightarrow> 'r" where
  "call_helper f I tup ptr = f ptr (map (\<lambda>i. tup ! i) I)"

definition call_member_helper ::
    "('self \<Rightarrow> 'c \<Rightarrow> 'e list \<Rightarrow> 'r) \<Rightarrow> 'self \<Rightarrow> index_sequence \<Rightarrow> 'e list \<Rightarrow> 'c \<Rightarrow> 'r" where
  "call_member_helper f self I tup ptr = f self ptr (map (\<lambda>i. tup ! i) I)"

text \<open>The elements of a braced list are evaluated from left to right; \<open>f\<close> acts on a state.\<close>

definition for_each :: "'e list \<Rightarrow> ('e \<Rightarrow> 's \<Rightarrow> 's) \<Rightarrow> index_sequence \<Rightarrow> 's \<Rightarrow> 's" where
  "for_each t f idx s = fold (\<lambda>i. f (t ! i)) idx s"

definition for_each_i :: "'e list \<Rightarrow> ('e \<Rightarrow> nat \<Rightarrow> 's \<Rightarrow> 's) \<Rightarrow> index_sequence \<Rightarrow> 's \<Rightarrow> 's" where
  "for_each_i t f idx s = fold (\<lambda>i. f (t ! i) i) idx s"

definition tuple_switch_at :: "nat \<Rightarrow> (nat \<Rightarrow> 's \<Rightarrow> 's) \<Rightarrow> index_sequence \<Rightarrow> 's \<Rightarrow> 's" where
  "tuple_switch_at i f idx s = fold (\<lambda>j s. if i = j then f j s else s) idx s"

definition tuple_switch :: "nat \<Rightarrow> 'e list \<Rightarrow> (nat \<Rightarrow> 's \<Rightarrow> 's) \<Rightarrow> 's \<Rightarrow> 's" where
  "tuple_switch i t f s = tuple_switch_at i f (make_index_sequence (length t)) s"

lemma fold_switch:
  "fold (\<lambda>j s. if i = j then f j s else s) [0..<n] s = (if i < n then f i s else s)"
  by (induction n) auto

lemma fold_nth: "fold (\<lambda>i. f (t ! i)) [0..<length t] s = fold f t s"
proof -
  have "fold (\<lambda>i. f (t ! i)) [0..<length t] s = fold f (map ((!) t) [0..<length t]) s"
    by (simp add: fold_map comp_def)
  then show ?thesis by (simp only: map_nth)
qed

subsection \<open>Types of functions\<close>

datatype cpp_type =
    Named string
  | Const cpp_type
  | LRef cpp_type
  | RRef cpp_type

fun remove_reference :: "cpp_type \<Rightarrow> cpp_type" where
  "remove_reference (LRef t) = t"
| "remove_reference (RRef t) = t"
| "remove_reference t = t"

fun remove_const :: "cpp_type \<Rightarrow> cpp_type" where
  "remove_const (Const t) = t"
| "remove_const t = t"

definition remove_const_reference :: "cpp_type \<Rightarrow> cpp_type" where
  "remove_const_reference t = remove_const (remove_reference t)"

record signature =
  sg_return :: cpp_type
  sg_args :: "cpp_type list"

text \<open>The callables that \<open>function_traits\<close> has a case for; the last one is any other class, through its
  \<open>operator()\<close>.\<close>

datatype callable =
    Fun_type signature
  | Fun_pointer signature
  | Std_function signature
  | Member_function string signature
  | Const_member_function string signature
  | Functor callable

record fn_traits =
  ft_arity :: nat
  ft_return_type :: cpp_type
  ft_tuple_type :: "cpp_type list"
  ft_bare_tuple_type :: "cpp_type list"
  ft_args_tuple :: "cpp_type list"
  ft_args_tuple_2nd :: "cpp_type list"

definition std_string :: cpp_type where
  "std_string = Named ''std::string''"

definition traits_of_signature :: "signature \<Rightarrow> fn_traits" where
  "traits_of_signature sg =
     (case sg_args sg of
        [] \<Rightarrow>
          \<lparr>ft_arity = 0, ft_return_type = sg_return sg, ft_tuple_type = [], ft_bare_tuple_type = [],
           ft_args_tuple = [std_string], ft_args_tuple_2nd = [std_string]\<rparr>
      | arg # args \<Rightarrow>
          \<lparr>ft_arity = length args + 1, ft_return_type = sg_return sg, ft_tuple_type = arg # args,
           ft_bare_tuple_type = map (\<lambda>t. remove_const (remove_reference t)) args,
           ft_args_tuple = std_string # arg # map (\<lambda>t. remove_const (remove_reference t)) args,
           ft_args_tuple_2nd = std_string # map (\<lambda>t. remove_const (remove_reference t)) args\<rparr>)"

fun function_traits :: "callable \<Rightarrow> fn_traits" where
  "function_traits (Fun_type sg) = traits_of_signature sg"
| "function_traits (Fun_pointer sg) = traits_of_signature sg"
| "function_traits (Std_function sg) = traits_of_signature sg"
| "function_traits (Member_function c sg) = traits_of_signature sg"
| "function_traits (Const_member_function c sg) = traits_of_signature sg"
| "function_traits (Functor c) = function_traits c"

text \<open>The signature of a callable.\<close>

fun signature_of :: "callable \<Rightarrow> signature" where
  "signature_of (Fun_type sg) = sg"
| "signature_of (Fun_pointer sg) = sg"
| "signature_of (Std_function sg) = sg"
| "signature_of (Member_function c sg) = sg"
| "signature_of (Const_member_function c sg) = sg"
| "signature_of (Functor c) = signature_of c"

text \<open>An index that is out of range does not compile; \<open>sizeof...(Args) - 1\<close> wraps around for no arguments.\<close>

definition nth_type_of :: "nat \<Rightarrow> cpp_type list \<Rightarrow> cpp_type option" where
  "nth_type_of N args = (if N < length args then Some (args ! N) else None)"

definition last_type_of :: "cpp_type list \<Rightarrow> cpp_type option" where
  "last_type_of args = nth_type_of (if args = [] then 2 ^ 64 - 1 else length args - 1) args"

lemma function_traits_signature: "function_traits c = traits_of_signature (signature_of c)"
  by (induction c) simp_all

subsection \<open>The call that the router makes\<close>

text \<open>
  \<open>invoker::apply\<close> unpacks a tuple of the type \<open>args_tuple\<close> and \<open>call_helper\<close> passes the connection, the
  name of a parameter of its own, and then the elements of the tuple through \<open>std::move\<close>; \<open>result_of\<close>
  names the type of the same call with all arguments moved. Whether such a call compiles is the language's
  rule for binding a parameter to an argument: \<open>conv\<close> tells the implicit conversions between different
  classes. A parameter that is declared \<open>const\<close> has the type without it.
\<close>

datatype value_category = Lvalue | Rvalue

type_synonym argument = "value_category \<times> cpp_type"

fun parameter_type :: "cpp_type \<Rightarrow> bool" where
  "parameter_type (Named n) = True"
| "parameter_type (LRef (Named n)) = True"
| "parameter_type (LRef (Const (Named n))) = True"
| "parameter_type (RRef (Named n)) = True"
| "parameter_type (RRef (Const (Named n))) = True"
| "parameter_type _ = False"

fun binds :: "(cpp_type \<Rightarrow> cpp_type \<Rightarrow> bool) \<Rightarrow> cpp_type \<Rightarrow> argument \<Rightarrow> bool" where
  "binds conv (LRef (Const t)) (k, a) = (remove_const a = t \<or> conv (remove_const a) t)"
| "binds conv (LRef t) (k, a) = (k = Lvalue \<and> a = t)"
| "binds conv (RRef (Const t)) (k, a) = (if remove_const a = t then k = Rvalue else conv (remove_const a) t)"
| "binds conv (RRef t) (k, a) =
     (if remove_const a = t then k = Rvalue \<and> a = t else conv (remove_const a) t)"
| "binds conv t (k, a) = (remove_const a = t \<or> conv (remove_const a) t)"

definition weak_connection :: cpp_type where
  "weak_connection = Named ''std::weak_ptr<connection>''"

definition invoker_args_tuple :: "callable \<Rightarrow> cpp_type list" where
  "invoker_args_tuple c = ft_bare_tuple_type (function_traits c)"

definition result_of_arguments :: "cpp_type list \<Rightarrow> argument list" where
  "result_of_arguments Args = (Rvalue, weak_connection) # map (Pair Rvalue) Args"

definition call_helper_arguments :: "cpp_type list \<Rightarrow> argument list" where
  "call_helper_arguments Args =
     call_helper (#) (make_index_sequence (length Args)) (map (Pair Rvalue) Args) (Lvalue, weak_connection)"

definition accepts :: "(cpp_type \<Rightarrow> cpp_type \<Rightarrow> bool) \<Rightarrow> callable \<Rightarrow> argument list \<Rightarrow> bool" where
  "accepts conv c = list_all2 (binds conv) (sg_args (signature_of c))"

text \<open>The router calls a function object through a reference to \<open>const\<close>, a member function on the object
  that was registered with it.\<close>

fun callable_when_const :: "callable \<Rightarrow> bool" where
  "callable_when_const (Functor (Member_function c sg)) = False"
| "callable_when_const c = True"

definition invoker_compiles :: "(cpp_type \<Rightarrow> cpp_type \<Rightarrow> bool) \<Rightarrow> callable \<Rightarrow> bool" where
  "invoker_compiles conv c =
     (callable_when_const c \<and> accepts conv c (result_of_arguments (invoker_args_tuple c)) \<and>
      accepts conv c (call_helper_arguments (invoker_args_tuple c)))"

text \<open>An element of the tuple is an object of the parameter's own type, so no conversion is involved, and
  being moved it binds to everything but a reference to a variable that may be changed.\<close>

lemma binds_own_type:
  assumes "parameter_type t"
  shows "binds conv t (Rvalue, remove_const (remove_reference t)) \<longleftrightarrow> t \<noteq> LRef (remove_const (remove_reference t))"
  using assms by (cases t rule: parameter_type.cases) auto

lemma accepts_own_types:
  assumes "list_all parameter_type ts"
  shows "list_all2 (binds conv) ts (map (Pair Rvalue) (map (\<lambda>t. remove_const (remove_reference t)) ts)) \<longleftrightarrow>
     list_all (\<lambda>t. t \<noteq> LRef (remove_const (remove_reference t))) ts"
  using assms by (induction ts) (simp_all add: binds_own_type)

text \<open>The connection has to bind both as a variable and moved.\<close>

lemma binds_both:
  assumes "parameter_type t"
  shows "binds conv t (Rvalue, Named n) \<and> binds conv t (Lvalue, Named n) \<longleftrightarrow>
     (if remove_const_reference t = Named n then t = Named n \<or> t = LRef (Const (Named n))
      else conv (Named n) (remove_const_reference t) \<and> t \<noteq> LRef (remove_const_reference t))"
  using assms by (cases t rule: parameter_type.cases) (auto simp: remove_const_reference_def)

lemma call_helper_arguments_eq:
  "call_helper_arguments Args = (Lvalue, weak_connection) # map (Pair Rvalue) Args"
proof -
  have "map (\<lambda>i. map (Pair Rvalue) Args ! i) [0..<length Args] = map (Pair Rvalue) Args"
    using map_nth [of "map (Pair Rvalue) Args"] by simp
  then show ?thesis by (simp add: call_helper_arguments_def call_helper_def)
qed

subsection \<open>Properties\<close>

text \<open>C23. The recursion of \<open>make_index_sequence\<close> ends for every \<open>N\<close> and gives the numbers below \<open>N\<close> in order,
  although it splits them in halves and renumbers the second one; so \<open>apply\<close> and the helpers of the
  router pass every element of a tuple exactly once and in order, and \<open>for_each\<close> visits them so, while
  \<open>tuple_switch\<close> calls its function once, at the given index, or not at all when that is out of range.\<close>

theorem tuples_are_spread_in_order:
  "make_index_sequence N = [0..<N] \<and> index_sequence_size (make_index_sequence N) = N \<and>
   index_sequence_for tp = [0..<length tp] \<and>
   apply_tuple g tp = invoke g tp \<and>
   call_helper f (make_index_sequence (length tp)) tp conn = f conn tp \<and>
   call_member_helper h self (make_index_sequence (length tp)) tp conn = h self conn tp \<and>
   for_each tp k (index_sequence_for tp) s = fold k tp s \<and>
   tuple_switch i tp w s = (if i < length tp then w i s else s)"
  by (simp add: index_sequence_size_def index_sequence_for_def apply_tuple_def apply_helper_def invoke_def
      call_helper_def call_member_helper_def map_nth for_each_def fold_nth tuple_switch_def tuple_switch_at_def
      fold_switch)

text \<open>C36. Which functions can be registered with the router, however they are written (function, pointer,
  \<open>std::function\<close>, member function or function object): those that can be called when they are constant,
  have a first parameter that takes the connection as a variable and moved alike (by value, by constant
  reference, or through an implicit conversion of the connection to another class), and whose other
  parameters are not references to variables. For all others the call in \<open>call_helper\<close> or the
  \<open>result_of\<close> in front of it does not compile. No other parameter ever needs a conversion: the tuple that
  \<open>invoker\<close> unpacks has, in order, the class of every parameter after the first one.\<close>

theorem handlers_that_compile:
  assumes "list_all parameter_type (sg_args (signature_of c))"
  shows "invoker_compiles conv c \<longleftrightarrow> callable_when_const c \<and>
     (\<exists>conn args. sg_args (signature_of c) = conn # args \<and>
        (if remove_const_reference conn = weak_connection
         then conn = weak_connection \<or> conn = LRef (Const weak_connection)
         else conv weak_connection (remove_const_reference conn) \<and> conn \<noteq> LRef (remove_const_reference conn)) \<and>
        list_all (\<lambda>t. t \<noteq> LRef (remove_const_reference t)) args)"
proof (cases "sg_args (signature_of c)")
  case Nil
  then show ?thesis by (simp add: invoker_compiles_def accepts_def result_of_arguments_def)
next
  case (Cons conn args)
  have tuple: "invoker_args_tuple c = map (\<lambda>t. remove_const (remove_reference t)) args"
    by (simp add: invoker_args_tuple_def function_traits_signature traits_of_signature_def Cons)
  have "parameter_type conn" and args: "list_all parameter_type args" using assms by (simp_all add: Cons)
  note conn = binds_both [OF this(1), of conv "''std::weak_ptr<connection>''", folded weak_connection_def]
  have "invoker_compiles conv c \<longleftrightarrow> callable_when_const c \<and>
     (binds conv conn (Rvalue, weak_connection) \<and> binds conv conn (Lvalue, weak_connection)) \<and>
     list_all2 (binds conv) args (map (Pair Rvalue) (map (\<lambda>t. remove_const (remove_reference t)) args))"
    by (auto simp: invoker_compiles_def accepts_def result_of_arguments_def call_helper_arguments_eq tuple Cons)
  also have "\<dots> \<longleftrightarrow> callable_when_const c \<and> 
     (if remove_const_reference conn = weak_connection
      then conn = weak_connection \<or> conn = LRef (Const weak_connection)
      else conv weak_connection (remove_const_reference conn) \<and> conn \<noteq> LRef (remove_const_reference conn)) \<and>
     list_all (\<lambda>t. t \<noteq> LRef (remove_const_reference t)) args"
    unfolding conn accepts_own_types [OF args] by (simp add: remove_const_reference_def)
  finally show ?thesis by (simp add: Cons)
qed

theorem handlers_that_compile_witness:
  "invoker_compiles (\<lambda>_ _. False) (Functor (Const_member_function ''lambda''
       \<lparr>sg_return = Named ''int'', sg_args = [weak_connection, LRef (Const std_string), Named ''int'']\<rparr>)) \<and>
   \<not> invoker_compiles (\<lambda>_ _. False) (Fun_pointer
       \<lparr>sg_return = Named ''int'', sg_args = [weak_connection, LRef std_string]\<rparr>) \<and>
   \<not> invoker_compiles (\<lambda>_ _. False) (Fun_pointer \<lparr>sg_return = Named ''int'', sg_args = [std_string]\<rparr>)"
proof -
  let ?good = "Functor (Const_member_function ''lambda''
       \<lparr>sg_return = Named ''int'', sg_args = [weak_connection, LRef (Const std_string), Named ''int'']\<rparr>)"
  let ?ref = "Fun_pointer \<lparr>sg_return = Named ''int'', sg_args = [weak_connection, LRef std_string]\<rparr>"
  let ?no = "Fun_pointer \<lparr>sg_return = Named ''int'', sg_args = [std_string]\<rparr>"
  have "list_all parameter_type (sg_args (signature_of ?good))"
    and "list_all parameter_type (sg_args (signature_of ?ref))"
    and "list_all parameter_type (sg_args (signature_of ?no))"
    by (simp_all add: weak_connection_def std_string_def)
  note compile = this [THEN handlers_that_compile]
  show ?thesis
    unfolding compile by (simp add: weak_connection_def std_string_def remove_const_reference_def)
qed

end
