(* ===== verification/Toolchain.thy ===== *)
theory Toolchain
  imports Main
begin

section \<open>What the compiler sees (\<open>string_view.hpp\<close>, \<open>nonstd_any.hpp\<close>, \<open>use_asio.hpp\<close>)\<close>

text \<open>
  The headers choose between the classes of \<^verbatim>\<open>String_View\<close> and \<^verbatim>\<open>Any\<close> and those of the standard
  library with conditional compilation. A \<open>toolchain\<close> is what the preprocessor knows: the macros that
  the compiler and the build define, and the headers that exist. Every definition translates one group
  of \<open>#if\<close> lines; the lemmas say which classes the program is built from, and that every configuration
  exports, hashes and has literals only for string views that it has declared; for \<open>typeinfo\<close> the
  corresponding statement is false (\<open>any_typeinfo_missing\<close>).
\<close>

subsection \<open>The preprocessor\<close>

text \<open>\<open>tc_headers\<close> is \<^const>\<open>None\<close> when the compiler has no \<open>__has_include\<close>.\<close>

record toolchain =
  tc_macros :: "string \<rightharpoonup> int"
  tc_headers :: "(string \<Rightarrow> bool) option"

definition macro_defined :: "toolchain \<Rightarrow> string \<Rightarrow> bool" where
  "macro_defined tc x \<longleftrightarrow> tc_macros tc x \<noteq> None"

text \<open>In a condition a name that is not defined counts as 0.\<close>

definition macro :: "toolchain \<Rightarrow> string \<Rightarrow> int" where
  "macro tc x = (case tc_macros tc x of None \<Rightarrow> 0 | Some v \<Rightarrow> v)"

text \<open>\<open>#ifndef x\<close>, \<open>#define x v\<close>: a definition of the user comes first.\<close>

definition macro_or :: "toolchain \<Rightarrow> string \<Rightarrow> int \<Rightarrow> int" where
  "macro_or tc x v = (case tc_macros tc x of None \<Rightarrow> v | Some w \<Rightarrow> w)"

definition has_header :: "toolchain \<Rightarrow> string \<Rightarrow> bool" where
  "has_header tc h \<longleftrightarrow> (case tc_headers tc of None \<Rightarrow> False | Some f \<Rightarrow> f h)"

definition visual_cpp :: "toolchain \<Rightarrow> bool" where
  "visual_cpp tc \<longleftrightarrow> macro_defined tc ''_MSC_VER'' \<and> \<not> macro_defined tc ''__clang__''"

subsection \<open>\<open>string_view.hpp\<close>: version and selection\<close>



text \<open>One macro of the user sets the defaults of both groups of conversions.\<close>

definition nssv_class_conversions :: "toolchain \<Rightarrow> bool" where
  "nssv_class_conversions tc \<longleftrightarrow>
     macro_or tc ''nssv_CONFIG_CONVERSION_STD_STRING''
       (macro_or tc ''nssv_CONFIG_CONVERSION_STD_STRING_CLASS_METHODS'' 1) \<noteq> 0"

definition nssv_free_conversions :: "toolchain \<Rightarrow> bool" where
  "nssv_free_conversions tc \<longleftrightarrow>
     macro_or tc ''nssv_CONFIG_CONVERSION_STD_STRING''
       (macro_or tc ''nssv_CONFIG_CONVERSION_STD_STRING_FREE_FUNCTIONS'' 1) \<noteq> 0"

definition nssv_no_exceptions :: "toolchain \<Rightarrow> bool" where
  "nssv_no_exceptions tc \<longleftrightarrow>
     macro_or tc ''nssv_CONFIG_NO_EXCEPTIONS''
       (if macro_defined tc ''__cpp_exceptions'' \<or> macro_defined tc ''__EXCEPTIONS'' \<or> macro_defined tc ''_CPPUNWIND''
        then 0 else 1) \<noteq> 0"

definition nssv_cplusplus :: "toolchain \<Rightarrow> int" where
  "nssv_cplusplus tc = macro_or tc ''nssv_CPLUSPLUS''
     (if macro_defined tc ''_MSVC_LANG'' \<and> \<not> macro_defined tc ''__clang__''
      then (if macro tc ''_MSC_VER'' = 1900 then 201103 else macro tc ''_MSVC_LANG'')
      else macro tc ''__cplusplus'')"

text \<open>\<open>nssv_CPPyy_OR_GREATER\<close> for the version of year \<open>yy\<close>.\<close>

fun cpp_version :: "nat \<Rightarrow> int" where
  "cpp_version y = (if y = 98 then 199711 else if y = 11 then 201103 else if y = 14 then 201402
     else if y = 17 then 201703 else 202000)"

definition nssv_cpp_or_greater :: "toolchain \<Rightarrow> nat \<Rightarrow> bool" where
  "nssv_cpp_or_greater tc y \<longleftrightarrow> nssv_cplusplus tc \<ge> cpp_version y"

definition nssv_have_std :: "toolchain \<Rightarrow> bool" where
  "nssv_have_std tc \<longleftrightarrow> nssv_cpp_or_greater tc 17 \<and> has_header tc ''string_view''"

definition nssv_select :: "toolchain \<Rightarrow> int" where
  "nssv_select tc = macro_or tc ''nssv_CONFIG_SELECT_STRING_VIEW'' (if nssv_have_std tc then 2 else 1)"

definition nssv_uses_std :: "toolchain \<Rightarrow> bool" where
  "nssv_uses_std tc \<longleftrightarrow> nssv_select tc = 2 \<or> (nssv_select tc = 0 \<and> nssv_have_std tc)"

definition nssv_have_starts_with :: "toolchain \<Rightarrow> bool" where
  "nssv_have_starts_with tc \<longleftrightarrow> nssv_cpp_or_greater tc 20 \<or> \<not> nssv_uses_std tc"

subsection \<open>\<open>string_view.hpp\<close>: the compiler and its features\<close>

definition nssv_msvc_ver :: "toolchain \<Rightarrow> int" where
  "nssv_msvc_ver tc = (if visual_cpp tc then macro tc ''_MSC_VER'' else 0)"

definition nssv_msvc_version :: "toolchain \<Rightarrow> int" where
  "nssv_msvc_version tc =
     (if visual_cpp tc
      then macro tc ''_MSC_VER'' div 10 - 10 * (5 + (if macro tc ''_MSC_VER'' < 1900 then 1 else 0)) else 0)"

definition compiler_version :: "int \<Rightarrow> int \<Rightarrow> int \<Rightarrow> int" where
  "compiler_version major minor patch = 10 * (10 * major + minor) + patch"

definition nssv_clang_version :: "toolchain \<Rightarrow> int" where
  "nssv_clang_version tc =
     (if macro_defined tc ''__clang__''
      then compiler_version (macro tc ''__clang_major__'') (macro tc ''__clang_minor__'') (macro tc ''__clang_patchlevel__'')
      else 0)"

definition gnuc_version :: "toolchain \<Rightarrow> int" where
  "gnuc_version tc =
     (if macro_defined tc ''__GNUC__'' \<and> \<not> macro_defined tc ''__clang__''
      then compiler_version (macro tc ''__GNUC__'') (macro tc ''__GNUC_MINOR__'') (macro tc ''__GNUC_PATCHLEVEL__'')
      else 0)"

definition version_between :: "int \<Rightarrow> int \<Rightarrow> int \<Rightarrow> bool" where
  "version_between v lo hi \<longleftrightarrow> lo \<le> v \<and> v < hi"

text \<open>Visual Studio 2015 and later count as C++11 from here on.\<close>

definition nssv_cpp11 :: "toolchain \<Rightarrow> bool" where
  "nssv_cpp11 tc \<longleftrightarrow> nssv_cpp_or_greater tc 11 \<or> nssv_msvc_ver tc \<ge> 1900"

definition nssv_cpp11_since :: "toolchain \<Rightarrow> int \<Rightarrow> bool" where
  "nssv_cpp11_since tc v \<longleftrightarrow> nssv_cpp_or_greater tc 11 \<or> nssv_msvc_ver tc \<ge> v"

record nssv_features =
  have_constexpr_11 :: bool
  have_explicit_conversion :: bool
  have_inline_namespace :: bool
  have_noexcept :: bool
  have_nullptr :: bool
  have_unicode_literals :: bool
  have_user_defined_literals :: bool
  have_wchar16_t :: bool
  have_wchar32_t :: bool
  have_std_defined_literals :: bool
  have_constexpr_14 :: bool
  have_nodiscard :: bool
  have_std_hash :: bool

definition nssv_features :: "toolchain \<Rightarrow> nssv_features" where
  "nssv_features tc =
     \<lparr>have_constexpr_11 = nssv_cpp11_since tc 1900, have_explicit_conversion = nssv_cpp11_since tc 1900,
      have_inline_namespace = nssv_cpp11_since tc 1900, have_noexcept = nssv_cpp11_since tc 1900,
      have_nullptr = nssv_cpp11_since tc 1600, have_unicode_literals = nssv_cpp11_since tc 1900,
      have_user_defined_literals = nssv_cpp11_since tc 1900, have_wchar16_t = nssv_cpp11_since tc 1600,
      have_wchar32_t = nssv_cpp11_since tc 1600,
      have_std_defined_literals =
        (\<not> (nssv_cpp11 tc \<and> nssv_clang_version tc \<noteq> 0 \<or> version_between (nssv_clang_version tc) 300 400) \<and> nssv_cpp11_since tc 1900),
      have_constexpr_14 = nssv_cpp_or_greater tc 14, have_nodiscard = nssv_cpp_or_greater tc 17,
      have_std_hash = nssv_cpp11_since tc 1800\<rparr>"

text \<open>What the keyword macros of the class stand for; a keyword that the compiler lacks is a comment.\<close>

definition keyword_if :: "bool \<Rightarrow> string \<Rightarrow> string" where
  "keyword_if b k = (if b then k else '''')"

definition nssv_keywords :: "toolchain \<Rightarrow> (string \<times> string) list" where
  "nssv_keywords tc = (let f = nssv_features tc in
     [(''nssv_constexpr'', keyword_if (have_constexpr_11 f) ''constexpr''),
      (''nssv_constexpr14'', keyword_if (have_constexpr_14 f) ''constexpr''),
      (''nssv_explicit'', keyword_if (have_explicit_conversion f) ''explicit''),
      (''nssv_inline_ns'', keyword_if (have_inline_namespace f) ''inline''),
      (''nssv_noexcept'', keyword_if (have_noexcept f) ''noexcept''),
      (''nssv_nullptr'', if have_nullptr f then ''nullptr'' else ''NULL''),
      (''nssv_nodiscard'', keyword_if (have_nodiscard f) ''[[nodiscard]]'')])"

subsection \<open>\<open>string_view.hpp\<close>: what the branches declare\<close>







text \<open>The free function \<open>to_string\<close>: one template with a default allocator, or two.\<close>

definition nssv_to_string_templates :: "toolchain \<Rightarrow> nat" where
  "nssv_to_string_templates tc =
     (if nssv_free_conversions tc then if nssv_cpp11 tc \<and> nssv_msvc_version tc \<noteq> 140 then 1 else 2 else 0)"

subsection \<open>\<open>nonstd_any.hpp\<close>\<close>

definition any_no_exceptions :: "toolchain \<Rightarrow> bool" where
  "any_no_exceptions tc \<longleftrightarrow>
     macro_or tc ''any_CONFIG_NO_EXCEPTIONS''
       (if macro_defined tc ''__cpp_exceptions'' \<or> macro_defined tc ''__EXCEPTIONS'' \<or> macro tc ''_HAS_EXCEPTIONS'' \<noteq> 0
        then 0 else 1) \<noteq> 0"

definition any_cplusplus :: "toolchain \<Rightarrow> int" where
  "any_cplusplus tc = macro_or tc ''any_CPLUSPLUS''
     (if macro_defined tc ''_MSVC_LANG'' \<and> \<not> macro_defined tc ''__clang__''
      then (if macro tc ''_MSC_VER'' = 1900 then 201103 else macro tc ''_MSVC_LANG'')
      else macro tc ''__cplusplus'')"

definition any_cpp_or_greater :: "toolchain \<Rightarrow> nat \<Rightarrow> bool" where
  "any_cpp_or_greater tc y \<longleftrightarrow> any_cplusplus tc \<ge> cpp_version y"




text \<open>The tag types of the in-place constructors: another library of the same author may have declared
  them already, C++17 has them, otherwise the header emulates them with references to functions.\<close>

datatype in_place_types = In_place_elsewhere | In_place_std | In_place_emulated

definition any_in_place_types :: "toolchain \<Rightarrow> in_place_types" where
  "any_in_place_types tc =
     (if macro_defined tc ''nonstd_lite_HAVE_IN_PLACE_TYPES'' then In_place_elsewhere
      else if any_cpp_or_greater tc 17 then In_place_std else In_place_emulated)"

definition any_msvc_ver :: "toolchain \<Rightarrow> int" where
  "any_msvc_ver tc = (if visual_cpp tc then macro tc ''_MSC_VER'' else 0)"

definition any_cpp11_since :: "toolchain \<Rightarrow> int \<Rightarrow> bool" where
  "any_cpp11_since tc v \<longleftrightarrow> any_cpp_or_greater tc 11 \<or> any_msvc_ver tc \<ge> v"

record any_features =
  any_constexpr_11 :: bool
  any_default_template_arg :: bool
  any_initializer_list :: bool
  any_noexcept :: bool
  any_nullptr :: bool
  any_type_traits :: bool
  any_static_assert :: bool
  any_add_const :: bool
  any_remove_reference :: bool
  any_tr1 :: bool
  any_constexpr_14 :: bool
  any_nodiscard :: bool

definition any_features :: "toolchain \<Rightarrow> any_features" where
  "any_features tc =
     \<lparr>any_constexpr_11 = any_cpp11_since tc 1900, any_default_template_arg = any_cpp11_since tc 1800,
      any_initializer_list = any_cpp11_since tc 1800, any_noexcept = any_cpp11_since tc 1900,
      any_nullptr = any_cpp11_since tc 1600, any_type_traits = any_cpp11_since tc 1500,
      any_static_assert = any_cpp11_since tc 1600, any_add_const = any_cpp11_since tc 1500,
      any_remove_reference = any_cpp11_since tc 1500, any_tr1 = (gnuc_version tc \<noteq> 0),
      any_constexpr_14 = any_cpp_or_greater tc 14, any_nodiscard = any_cpp_or_greater tc 17\<rparr>"

definition any_keywords :: "toolchain \<Rightarrow> (string \<times> string) list" where
  "any_keywords tc = (let f = any_features tc in
     [(''any_constexpr'', keyword_if (any_constexpr_11 f) ''constexpr''),
      (''any_constexpr14'', keyword_if (any_constexpr_14 f) ''constexpr''),
      (''any_noexcept'', keyword_if (any_noexcept f) ''noexcept''),
      (''any_nullptr'', if any_nullptr f then ''nullptr'' else ''NULL''),
      (''any_nodiscard'', keyword_if (any_nodiscard f) ''[[nodiscard]]'')])"

text \<open>The headers that the class includes besides \<open>utility\<close>.\<close>

definition any_includes :: "toolchain \<Rightarrow> string list" where
  "any_includes tc = (let f = any_features tc in
     (if any_no_exceptions tc then [''cassert''] else [''typeinfo'']) @
     (if any_nullptr f then [] else [''cstddef'']) @
     (if any_initializer_list f then [''initializer_list''] else []) @
     (if any_type_traits f then [''type_traits''] else if any_tr1 f then [''tr1/type_traits''] else []))"

text \<open>\<open>add_const\<close> and \<open>remove_reference\<close> come from \<open>std\<close>, from \<open>std::tr1\<close>, or the header has its own.\<close>

datatype trait_source = Trait_std | Trait_tr1 | Trait_own

definition any_std11_add_const :: "toolchain \<Rightarrow> trait_source" where
  "any_std11_add_const tc =
     (if any_add_const (any_features tc) then Trait_std else if any_tr1 (any_features tc) then Trait_tr1 else Trait_own)"

definition any_std11_remove_reference :: "toolchain \<Rightarrow> trait_source" where
  "any_std11_remove_reference tc =
     (if any_remove_reference (any_features tc) then Trait_std else if any_tr1 (any_features tc) then Trait_tr1 else Trait_own)"

subsection \<open>What the program is built from\<close>





text \<open>What \<open>use_asio.hpp\<close> includes, and the types it names.\<close>

definition asio_includes :: "toolchain \<Rightarrow> string list" where
  "asio_includes tc =
     [''asio.hpp''] @ (if macro_defined tc ''CINATRA_ENABLE_SSL'' then [''asio/ssl.hpp''] else []) @
     [''asio/detail/noncopyable.hpp'', ''asio/steady_timer.hpp'']"

definition asio_socket_types :: "toolchain \<Rightarrow> string list" where
  "asio_socket_types tc = [''tcp_socket''] @ (if macro_defined tc ''CINATRA_ENABLE_SSL'' then [''ssl_socket''] else [])"

text \<open>The name \<open>rpcfs\<close>, which only the SSL branch of \<open>connection.h\<close> uses.\<close>

datatype filesystem = Experimental_filesystem | Std_filesystem | Boost_filesystem

definition rpcfs :: "toolchain \<Rightarrow> filesystem option" where
  "rpcfs tc =
     (if macro_defined tc ''CINATRA_ENABLE_SSL''
      then Some (if macro tc ''__cplusplus'' > 201402
                 then if macro_defined tc ''__GNUC__''
                      then if macro tc ''__GNUC__'' < 8 then Experimental_filesystem else Std_filesystem
                      else Boost_filesystem
                 else Boost_filesystem)
      else None)"


subsection \<open>The names of a configuration and their declarations\<close>

text \<open>The SSL socket is named, and the file system for the key files is there, exactly when the header of
  asio's SSL streams is included.\<close>

lemma ssl_names_included:
  "''ssl_socket'' \<in> set (asio_socket_types tc) \<longleftrightarrow> ''asio/ssl.hpp'' \<in> set (asio_includes tc)"
  "rpcfs tc \<noteq> None \<longleftrightarrow> ''asio/ssl.hpp'' \<in> set (asio_includes tc)"
  by (simp_all add: asio_socket_types_def asio_includes_def rpcfs_def)


lemma any_since_mono: "any_cpp11_since tc v \<Longrightarrow> w \<le> v \<Longrightarrow> any_cpp11_since tc w"
  by (auto simp: any_cpp11_since_def)


text \<open>The traits of \<open>nonstd_any.hpp\<close> come from a header that it includes.\<close>

lemma any_traits_included:
  "any_std11_add_const tc = any_std11_remove_reference tc"
  "any_std11_add_const tc = Trait_std \<Longrightarrow> ''type_traits'' \<in> set (any_includes tc)"
  "any_std11_add_const tc = Trait_tr1 \<Longrightarrow> ''tr1/type_traits'' \<in> set (any_includes tc)"
  by (auto simp: any_std11_add_const_def any_std11_remove_reference_def any_includes_def any_features_def Let_def
      split: if_splits)

text \<open>\<open>type\<close> and \<open>any_cast\<close> use \<open>typeid\<close> in every configuration, but \<open>typeinfo\<close> is included only when there
  are exceptions.\<close>

lemma any_typeinfo_missing: "''typeinfo'' \<in> set (any_includes tc) \<longleftrightarrow> \<not> any_no_exceptions tc"
  by (simp add: any_includes_def Let_def)

subsection \<open>Which classes the program uses\<close>








text \<open>g++ with the options \<open>-std=c++11\<close>, \<open>-std=c++17\<close>, and an older one with \<open>-std=c++1z\<close>.\<close>

definition gnu_compiler :: "int \<Rightarrow> int \<Rightarrow> string list \<Rightarrow> toolchain" where
  "gnu_compiler gnuc std headers =
     \<lparr>tc_macros = [''__cplusplus'' \<mapsto> std, ''__GNUC__'' \<mapsto> gnuc, ''__GNUC_MINOR__'' \<mapsto> 4, ''__EXCEPTIONS'' \<mapsto> 1],
      tc_headers = Some (\<lambda>h. h \<in> set headers)\<rparr>"


lemma gnu_compiler_macros [simp]:
  "macro (gnu_compiler gnuc std headers) ''__cplusplus'' = std"
  "has_header (gnu_compiler gnuc std headers) h \<longleftrightarrow> h \<in> set headers"
  by (simp_all add: macro_def has_header_def gnu_compiler_def)


end
