(* ===== verification/Spec2Isabelle.thy ===== *)
theory Spec2Isabelle
  imports Count_Min Hierarchical Exact Range_Sketch Reset_Thread Session_Safety View_Facts Any Meta_Util Toolchain
begin

text \<open>
  Verification of the frequency sketches and the RPC layer of DistExp.

  \<^bold>\<open>The program.\<close> DistExp runs experiments with erasure-coded storage. Two bodies of code of its own are
  modelled here. The sketches under \<open>src/benchmark/structures/\<close> estimate how often a block or a range
  of a volume was accessed, with 4-bit counters packed sixteen to a word. The RPC layer under
  \<open>src/include/rest_rpc/\<close> carries the traffic of servers, clients and workers: a client packs a call
  into a frame, the server finds the handler by the MD5 key of its name, runs it, and the response
  completes the future or calls the callback of the call; clients can also subscribe to keys and are sent
  what is published under them.

  \<^bold>\<open>Conventions.\<close> A class is a record with one field per member variable, a member function is a function
  on the record, by its name in the source behind a prefix for the class. Machine integers are words of
  their width, or \<open>int\<close> and \<open>nat\<close> with the wrap-around written out. A result is \<open>None\<close> or \<open>Inl\<close> of an
  error where the code fails an assertion, throws, divides by zero or leaves a vector, so every early
  return is a branch; a signed counter that overflows wraps around (\<open>i32\<close>), as it does on the machines the
  code is built for. Loops are structural recursions or folds; the recursions of the two tree sketches
  are partial functions (\<open>partial_function\<close>), so that not returning is \<open>None\<close> and the theorems that they
  return are proved as such; no definition has fuel. Callbacks, completions of asynchronous operations and
  threads are the labels of step relations, and what holds at all times is proved over all runs.

  \<^bold>\<open>The sketches.\<close>
  \<^item> \<^verbatim>\<open>Prelude\<close> names the machine types and the checked integer operations; \<^verbatim>\<open>Detail\<close> is \<open>detail.hpp\<close>: the hash,
    the population count, the rounding to powers of two and the dyadic step.
  \<^item> \<^verbatim>\<open>Counter_Block\<close> holds the counters of one word and the locales \<open>cell_store\<close> (an item is hashed to
    cells, its estimate is their minimum: it never falls below the true count up to the cap) and
    \<open>aging_store\<close> (halving); \<^verbatim>\<open>Block_Table\<close> the table members that the classes share and the locale
    \<open>hashed_table\<close>, a \<open>sublocale\<close> of \<open>aging_store\<close>. It is interpreted as \<open>cm\<close>, \<open>hf\<close> and \<open>mx\<close> on the
    tables of three classes. \<^verbatim>\<open>Access_Range\<close> has the arithmetic of units and blocks.
  \<^item> \<^verbatim>\<open>Count_Min\<close>, \<^verbatim>\<open>Hierarchical\<close>, \<^verbatim>\<open>Exact\<close> and \<^verbatim>\<open>Range_Sketch\<close> are the classes of \<open>count_min_sketch.hpp\<close>,
    \<open>hierarchical_frequency_sketch.hpp\<close>, \<open>exact.hpp\<close> and \<open>range_frequency_sketch.hpp\<close>. Their lemmas
    compare them with the recorded history: lower bounds and caps, exactness modulo 65536, the set of
    accessed blocks, aging, and every branch of the constructors and averages.
  \<^item> \<^verbatim>\<open>Dyadic\<close>, \<^verbatim>\<open>Level_Table\<close>, \<^verbatim>\<open>Interval\<close> and \<^verbatim>\<open>Gxj\<close> are the tree sketches of \<open>interval_sketch.hpp\<close> and
    \<open>gxj_frequency_sketch.hpp\<close>: the recursion over halves of a unit, the levels of counters, and the two
    classes. Queries and accesses return for every unit whose size is a multiple of the granularity,
    and never underestimate; \<open>partial_block_leaves_tree\<close> below shows what happens otherwise.
    \<^verbatim>\<open>Reset_Thread\<close> interleaves their calls with the threads that \<open>try_reset\<close> starts; its locale
    \<open>tree_sketch\<close> is interpreted on both classes.

  \<^bold>\<open>The RPC layer.\<close>
  \<^item> \<^verbatim>\<open>Md5\<close> (\<open>md5.hpp\<close>), equal to RFC 1321 below \<open>2^29\<close> bytes; \<^verbatim>\<open>Wire\<close> (\<open>const_vars.h\<close>), the header
    \<open>rpc_header\<close> with its padding, whose layout is written once as bytes and once as a reading of bytes, and
    the constants; \<^verbatim>\<open>Codec\<close> (\<open>codec.h\<close>, \<open>client_util.hpp\<close>), how results
    and errors are packed and read back; \<^verbatim>\<open>Route_Keys\<close> and \<^verbatim>\<open>Router\<close> (\<open>router.h\<close>), the table of handlers
    compared with the list of registrations, and two names with one key.
  \<^item> \<^verbatim>\<open>Send_Queue\<close> has the locale \<open>send_queue\<close>: one message is written at a time and in order. It is
    interpreted as \<open>cq\<close> on the write queue of \<^verbatim>\<open>Connection\<close> (\<open>connection.h\<close>) and as \<open>clq\<close> on the outbox
    of \<^verbatim>\<open>Client\<close> (\<open>rpc_client.hpp\<close>).
  \<^item> \<^verbatim>\<open>Connection\<close> and \<^verbatim>\<open>Server\<close> (\<open>rpc_server.h\<close>, \<open>io_service_pool.h\<close>) have the step relations \<open>cn_step\<close> and
    \<open>sv_step\<close>, their invariants, the responses in the order of the requests, the watchdog, publishing, and
    the two cleaning passes; \<open>queued n m s\<close> is the connection \<open>s\<close> after \<open>n\<close> further messages \<open>m\<close>. \<^verbatim>\<open>Client\<close>, \<^verbatim>\<open>Client_Calls\<close> and \<^verbatim>\<open>Client_Faults\<close> have \<open>cl_step\<close>: the ids of the two
    kinds of calls, what an answer does, closing, failed writes, reconnecting and the heartbeat.
  \<^item> \<^verbatim>\<open>Round_Trip\<close> joins the ends frame by frame, \<^verbatim>\<open>Channel\<close> and \<^verbatim>\<open>Session\<close> byte by byte: a frame enters the
    stream one byte after the other, and reads complete when their bytes are there. The locale
    \<open>frame_link\<close> of \<^verbatim>\<open>Channel\<close> is a sender and a receiver of frames; \<^verbatim>\<open>Session\<close> interprets it as \<open>up\<close> (client to
    server) and \<open>down\<close>. \<^verbatim>\<open>Session_Safety\<close> proves of the whole system, for any number of outstanding calls
    and every interleaving, that each caller gets the answer to its own call (\<open>session_answers_match\<close>) and
    that the network finishes (\<open>session_completes\<close>): the number of remaining steps is the same in every
    schedule, which is what bounds the run, and none gets stuck before.
  \<^item> \<^verbatim>\<open>String_View\<close> and \<^verbatim>\<open>View_Facts\<close> (\<open>string_view.hpp\<close>), \<^verbatim>\<open>Any\<close> (\<open>nonstd_any.hpp\<close>, with the heap of its
    holders) and \<^verbatim>\<open>Meta_Util\<close> (\<open>meta_util.hpp\<close>, \<open>cplusplus_14.h\<close>) are the classes and templates that the
    layer rests on: views compared with lists of bytes, no holder leaked or deleted twice, tuples
    spread in order, and for which types of functions the router's call compiles. \<^verbatim>\<open>Toolchain\<close> has the conditions of the preprocessor (also of \<open>use_asio.hpp\<close>) that
    choose between those classes and the standard library's: with \<open>-std=c++17\<close>, as \<open>src/CMakeLists.txt\<close>
    has it, the program uses \<open>std::string_view\<close> and \<open>std::any\<close>, up to C++14 its own.

  \<^bold>\<open>Parameters and bounds.\<close> msgpack is the record \<open>msgpack\<close> of functions; \<open>msgpack_ok\<close> says that what was packed
  unpacks to itself, as its documentation does, and \<open>demo_mp\<close> satisfies it. \<open>std::char_traits<char>::compare\<close> is a
  parameter of which only the sign is known (\<open>traits_ok\<close>), as the standard has it. asio is seen through the operations that
  are pending and the events that complete them; a handler is a function that returns or throws. A frame
  carries fewer than \<open>MAX_BUF_LEN\<close> bytes, which the code asserts; \<open>answers_fit\<close> states it of the answers.
  Ids are distinct for fewer than \<open>2^63\<close> calls, because bit 63 marks the calls with a callback.

  \<^bold>\<open>Not modelled.\<close> The SSL branch, which this build does not compile. Threads of the server and the client
  step atomically: each handler runs under the mutex of its object or on one event loop, and the mutex
  itself is not modelled. The threads of \<^verbatim>\<open>Reset_Thread\<close> halve all counters in one step, though the code has no
  synchronisation there, and always start; a timer that is cancelled never fires. \<^verbatim>\<open>Session\<close> has no network errors and no published frames between the
  responses; those are in \<^verbatim>\<open>Client_Faults\<close>, \<^verbatim>\<open>Connection\<close> and \<^verbatim>\<open>Round_Trip\<close>. In the library headers:
  \<open>make_unique\<close> and the aliases of type traits, which only allocate and name; \<open>make_tuple_from_sequence\<close>,
  which nothing calls; the iterator types and the character types other than \<open>char\<close>; the emulation of
  \<open>std::in_place\<close>, which only selects constructors; pragmas. Logging, the benchmark drivers, the workers
  and the Python tools under \<open>src/exp_utils/\<close> are input and output.
\<close>

section \<open>Properties of several components\<close>

text \<open>A unit whose size is not a multiple of the granularity: the constructors of both tree sketches
  compute the number of levels from the whole blocks but the tree spans the partial one too. With
  blocks of 4 bytes and units of 18, four whole blocks and one partial, the fourth block hangs below
  level 0: the constructor succeeds, and every query and every access on that block leaves the
  tables.\<close>

theorem partial_block_leaves_tree:
  "\<exists>s. mx_new 8 4 18 = Inr s \<and> gx_frequency s 7 12 4 = None \<and> gx_record_access s 7 12 4 = None \<and>
       iv_frequency s 7 12 4 = None \<and> iv_record_access s 7 12 4 = None"
proof -
  define s where "s = \<lparr>mx_mix_counters = [[0, 0, 0, 0, 0, 0, 0, 0], [0, 0, 0, 0], [0, 0]],
     mx_counter_level = 3, mx_size = 0, mx_ref_cnt = 0, mx_capacity = 8, mx_soft_reset_idx = 0,
     mx_doing_reset = False, mx_granularity = 4, mx_unit_size = 18\<rparr>"
  have "mx_new 8 4 18 = Inr s" unfolding s_def by code_simp
  moreover have "gx_frequency s 7 12 4 = None" unfolding s_def by code_simp
  moreover have "gx_record_access s 7 12 4 = None" unfolding s_def by code_simp
  moreover have "iv_frequency s 7 12 4 = None" unfolding s_def by code_simp
  moreover have "iv_record_access s 7 12 4 = None" unfolding s_def by code_simp
  ultimately show ?thesis by blast
qed

text \<open>C3. A remote call returns what the function returns: an idle client calls a function that the server
  has registered, over any idle connection of the server. The client's frame, read by the connection,
  runs the function on the arguments of the call; the frame that the connection writes, read by the
  client, completes the future of this call, and \<open>call\<close> returns the value, or raises \<open>logic_error\<close>
  with the text of the exception that the function threw.\<close>

theorem rpc_round_trip:
  assumes "msgpack_ok mp"
    and "cl_run mp (new_client lang host port) es c" and "length es < 2 ^ 63 - 1"
    and "cl_language c = Lang_CPP" and "cl_socket_open c" and "cl_reads c = [Cl_read_head]"
    and "cl_outbox c = []" and "cl_writes c = []"
    and "cn_run mp r self (cn_start (new_connection timeout)) es' s"
    and "\<not> cn_has_closed s" and "cn_reads s = [Read_head]" and "cn_write_queue s = []"
    and "r = register_handler mp Exec_sync name (mp_unpack_args mp) f r0"
    and "mp_pack_args mp args \<noteq> []" and "length (mp_pack_args mp args) < MAX_BUF_LEN"
    and "length (packed_outcome mp (f self args)) < MAX_BUF_LEN"
  shows "\<exists>c1 i request s1 reply c2.
     async_call mp name args c = Some (c1, i) \<and> cl_writes c1 = [request] \<and>
     cn_run mp r self s [(E_head None (encode_header p q (fst request)), []), (E_body None (snd request), [])] s1 \<and>
     cn_writes s1 = [reply] \<and>
     cl_run mp c1 [(Ev_head None (encode_header p' q' (fst reply)), []), (Ev_body None (snd reply), [])] c2 \<and>
     caller_sees mp (f self args) (cl_futures c2 i)"
proof -
  let ?i = "cl_fu_id c + 1" and ?args = "mp_pack_args mp args" and ?reply = "packed_outcome mp (f self args)"
  have small: "drop_bit 63 ?i = 0"
  proof -
    have ids: "cl_ids (length es) c" using cl_ids_run [OF assms(2) cl_ids_new] assms(3) by simp
    then have "unat ?i = unat (cl_fu_id c) + 1" using fresh_future(1) assms(3) by simp
    moreover have "unat (cl_fu_id c) \<le> length es" using ids by (simp add: cl_ids_def)
    ultimately show ?thesis using drop_bit_63 [of ?i] assms(3) by linarith
  qed
  obtain c1 where c1: "async_call mp name args c = Some (c1, ?i)"
    "cl_writes c1 = [cl_frame (cl_mk_msg ?i req_res ?args (md5_hash32 name))]"
    "?i \<in> set (cl_future_map c1)" "cl_reads c1 = [Cl_read_head]" "cl_socket_open c1" "cl_language c1 = Lang_CPP"
    using async_call_idle [OF assms(7,8,15), of name] assms(4-6) by metis
  let ?request = "cl_frame (cl_mk_msg ?i req_res ?args (md5_hash32 name))"
  have ok: "cn_ok s" using assms(9) cn_ok_new by (rule cn_ok_run)
  have "\<exists>s1. cn_run mp r self s [(E_head None (encode_header p q (fst ?request)), []), (E_body None ?args, [])] s1 \<and>
      cn_reads s1 = [Read_head] \<and> \<not> cn_has_closed s1 \<and> cn_write_queue s1 = cn_write_queue s @ [mk_msg ?i req_res ?reply]"
    using assms(13-16) route_registered [where mp = mp and req_id = ?i and name = name and r = r0]
    by (intro cn_request_served [OF ok assms(10,11)])
      (simp_all add: cl_frame_def frame_len assms(1) route_registered)
  then obtain s1 where
    s1: "cn_run mp r self s [(E_head None (encode_header p q (fst ?request)), []), (E_body None ?args, [])] s1"
    "\<not> cn_has_closed s1" "cn_write_queue s1 = [mk_msg ?i req_res ?reply]"
    using assms(12) by auto
  have w: "cn_writes s1 = [cn_frame (mk_msg ?i req_res ?reply)]"
    using cn_idle_writes [OF cn_ok_run [OF s1(1) ok] s1(2,3)] .
  obtain c2 where c2: "cl_run mp c1 [(Ev_head None (encode_header p' q' (fst (cn_frame (mk_msg ?i req_res ?reply)))), []),
      (Ev_body None ?reply, [])] c2" "cl_futures c2 ?i = Fs_ready \<lparr>rr_data = ?reply\<rparr>"
    using response_delivered [OF c1(5,4,6,3) small packed_outcome_nonempty [OF assms(1)] assms(16)] by metis
  have "snd ?request = ?args" "snd (cn_frame (mk_msg ?i req_res ?reply)) = ?reply"
    by (simp_all add: cl_frame_def cn_frame_def)
  then show ?thesis
    using c1(1,2) s1(1) w c2 caller_sees_packed [OF assms(1), of "f self args"] by metis
qed

theorem rpc_round_trip_witness:
  "\<exists>c1 i request s1 reply c2 r. r = register_handler demo_msgpack Exec_sync [97] (mp_unpack_args demo_msgpack)
        (\<lambda>conn args. Returned (rev args)) new_router \<and>
     async_call demo_msgpack [97] [5, 6] demo_cl2 = Some (c1, i) \<and> cl_writes c1 = [request] \<and>
     cn_run demo_msgpack r 1 demo_start
       [(E_head None (encode_header 0 0 (fst request)), []), (E_body None (snd request), [])] s1 \<and>
     cn_writes s1 = [reply] \<and>
     cl_run demo_msgpack c1 [(Ev_head None (encode_header 0 0 (fst reply)), []), (Ev_body None (snd reply), [])] c2 \<and>
     call_result demo_msgpack (cl_futures c2 i) = Inr [6, 5]"
proof -
  have run: "cl_run demo_msgpack (new_client Lang_CPP [] 9000) [(Ev_connect, []), (Ev_connected None, [Notify_connected])] demo_cl2"
    using demo_cl1 demo_cl2 by (auto intro!: cl_run.intros intro: cl_step.intros)
  let ?f = "\<lambda>conn args. Returned (rev args)"
  let ?r = "register_handler demo_msgpack Exec_sync [97] (mp_unpack_args demo_msgpack) ?f new_router"
  have sizes: "mp_pack_args demo_msgpack [5, 6] \<noteq> []" "length (mp_pack_args demo_msgpack [5, 6]) < MAX_BUF_LEN"
    "length (packed_outcome demo_msgpack (Returned (rev [5, 6]))) < MAX_BUF_LEN"
    by (simp_all add: demo_msgpack_def packed_outcome_def pack_args_str_value_def demo_code_def MAX_BUF_LEN_def)
  have sees: "caller_sees demo_msgpack (Returned (rev [5, 6])) fs \<longleftrightarrow> call_result demo_msgpack fs = Inr [6, 5]" for fs
    by (simp add: caller_sees_def)
  show ?thesis
    using rpc_round_trip [OF demo_msgpack_ok run _ _ _ _ _ _ cn_run.nil _ _ _ refl sizes(1,2), where f = ?f and self = 1
        and timeout = 5 and p = 0 and q = 0 and p' = 0 and q' = 0 and name = "[97]" and ?r0.0 = new_router] sizes(3)
    by (simp only: sees demo_cl2_simps demo_start_simps refl simp_thms) fastforce
qed

text \<open>C5. A publication reaches a subscriber, whatever other subscriptions the server has: a client that has
  nothing else to send and subscribes to a key and a token it has no subscription for sends one frame;
  once a connection of the server with nothing queued has read it, a publication for this key and token
  is written to that connection, and the client that reads it hands exactly the published bytes to the
  callback of the joined key.\<close>

theorem subscription_round_trip:
  assumes "msgpack_ok mp"
    and "cl_socket_open c" and "cl_reads c = [Cl_read_head]" and "cl_outbox c = []" and "cl_writes c = []"
    and "key @ token \<notin> set (cl_sub_map c)"
    and "mp_pack_key_token mp key token \<noteq> []" and "length (mp_pack_key_token mp key token) < MAX_BUF_LEN"
    and "sv_store sv self = Some s" and "self \<noteq> sv_conn sv"
    and "cn_ok s" and "\<not> cn_has_closed s" and "cn_reads s = [Read_head]" and "cn_write_queue s = []"
    and "pub = pack_args_str_key_data mp Result_OK (key @ token) (get_shared_data mp data)"
    and "pub \<noteq> []" and "length pub < MAX_BUF_LEN"
  shows "\<exists>c1 request sv2 message c2.
     subscribe_token mp key token c = Some c1 \<and> cl_writes c1 = [request] \<and>
     sv_run mp r sv [On_connection self (E_head None (encode_header p q (fst request))),
                     On_connection self (E_body None (snd request)), Publish key token data] sv2 \<and>
     map_option cn_writes (sv_store sv2 self) = Some [message] \<and>
     cl_run mp c1 [(Ev_head None (encode_header p' q' (fst message)), []),
                   (Ev_body None (snd message), [Sub_data (key @ token) (get_shared_data mp data)])] c2"
proof -
  let ?body = "mp_pack_key_token mp key token"
  let ?request = "cl_frame (cl_mk_msg 0 sub_pub ?body (md5_hash32 key))"
  obtain c1 where c1: "subscribe_token mp key token c = Some c1" "cl_writes c1 = [?request]"
    "key @ token \<in> set (cl_sub_map c1)" "cl_reads c1 = [Cl_read_head]" "cl_socket_open c1"
    using subscribe_idle [OF assms(4,5,6,8)] assms(2,3) by metis
  obtain s1 s2 where 1: "cn_step mp r self s (E_head None (encode_header p q (fst ?request))) [] s1"
    and 2: "cn_step mp r self s1 (E_body None ?body) [Sub_callback key token] s2"
    and s2: "\<not> cn_has_closed s2" "cn_write_queue s2 = []"
    using cn_subscription_served [OF assms(11,12,13), of "fst ?request" ?body mp key token r self p q] assms(1,7,8,14)
    by (auto simp: cl_frame_def frame_len msgpack_okD)
  let ?sv1 = "sv_put self s1 sv" and ?sv2 = "sv_subscribe key token self (sv_put self s2 (sv_put self s1 sv))"
  have "sv_step mp r sv (On_connection self (E_head None (encode_header p q (fst ?request)))) ?sv1"
    using sv_step.on_connection [OF assms(9,10) 1] by simp
  moreover have "sv_step mp r ?sv1 (On_connection self (E_body None ?body)) ?sv2"
    using sv_step.on_connection [of ?sv1 self s1, OF _ _ 2] assms(10) by (simp add: sv_put_def)
  moreover obtain sv2 n where pub: "sv_publish mp key token data ?sv2 = Some sv2" "0 < n"
    and s3: "sv_store sv2 self = Some (queued n (mk_msg 0 sub_pub pub) s2)"
  proof -
    let ?subs = "\<lambda>s. map snd (filter (\<lambda>(k, conn). k = key @ token) (sv_sub_map s))"
    have store: "sv_store ?sv2 self = Some s2" and "(key @ token, self) \<in> set (sv_sub_map ?sv2)"
      by (simp_all add: sv_subscribe_def sv_put_def Let_def)
    then have "self \<in> set (?subs ?sv2)" by force
    then have "0 < count_list (?subs ?sv2) self" using count_list_0_iff by (metis gr0I)
    moreover have "length (pack_args_str_key_data mp Result_OK (key @ token) (get_shared_data mp data)) < MAX_BUF_LEN"
      using assms(15,17) by simp
    from fold_publish [OF this, of "?subs ?sv2" ?sv2]
    obtain t where "sv_publish mp key token data ?sv2 = Some t"
      and "sv_store t self = Some (queued (count_list (?subs ?sv2) self) (mk_msg 0 sub_pub pub) s2)"
      unfolding sv_publish_eq assms(15) [symmetric] using store s2(1) by auto
    ultimately show thesis using that by blast
  qed
  ultimately have run: "sv_run mp r sv [On_connection self (E_head None (encode_header p q (fst ?request))),
      On_connection self (E_body None ?body), Publish key token data] sv2"
    by (blast intro: sv_run.intros sv_step.publish)
  have "mp_unpack_code_key_data mp pub = Some (result_code_value Result_OK, key @ token, get_shared_data mp data)"
    using assms(1,15) by (simp add: msgpack_okD)
  then obtain c2 where "cl_run mp c1 [(Ev_head None (encode_header p' q' (fst (cn_frame (mk_msg 0 sub_pub pub)))), []),
      (Ev_body None pub, [Sub_data (key @ token) (get_shared_data mp data)])] c2"
    using publication_delivered [OF c1(5,4,3) _ assms(16,17)] by metis
  moreover have "snd ?request = ?body" "snd (cn_frame (mk_msg 0 sub_pub pub)) = pub"
    by (simp_all add: cl_frame_def cn_frame_def)
  moreover have "cn_writes s2 = []"
    using cn_ok_step [OF 2 cn_ok_step [OF 1 assms(11)]] s2 by (simp add: cn_ok_def)
  then have "map_option cn_writes (sv_store sv2 self) = Some [cn_frame (mk_msg 0 sub_pub pub)]"
    using s3 s2 pub(2) by (simp add: queued_def)
  ultimately show ?thesis using c1(1,2) run by metis
qed

theorem subscription_round_trip_witness:
  "\<exists>c1 request sv2 message c2.
     subscribe_token demo_msgpack [107] [116] demo_cl2 = Some c1 \<and> cl_writes c1 = [request] \<and>
     sv_run demo_msgpack new_router demo_sv [On_connection 0 (E_head None (encode_header 0 0 (fst request))),
                     On_connection 0 (E_body None (snd request)), Publish [107] [116] (Inl [1, 2])] sv2 \<and>
     map_option cn_writes (sv_store sv2 0) = Some [message] \<and>
     cl_run demo_msgpack c1 [(Ev_head None (encode_header 0 0 (fst message)), []),
                   (Ev_body None (snd message), [Sub_data [107, 116] [1, 2]])] c2"
proof -
  have d: "get_shared_data demo_msgpack (Inl [1, 2]) = [1, 2]" "[107 :: u8] @ [116] = [107, 116]"
    by (simp_all add: get_shared_data_def)
  have sizes: "mp_pack_key_token demo_msgpack [107] [116] \<noteq> []"
    "length (mp_pack_key_token demo_msgpack [107] [116]) < MAX_BUF_LEN"
    "pack_args_str_key_data demo_msgpack Result_OK ([107] @ [116]) (get_shared_data demo_msgpack (Inl [1, 2])) \<noteq> []"
    "length (pack_args_str_key_data demo_msgpack Result_OK ([107] @ [116]) (get_shared_data demo_msgpack (Inl [1, 2]))) < MAX_BUF_LEN"
    by (simp_all add: demo_msgpack_def pack_args_str_key_data_def demo_code_def get_shared_data_def MAX_BUF_LEN_def)
  have s: "sv_store demo_sv 0 = Some demo_start" "0 \<noteq> sv_conn demo_sv"
    by (simp_all add: demo_sv_simps)
  show ?thesis
    using subscription_round_trip [OF demo_msgpack_ok demo_cl2_simps(8,9,1,2) _ sizes(1,2) s cn_ok_new _ _ _ refl sizes(3,4),
        where r = new_router and p = 0 and q = 0 and p' = 0 and q' = 0]
    by (simp add: d)
qed

end
